(* ===== verification/Prelude.thy ===== *)
theory Prelude
  imports Main "HOL-Library.AList" "HOL-Library.Word" "HOL-Library.Sublist"
begin

text \<open>
  Shared vocabulary of the development: the simp-rule collections, the type names of the model,
  and the generic facts on association lists, filters and folds that several components use.

  Go maps are association lists with distinct keys.  The order of the list stands for the order in
  which a \<^verbatim>\<open>range\<close> loop happens to visit the map, so a theorem that holds for every such list holds
  for every iteration order the Go runtime may choose.
\<close>

named_theorems path_simps \<open>rewriting on Go path strings and their components\<close>

type_synonym ('k, 'v) gomap = "('k \<times> 'v) list"
type_synonym int64 = "64 word"
type_synonym int32 = "32 word"

text \<open>A Go map: every key occurs once.\<close>

abbreviation keys :: "('k, 'v) gomap \<Rightarrow> 'k list" where
  "keys m \<equiv> map fst m"

abbreviation map_ok :: "('k, 'v) gomap \<Rightarrow> bool" where
  "map_ok m \<equiv> distinct (keys m)"

section \<open>Association lists as Go maps\<close>

text \<open>
  \<open>AList.update\<close> is the Go assignment \<^verbatim>\<open>m[k] = v\<close> and \<open>AList.delete\<close> the built-in \<^verbatim>\<open>delete(m, k)\<close>.
\<close>

lemma map_of_update [simp]: "map_of (AList.update k v m) = (map_of m)(k \<mapsto> v)"
  by (rule update_conv')

lemma map_of_delete [simp]: "map_of (AList.delete k m) = (map_of m)(k := None)"
  by (rule delete_conv')

lemma map_ok_update [intro, simp]: "map_ok m \<Longrightarrow> map_ok (AList.update k v m)"
  by (rule distinct_update)

lemma map_ok_delete [intro, simp]: "map_ok m \<Longrightarrow> map_ok (AList.delete k m)"
  by (rule distinct_delete)

lemma set_update_subset: "set (AList.update k v m) \<subseteq> insert (k, v) (set m)"
  by (induction m) auto

lemma set_delete_subset: "set (AList.delete k m) \<subseteq> set m"
  by (auto simp: AList.delete_eq)

lemma update_nonempty [simp]: "AList.update k v m \<noteq> []"
  by (induction m) auto

lemma delete_empty_iff: "AList.delete k m = [] \<longleftrightarrow> (\<forall>k' v. (k', v) \<in> set m \<longrightarrow> k' = k)"
  by (force simp: AList.delete_eq filter_empty_conv)

lemma map_of_eq_Some_in_set: "map_of m k = Some v \<Longrightarrow> (k, v) \<in> set m"
  by (rule map_of_SomeD)

lemma in_set_map_of: "map_ok m \<Longrightarrow> (k, v) \<in> set m \<Longrightarrow> map_of m k = Some v"
  by simp

lemma map_ok_delete_notin: "map_ok m \<Longrightarrow> k \<notin> set (keys (AList.delete k m))"
  by (auto simp: AList.delete_eq)

lemma keys_update_in: "k \<in> set (keys m) \<Longrightarrow> keys (AList.update k v m) = keys m"
  by (induction m) auto

lemma keys_update_notin: "k \<notin> set (keys m) \<Longrightarrow> AList.update k v m = m @ [(k, v)]"
  by (induction m) auto

section \<open>Folds\<close>

lemma fold_invariant:
  assumes "\<And>x a. x \<in> set xs \<Longrightarrow> P a \<Longrightarrow> P (f x a)" and "P a"
  shows "P (fold f xs a)"
  using assms by (induction xs arbitrary: a) auto


section \<open>Joining strings\<close>

text \<open>\<^verbatim>\<open>strings.Join\<close> with a separator.\<close>

fun join_with :: "string \<Rightarrow> string list \<Rightarrow> string" where
  "join_with sep [] = []"
| "join_with sep [w] = w"
| "join_with sep (w # ws) = w @ sep @ join_with sep ws"

text \<open>Renaming the keys of an association list.\<close>

lemma map_of_map_key:
  assumes "inj_on f (insert k (set (keys m)))"
  shows "map_of (map (\<lambda>(k, v). (f k, v)) m) (f k) = map_of m k"
  using assms by (induction m) (auto simp: inj_on_def)

lemma map_of_map_key_None:
  assumes "y \<notin> f ` set (keys m)"
  shows "map_of (map (\<lambda>(k, v). (f k, v)) m) y = None"
  using assms by (induction m) auto

end
