(* ===== verification/GoPath.thy ===== *)
theory GoPath
  imports Prelude
begin

text \<open>
  The parts of Go's \<^verbatim>\<open>strings\<close> and \<^verbatim>\<open>path\<close> packages the program calls, as executable functions on
  byte strings, and the algebra of canonical absolute paths that every component above relies on:
  cleaning yields a list of proper path elements, and the canonical string and the element list
  determine each other.
\<close>

section \<open>Package strings\<close>

text \<open>\<^verbatim>\<open>strings.Split(s, "/")\<close>: never empty, one more element than there are slashes.\<close>

fun strings_Split :: "string \<Rightarrow> string list" where
  "strings_Split [] = [[]]"
| "strings_Split (c # cs) =
     (if c = CHR ''/'' then [] # strings_Split cs
      else (case strings_Split cs of [] \<Rightarrow> [[c]] | w # ws \<Rightarrow> (c # w) # ws))"

text \<open>\<^verbatim>\<open>strings.Join(elems, "/")\<close>.\<close>

fun strings_Join :: "string list \<Rightarrow> string" where
  "strings_Join [] = []"
| "strings_Join [w] = w"
| "strings_Join (w # ws) = w @ CHR ''/'' # strings_Join ws"

definition strings_HasPrefix :: "string \<Rightarrow> string \<Rightarrow> bool" where
  "strings_HasPrefix s p = (take (length p) s = p)"

definition strings_TrimPrefix :: "string \<Rightarrow> string \<Rightarrow> string" where
  "strings_TrimPrefix s p = (if strings_HasPrefix s p then drop (length p) s else s)"

text \<open>The UTF-8 encodings of the runes for which \<^verbatim>\<open>unicode.IsSpace\<close> holds.\<close>

definition space_runes :: "string list" where
  "space_runes =
     map (\<lambda>n. [char_of (n::nat)]) [9, 10, 11, 12, 13, 32]
     @ map (map char_of) [[194, 133::nat], [194, 160], [225, 154, 128], [226, 128, 168],
         [226, 128, 169], [226, 128, 175], [226, 129, 159], [227, 128, 128]]
     @ map (\<lambda>n. [char_of (226::nat), char_of (128::nat), char_of n]) [128..<139]"

text \<open>Left trimming drops at least one byte per round, so the length of the string is enough fuel.\<close>

fun trim_left_n :: "string list \<Rightarrow> nat \<Rightarrow> string \<Rightarrow> string" where
  "trim_left_n rs 0 s = s"
| "trim_left_n rs (Suc n) s =
     (case filter (strings_HasPrefix s) rs of
        [] \<Rightarrow> s | r # _ \<Rightarrow> trim_left_n rs n (drop (length r) s))"

text \<open>\<^verbatim>\<open>strings.TrimSpace(s)\<close>: the runes are trimmed from both ends.\<close>

definition strings_TrimSpace :: "string \<Rightarrow> string" where
  "strings_TrimSpace s =
     (let l = trim_left_n space_runes (length s) s
      in rev (trim_left_n (map rev space_runes) (length l) (rev l)))"

section \<open>Package path\<close>

text \<open>
  One element of a path met by \<^verbatim>\<open>path.Clean\<close>; the elements kept so far are a stack, last first.
  An element \<^verbatim>\<open>..\<close> removes the element before it, is dropped at the root of a rooted path, and is
  kept at the front of a relative one.
\<close>

definition clean_elem :: "bool \<Rightarrow> string \<Rightarrow> string list \<Rightarrow> string list" where
  "clean_elem rooted e st =
     (if e = '''' \<or> e = ''.'' then st
      else if e = ''..'' then
        (case st of
           [] \<Rightarrow> if rooted then [] else [''..'']
         | t # ts \<Rightarrow> if t = ''..'' then ''..'' # st else ts)
      else e # st)"

definition clean_elems :: "bool \<Rightarrow> string list \<Rightarrow> string list" where
  "clean_elems rooted es = rev (fold (clean_elem rooted) es [])"

definition path_Clean :: "string \<Rightarrow> string" where
  "path_Clean p =
     (if p = '''' then ''.''
      else
        let rooted = (hd p = CHR ''/'');
            es = clean_elems rooted (strings_Split p)
        in if rooted then CHR ''/'' # strings_Join es
           else if es = [] then ''.'' else strings_Join es)"

definition path_Join :: "string list \<Rightarrow> string" where
  "path_Join es =
     (case dropWhile (\<lambda>e. e = '''') es of
        [] \<Rightarrow> '''' | xs \<Rightarrow> path_Clean (strings_Join xs))"

text \<open>\<^verbatim>\<open>path.Split\<close> cuts after the last slash.\<close>

definition path_Split :: "string \<Rightarrow> string \<times> string" where
  "path_Split p =
     (let f = rev (takeWhile (\<lambda>c. c \<noteq> CHR ''/'') (rev p))
      in (take (length p - length f) p, f))"

section \<open>Path elements\<close>

text \<open>A path element (a node name): not empty and without a slash.\<close>

definition seg :: "string \<Rightarrow> bool" where
  "seg w \<longleftrightarrow> w \<noteq> '''' \<and> CHR ''/'' \<notin> set w"

text \<open>An element a cleaned absolute path may contain.\<close>

definition canon :: "string \<Rightarrow> bool" where
  "canon w \<longleftrightarrow> seg w \<and> w \<noteq> ''.'' \<and> w \<noteq> ''..''"

text \<open>The canonical string of a list of elements.\<close>

definition abs_path :: "string list \<Rightarrow> string" where
  "abs_path es = CHR ''/'' # strings_Join es"

text \<open>The elements of a path string read as an absolute path.\<close>

definition path_elems :: "string \<Rightarrow> string list" where
  "path_elems p = clean_elems True (strings_Split p)"

text \<open>The non-empty elements of a string, as the loops over \<^verbatim>\<open>strings.Split\<close> visit them.\<close>

definition segs :: "string \<Rightarrow> string list" where
  "segs p = filter (\<lambda>w. w \<noteq> '''') (strings_Split p)"

subsection \<open>Splitting and joining\<close>

lemma strings_Split_nonempty [simp]: "strings_Split s \<noteq> []"
  by (induction s) (auto split: list.splits)

lemma strings_Split_no_slash: "w \<in> set (strings_Split s) \<Longrightarrow> CHR ''/'' \<notin> set w"
proof (induction s arbitrary: w)
  case (Cons c cs)
  then show ?case by (cases "strings_Split cs") (auto split: if_splits)
qed simp

lemma strings_Split_single: "CHR ''/'' \<notin> set s \<Longrightarrow> strings_Split s = [s]"
  by (induction s) auto

lemma strings_Split_append_slash:
  "strings_Split (a @ CHR ''/'' # b) = strings_Split a @ strings_Split b"
proof (induction a)
  case (Cons c cs)
  then show ?case by (cases "strings_Split cs") auto
qed simp

lemma strings_Join_Cons: "ws \<noteq> [] \<Longrightarrow> strings_Join (w # ws) = w @ CHR ''/'' # strings_Join ws"
  by (cases ws) auto

lemma strings_Join_Split: "strings_Join (strings_Split s) = s"
proof (induction s)
  case (Cons c cs)
  obtain w ws where "strings_Split cs = w # ws"
    by (cases "strings_Split cs") auto
  with Cons show ?case by (cases ws) auto
qed simp

lemma strings_Split_Join:
  assumes "es \<noteq> []" and "\<And>w. w \<in> set es \<Longrightarrow> CHR ''/'' \<notin> set w"
  shows "strings_Split (strings_Join es) = es"
  using assms
proof (induction es rule: strings_Join.induct)
  case (3 w v vs)
  then have "strings_Split w = [w]" by (simp add: strings_Split_single)
  with "3" show ?case by (simp add: strings_Split_append_slash)
qed (auto simp: strings_Split_single)

lemma strings_Join_append:
  "xs \<noteq> [] \<Longrightarrow> ys \<noteq> [] \<Longrightarrow> strings_Join (xs @ ys) = strings_Join xs @ CHR ''/'' # strings_Join ys"
proof (induction xs rule: strings_Join.induct)
  case (2 w)
  then show ?case by (cases ys) auto
next
  case (3 w v vs)
  then show ?case by (simp add: strings_Join_Cons)
qed simp

lemma segD: "seg w \<Longrightarrow> w \<noteq> '''' \<and> CHR ''/'' \<notin> set w"
  by (simp add: seg_def)

lemma canon_seg [intro, simp]: "canon w \<Longrightarrow> seg w"
  by (simp add: canon_def)

lemma segs_seg: "w \<in> set (segs p) \<Longrightarrow> seg w"
  by (auto simp: segs_def seg_def dest: strings_Split_no_slash)

lemma segs_append_slash: "segs (a @ CHR ''/'' # b) = segs a @ segs b"
  by (simp add: segs_def strings_Split_append_slash)

lemma segs_Nil [simp]: "segs [] = []"
  by (simp add: segs_def)

lemma segs_slash [simp]: "segs (CHR ''/'' # b) = segs b"
  using segs_append_slash [of "[]" b] by simp

lemma segs_Join:
  assumes "\<And>w. w \<in> set es \<Longrightarrow> seg w"
  shows "segs (strings_Join es) = es"
proof (cases "es = []")
  case False
  have "strings_Split (strings_Join es) = es"
    using assms by (intro strings_Split_Join [OF False]) (auto simp: seg_def)
  moreover have "filter (\<lambda>w. w \<noteq> '''') es = es"
    using assms by (auto simp: seg_def filter_id_conv)
  ultimately show ?thesis by (simp add: segs_def)
qed simp

lemma segs_single: "seg w \<Longrightarrow> segs w = [w]"
  using segs_Join [of "[w]"] by simp

subsection \<open>Cleaning\<close>

lemma clean_elem_canon:
  assumes "\<forall>w\<in>set st. canon w" and "CHR ''/'' \<notin> set e"
  shows "\<forall>w\<in>set (clean_elem True e st). canon w"
proof (cases st)
  case Nil
  with assms show ?thesis by (auto simp: clean_elem_def canon_def seg_def)
next
  case (Cons t ts)
  with assms show ?thesis by (auto simp: clean_elem_def canon_def seg_def)
qed

lemma clean_elems_canon:
  assumes "\<forall>e\<in>set es. CHR ''/'' \<notin> set e"
  shows "\<forall>w\<in>set (clean_elems True es). canon w"
proof -
  have "\<forall>w\<in>set (fold (clean_elem True) es []). canon w"
    by (rule fold_invariant [where P = "\<lambda>st. \<forall>w\<in>set st. canon w"])
      (use assms clean_elem_canon in auto)
  then show ?thesis by (simp add: clean_elems_def)
qed

lemma path_elems_canon: "w \<in> set (path_elems p) \<Longrightarrow> canon w"
  using clean_elems_canon [of "strings_Split p"] strings_Split_no_slash
  by (auto simp: path_elems_def)

lemma path_elems_all_canon [simp]: "\<forall>w\<in>set (path_elems p). canon w"
  by (blast intro: path_elems_canon)

lemma clean_elem_canon_push: "canon e \<Longrightarrow> clean_elem r e st = e # st"
  by (auto simp: clean_elem_def canon_def seg_def)

lemma fold_clean_canon: "\<forall>e\<in>set es. canon e \<Longrightarrow> fold (clean_elem r) es st = rev es @ st"
  by (induction es arbitrary: st) (auto simp: clean_elem_canon_push)

lemma clean_elem_empty [simp]: "clean_elem r [] st = st"
  by (simp add: clean_elem_def)

lemma clean_elems_id: "\<forall>e\<in>set es. canon e \<Longrightarrow> clean_elems r es = es"
  by (simp add: clean_elems_def fold_clean_canon)

lemma path_elems_slash [simp]: "path_elems (CHR ''/'' # p) = path_elems p"
  by (simp add: path_elems_def clean_elems_def)

lemma path_elems_Nil [simp]: "path_elems [] = []"
  by (simp add: path_elems_def clean_elems_def)

lemma path_elems_Join:
  assumes "\<forall>e\<in>set es. canon e"
  shows "path_elems (strings_Join es) = es"
proof (cases "es = []")
  case False
  then have "strings_Split (strings_Join es) = es"
    using assms by (intro strings_Split_Join) (auto simp: canon_def seg_def)
  with assms show ?thesis by (simp add: path_elems_def clean_elems_id)
qed simp

lemma path_elems_abs_path [simp]: "\<forall>e\<in>set es. canon e \<Longrightarrow> path_elems (abs_path es) = es"
  by (simp add: abs_path_def path_elems_Join)

lemma path_elems_append_slash:
  "path_elems (a @ CHR ''/'' # b) =
     rev (fold (clean_elem True) (strings_Split b) (rev (path_elems a)))"
  by (simp add: path_elems_def clean_elems_def strings_Split_append_slash)

text \<open>Appending a string of canonical elements appends the elements.\<close>

lemma path_elems_append_canon:
  assumes "\<forall>e\<in>set es. canon e"
  shows "path_elems (a @ CHR ''/'' # strings_Join es) = path_elems a @ es"
proof (cases "es = []")
  case False
  then have "strings_Split (strings_Join es) = es"
    using assms by (intro strings_Split_Join) (auto simp: canon_def seg_def)
  with assms show ?thesis by (simp add: path_elems_append_slash fold_clean_canon)
qed (simp add: path_elems_append_slash)

lemma path_Clean_rooted: "path_Clean (CHR ''/'' # p) = abs_path (path_elems p)"
  by (simp add: path_Clean_def abs_path_def path_elems_def clean_elems_def Let_def)

lemma abs_path_inj: "\<forall>e\<in>set es. canon e \<Longrightarrow> \<forall>e\<in>set es'. canon e \<Longrightarrow>
    abs_path es = abs_path es' \<longleftrightarrow> es = es'"
  by (metis path_elems_abs_path)

lemma abs_path_Nil [simp]: "abs_path [] = ''/''"
  by (simp add: abs_path_def)

lemma abs_path_not_Nil [simp]: "abs_path es \<noteq> []"
  by (simp add: abs_path_def)

lemma abs_path_eq_root: "\<forall>e\<in>set es. canon e \<Longrightarrow> abs_path es = ''/'' \<longleftrightarrow> es = []"
  using abs_path_inj [of es "[]"] by simp

lemma segs_abs_path: "\<forall>e\<in>set es. seg e \<Longrightarrow> segs (abs_path es) = es"
  by (simp add: abs_path_def segs_Join)

text \<open>The prefix \<^verbatim>\<open>path.Join("/", p)\<close> of most operations: the canonical absolute path of \<open>p\<close>.\<close>

lemma path_Join_root [path_simps]: "path_Join [''/'', p] = abs_path (path_elems p)"
  by (simp add: path_Join_def path_Clean_rooted)

lemma path_Clean_abs_path [path_simps]:
  "\<forall>e\<in>set es. canon e \<Longrightarrow> path_Clean (abs_path es) = abs_path es"
  by (simp add: abs_path_def path_Clean_rooted path_elems_Join)

lemma path_Join_abs:
  "path_Join [abs_path es, p] = abs_path (path_elems (strings_Join es @ CHR ''/'' # p))"
  by (simp add: path_Join_def abs_path_def path_Clean_rooted)

text \<open>Joining canonical elements to an absolute canonical path appends them.\<close>

lemma path_Join_abs_canon [path_simps]:
  assumes "\<forall>e\<in>set es. canon e" and "\<forall>e\<in>set fs. canon e"
  shows "path_Join [abs_path es, strings_Join fs] = abs_path (es @ fs)"
  using assms by (simp add: path_Join_abs path_elems_append_canon path_elems_Join)

lemma path_Split_append:
  assumes "CHR ''/'' \<notin> set f"
  shows "path_Split (a @ CHR ''/'' # f) = (a @ ''/'', f)"
proof -
  have "takeWhile (\<lambda>c. c \<noteq> CHR ''/'') (rev f @ CHR ''/'' # rev a) = rev f"
    using assms by (subst takeWhile_append2) auto
  then show ?thesis by (simp add: path_Split_def Let_def)
qed

lemma path_Split_no_slash: "CHR ''/'' \<notin> set f \<Longrightarrow> path_Split f = ('''', f)"
proof -
  assume "CHR ''/'' \<notin> set f"
  then have "takeWhile (\<lambda>c. c \<noteq> CHR ''/'') (rev f) = rev f"
    by (auto simp: takeWhile_eq_all_conv)
  then show ?thesis by (simp add: path_Split_def Let_def del: takeWhile_eq_all_conv)
qed

lemma path_Split_concat: "fst (path_Split p) @ snd (path_Split p) = p"
proof -
  define f where "f = rev (takeWhile (\<lambda>c. c \<noteq> CHR ''/'') (rev p))"
  have "p = rev (dropWhile (\<lambda>c. c \<noteq> CHR ''/'') (rev p)) @ f"
    unfolding f_def by (metis rev_append rev_rev_ident takeWhile_dropWhile_id)
  then have "drop (length p - length f) p = f"
    by (metis append_eq_conv_conj diff_add_inverse2 length_append)
  then show ?thesis
    unfolding path_Split_def Let_def f_def [symmetric] by (metis append_take_drop_id fst_conv snd_conv)
qed

text \<open>Splitting a canonical path gives the directory of all but the last element, and the last.\<close>

lemma path_Split_abs_path:
  assumes "seg n"
  shows "path_Split (abs_path (ds @ [n])) = (if ds = [] then ''/'' else abs_path ds @ ''/'', n)"
proof (cases "ds = []")
  case True
  then show ?thesis
    using assms path_Split_append [of n "[]"] by (simp add: abs_path_def seg_def)
next
  case False
  then have "abs_path (ds @ [n]) = abs_path ds @ CHR ''/'' # n"
    by (simp add: abs_path_def strings_Join_append)
  with False show ?thesis
    using assms path_Split_append [of n "abs_path ds"] by (simp add: seg_def)
qed

lemma segs_Split_dir:
  assumes "\<forall>e\<in>set ds. seg e" and "seg n"
  shows "segs (fst (path_Split (abs_path (ds @ [n])))) = ds"
  using assms segs_append_slash [of "abs_path ds" "[]"]
  by (simp add: path_Split_abs_path segs_abs_path)


lemma fold_clean_skip: "fold (clean_elem r) es st = fold (clean_elem r) (filter (\<lambda>w. w \<noteq> '''') es) st"
  by (induction es arbitrary: st) auto

lemma path_elems_canon_segs: "\<forall>e\<in>set (segs p). canon e \<Longrightarrow> path_elems p = segs p"
  using fold_clean_skip [of True "strings_Split p" "[]"] clean_elems_id [of "segs p" True]
  by (simp add: path_elems_def clean_elems_def segs_def)


text \<open>Joining canonical elements to any rooted string, and joining canonical elements alone.\<close>

lemma path_Join_rooted:
  assumes "\<forall>e\<in>set fs. canon e"
  shows "path_Join [CHR ''/'' # l, strings_Join fs] = abs_path (path_elems l @ fs)"
  using assms by (simp add: path_Join_def path_Clean_rooted path_elems_append_canon)

lemma path_Join_canon:
  assumes "\<forall>e\<in>set es. canon e"
  shows "path_Join es = strings_Join es"
proof (cases es)
  case (Cons w ws)
  have "canon w" using assms Cons by simp
  then have w: "w \<noteq> ''''" "hd w \<noteq> CHR ''/''" by (cases w; auto simp: canon_def seg_def)+
  have "strings_Join es = w @ (if ws = [] then '''' else CHR ''/'' # strings_Join ws)"
    using Cons by (cases ws) simp_all
  then have j: "strings_Join es \<noteq> ''''" "hd (strings_Join es) \<noteq> CHR ''/''" using w by auto
  have "strings_Split (strings_Join es) = es"
    using assms Cons by (intro strings_Split_Join) (auto simp: canon_def seg_def)
  then have "clean_elems False (strings_Split (strings_Join es)) = es"
    using clean_elems_id [OF assms] by simp
  then show ?thesis using j w(1) Cons by (simp add: path_Join_def path_Clean_def Let_def)
qed (simp add: path_Join_def)

lemma strings_Split_abs_path:
  assumes "\<forall>e\<in>set es. canon e" and "es \<noteq> []"
  shows "strings_Split (abs_path es) = [] # es"
  using strings_Split_append_slash [of "[]" "strings_Join es"] strings_Split_Join [of es] assms
  by (auto simp: abs_path_def canon_def seg_def)

end
