(* ===== verification/Watcher.thy ===== *)
theory Watcher
  imports GoPath
begin

text \<open>
  \<^verbatim>\<open>store/watcher.go\<close>: events, watchers and their buffered channels.  A channel is the list of buffered
  events with its capacity and whether it has been closed.  A watcher is an entry of a table; the
  watchers of a node are positions in that table, so that the node tree and the clients that hold
  a watcher share it.
\<close>

section \<open>Panics\<close>

text \<open>A Go panic, with its message; an operation that may panic returns \<open>panic + 'a\<close>.\<close>

datatype panic = Panic string

section \<open>Events\<close>

text \<open>The two actions are the Go constants \<^verbatim>\<open>store.Update\<close> and \<^verbatim>\<open>store.Delete\<close>.\<close>

definition Update :: string where
  "Update = ''UPDATE''"

definition Delete :: string where
  "Delete = ''DELETE''"

lemma Update_neq_Delete [simp]: "Update \<noteq> Delete" "Delete \<noteq> Update"
  by (simp_all add: Update_def Delete_def)

record event =
  Action :: string
  Path :: string
  EvValue :: string

definition newEvent :: "string \<Rightarrow> string \<Rightarrow> string \<Rightarrow> event" where
  "newEvent action p value = \<lparr>Action = action, Path = p, EvValue = value\<rparr>"

text \<open>\<^verbatim>\<open>Event.String\<close>: \<^verbatim>\<open>fmt.Sprintf("%s:%s|%s", e.Path, e.Action, e.Value)\<close>.\<close>

definition event_String :: "event \<Rightarrow> string" where
  "event_String e = Path e @ '':'' @ Action e @ ''|'' @ EvValue e"

section \<open>Watchers\<close>

record watcher =
  eventChan :: "event list"
  bufLen :: nat
  closed :: bool
  removed :: bool
  wnode :: "string list"

definition newWatcher :: "string list \<Rightarrow> nat \<Rightarrow> watcher" where
  "newWatcher n len =
     \<lparr>eventChan = [], bufLen = len, closed = False, removed = False, wnode = n\<rparr>"

text \<open>
  The non-blocking send \<^verbatim>\<open>select { case w.EventChan() <- event: default: drop }\<close> of one event to one
  channel: the event is appended when the buffer has room and dropped otherwise.
\<close>

definition chan_send :: "event \<Rightarrow> watcher \<Rightarrow> watcher" where
  "chan_send e w =
     (if length (eventChan w) < bufLen w then w\<lparr>eventChan := eventChan w @ [e]\<rparr> else w)"

text \<open>A receive takes the oldest buffered event; \<open>None\<close> when there is none.\<close>

definition chan_recv :: "watcher \<Rightarrow> (event \<times> watcher) option" where
  "chan_recv w =
     (case eventChan w of [] \<Rightarrow> None | e # es \<Rightarrow> Some (e, w\<lparr>eventChan := es\<rparr>))"

lemma chan_send_fields [simp]:
  "bufLen (chan_send e w) = bufLen w" "closed (chan_send e w) = closed w"
  "removed (chan_send e w) = removed w" "wnode (chan_send e w) = wnode w"
  by (simp_all add: chan_send_def)

lemma newWatcher_fields [simp]:
  "eventChan (newWatcher n len) = []" "bufLen (newWatcher n len) = len"
  "\<not> closed (newWatcher n len)" "\<not> removed (newWatcher n len)" "wnode (newWatcher n len) = n"
  by (simp_all add: newWatcher_def)

text \<open>The buffer never exceeds its capacity.\<close>

definition chan_ok :: "watcher \<Rightarrow> bool" where
  "chan_ok w \<longleftrightarrow> length (eventChan w) \<le> bufLen w"

lemma chan_ok_new [simp]: "chan_ok (newWatcher n len)"
  by (simp add: chan_ok_def)

lemma chan_ok_send [simp]: "chan_ok w \<Longrightarrow> chan_ok (chan_send e w)"
  by (simp add: chan_ok_def chan_send_def)

lemma chan_ok_recv: "chan_ok w \<Longrightarrow> chan_recv w = Some (e, w') \<Longrightarrow> chan_ok w'"
  by (auto simp: chan_ok_def chan_recv_def split: list.splits)

end
