(* ===== verification/Values.thy ===== *)
theory Values
  imports GoPath
begin

text \<open>
  The dynamic values (\<^verbatim>\<open>interface{}\<close>) that travel through the program: what \<^verbatim>\<open>encoding/json\<close> decodes a
  request body to, what \<^verbatim>\<open>Store.Put\<close> accepts and what \<^verbatim>\<open>Store.Get\<close> returns.

  The program uses a \<^verbatim>\<open>float64\<close> only through two renderings, \<^verbatim>\<open>strconv.FormatFloat(f, 'f', -1, 64)\<close> and
  \<^verbatim>\<open>fmt.Sprintf("%v", f)\<close>; a float is represented by that pair of strings.  A Go integer is an
  unbounded \<open>int\<close> here: it is only printed.
\<close>

record float64 =
  fmt_f :: string
  fmt_v :: string

datatype goval =
    VNil
  | VBool bool
  | VInt int
  | VFloat float64
  | VStr string
  | VSlice "goval list"
  | VMap "(string \<times> goval) list"

text \<open>The type test \<^verbatim>\<open>m, isMap := v.(map[string]interface{})\<close>.\<close>

fun is_map :: "goval \<Rightarrow> bool" where
  "is_map (VMap m) = True"
| "is_map _ = False"

text \<open>The recurring test \<^verbatim>\<open>isMap && len(m) == 0\<close>.\<close>

fun is_empty_map :: "goval \<Rightarrow> bool" where
  "is_empty_map (VMap []) = True"
| "is_empty_map _ = False"

lemma is_empty_map_iff: "is_empty_map v \<longleftrightarrow> v = VMap []"
  by (cases v rule: is_empty_map.cases) auto

lemma is_empty_map_VMap [simp]: "is_empty_map (VMap m) \<longleftrightarrow> m = []"
  by (simp add: is_empty_map_iff)

text \<open>
  The string found by following the keys of a path through nested maps.
\<close>

fun val_leaf :: "string list \<Rightarrow> goval \<Rightarrow> string option" where
  "val_leaf [] (VStr s) = Some s"
| "val_leaf (k # ks) (VMap m) = (case map_of m k of None \<Rightarrow> None | Some v \<Rightarrow> val_leaf ks v)"
| "val_leaf _ _ = None"

lemma val_leaf_empty [simp]: "val_leaf p (VMap []) = None"
  by (cases p) simp_all

text \<open>Following the keys of a path, the value found there.\<close>

fun val_at :: "string list \<Rightarrow> goval \<Rightarrow> goval option" where
  "val_at [] v = Some v"
| "val_at (k # ks) (VMap m) = (case map_of m k of None \<Rightarrow> None | Some v \<Rightarrow> val_at ks v)"
| "val_at _ _ = None"

text \<open>The value depends on the order in which a map lists its entries only up to this relation.\<close>

definition same_leaves :: "goval \<Rightarrow> goval \<Rightarrow> bool" where
  "same_leaves v w \<longleftrightarrow> (\<forall>p. val_leaf p v = val_leaf p w)"

end
