(* ===== verification/Node.thy ===== *)
theory Node
  imports Watcher Values
begin

text \<open>
  \<^verbatim>\<open>store/node.go\<close>: the node tree.  A node carries its name, its text value, its children (\<open>None\<close> is the
  Go nil map of a leaf) and the positions of its watchers in the watcher table.

  A Go pointer to a node of the tree is the list of names from the node up to the root, innermost
  first: the tail of a reference is the parent pointer, the empty reference is the root.  A method
  that mutates nodes takes the state (tree, watcher table) and returns the new one.
\<close>

section \<open>Data\<close>

datatype node = Node
  (nName: string)
  (nValue: string)
  (nChildren: "(string \<times> node) list option")
  (nWatchers: "nat list")

type_synonym noderef = "string list"

text \<open>
  The state a store's nodes share.  \<open>sendClosed\<close> records that an event was sent on a closed channel,
  where the Go runtime panics.
\<close>

record nstate =
  tree :: node
  wtab :: "watcher list"
  sendClosed :: bool

text \<open>Following names downwards, and changing the node found there.\<close>

fun lookup_path :: "string list \<Rightarrow> node \<Rightarrow> node option" where
  "lookup_path [] n = Some n"
| "lookup_path (x # xs) n =
     (case nChildren n of
        None \<Rightarrow> None
      | Some cs \<Rightarrow> (case map_of cs x of None \<Rightarrow> None | Some c \<Rightarrow> lookup_path xs c))"

fun update_path :: "string list \<Rightarrow> (node \<Rightarrow> node) \<Rightarrow> node \<Rightarrow> node" where
  "update_path [] f n = f n"
| "update_path (x # xs) f n =
     (case nChildren n of
        None \<Rightarrow> n
      | Some cs \<Rightarrow>
          (case map_of cs x of
             None \<Rightarrow> n
           | Some c \<Rightarrow>
               Node (nName n) (nValue n) (Some (AList.update x (update_path xs f c) cs)) (nWatchers n)))"

definition deref :: "noderef \<Rightarrow> nstate \<Rightarrow> node option" where
  "deref r st = lookup_path (rev r) (tree st)"

definition modify :: "noderef \<Rightarrow> (node \<Rightarrow> node) \<Rightarrow> nstate \<Rightarrow> nstate" where
  "modify r f st = st\<lparr>tree := update_path (rev r) f (tree st)\<rparr>"

text \<open>Assignments to the fields of a node.\<close>

definition set_Value :: "string \<Rightarrow> node \<Rightarrow> node" where
  "set_Value v n = Node (nName n) v (nChildren n) (nWatchers n)"

definition set_Children :: "(string \<times> node) list option \<Rightarrow> node \<Rightarrow> node" where
  "set_Children cs n = Node (nName n) (nValue n) cs (nWatchers n)"

definition set_Watchers :: "nat list \<Rightarrow> node \<Rightarrow> node" where
  "set_Watchers ws n = Node (nName n) (nValue n) (nChildren n) ws"

section \<open>Methods that only read\<close>

definition IsDir :: "node \<Rightarrow> bool" where
  "IsDir n \<longleftrightarrow> nChildren n \<noteq> None"

definition IsRoot :: "noderef \<Rightarrow> bool" where
  "IsRoot r \<longleftrightarrow> r = []"

definition ChildrenCount :: "node \<Rightarrow> nat" where
  "ChildrenCount n = (case nChildren n of None \<Rightarrow> 0 | Some cs \<Rightarrow> length cs)"

definition HasWatcher :: "node \<Rightarrow> bool" where
  "HasWatcher n \<longleftrightarrow> nWatchers n \<noteq> []"

definition node_Read :: "node \<Rightarrow> string" where
  "node_Read n = nValue n"

definition node_List :: "node \<Rightarrow> node list" where
  "node_List n = (case nChildren n of None \<Rightarrow> [] | Some cs \<Rightarrow> map snd cs)"

definition node_GetChild :: "node \<Rightarrow> string \<Rightarrow> node option" where
  "node_GetChild n name = (case nChildren n of None \<Rightarrow> None | Some cs \<Rightarrow> map_of cs name)"

fun node_Path :: "noderef \<Rightarrow> string \<Rightarrow> string" where
  "node_Path [] rootName = rootName"
| "node_Path (x # q) rootName = path_Join [node_Path q rootName, x]"

fun RelativePath :: "noderef \<Rightarrow> noderef \<Rightarrow> string" where
  "RelativePath [] e = ''/''"
| "RelativePath (x # q) e =
     (if x # q = e then ''/'' else path_Join [RelativePath q e, x])"

fun GetValue :: "node \<Rightarrow> goval" where
  "GetValue (Node nm v cs ws) =
     (case cs of
        None \<Rightarrow> VStr v
      | Some l \<Rightarrow>
          VMap (filter (\<lambda>kv. \<not> is_empty_map (snd kv)) (map (\<lambda>(k, c). (k, GetValue c)) l)))"

section \<open>Notification\<close>

text \<open>Sending one event to the watcher at a position of the table.\<close>

definition send :: "event \<Rightarrow> nat \<Rightarrow> nstate \<Rightarrow> nstate" where
  "send e i st =
     (if i < length (wtab st)
      then (if closed (wtab st ! i) then st\<lparr>sendClosed := True\<rparr>
            else st\<lparr>wtab := (wtab st)[i := chan_send e (wtab st ! i)]\<rparr>)
      else st)"

text \<open>
  \<^verbatim>\<open>internalNotify\<close> delivers the event to the watchers of the node \<open>r\<close>, then of its parent, up to
  the root.  The event node is given by its reference and its value: it may already be detached.
\<close>

fun internalNotify :: "string \<Rightarrow> noderef \<Rightarrow> string \<Rightarrow> noderef \<Rightarrow> nstate \<Rightarrow> nstate" where
  "internalNotify action er ev r st =
     (let st' =
        (case deref r st of
           None \<Rightarrow> st
         | Some n \<Rightarrow>
             if HasWatcher n
             then fold (send (newEvent action (RelativePath er r) ev)) (nWatchers n) st
             else st)
      in case r of [] \<Rightarrow> st' | x # q \<Rightarrow> internalNotify action er ev q st')"

definition Notify :: "string \<Rightarrow> noderef \<Rightarrow> nstate \<Rightarrow> nstate" where
  "Notify action r st =
     (case deref r st of
        None \<Rightarrow> internalNotify action r '''' r st
      | Some n \<Rightarrow> internalNotify action r (nValue n) r st)"

section \<open>Methods that change nodes\<close>

definition AsDir :: "noderef \<Rightarrow> nstate \<Rightarrow> nstate" where
  "AsDir r st =
     Notify Delete r
       (modify r (\<lambda>n. if IsDir n then n else set_Children (Some []) n) st)"

definition AsLeaf :: "noderef \<Rightarrow> nstate \<Rightarrow> nstate" where
  "AsLeaf r st =
     Notify Update r
       (modify r (\<lambda>n. if IsDir n then set_Children None n else n) st)"

definition node_Write :: "noderef \<Rightarrow> string \<Rightarrow> nstate \<Rightarrow> nstate" where
  "node_Write r value st =
     (if IsRoot r then st
      else case deref r st of
        None \<Rightarrow> st
      | Some n \<Rightarrow>
          let st' = modify r (set_Value value) st
          in if IsDir n
             then (if ChildrenCount n = 0 then AsLeaf r st' else st')
             else (if nValue n \<noteq> value then Notify Update r st' else st'))"

definition node_Add :: "noderef \<Rightarrow> node \<Rightarrow> nstate \<Rightarrow> nstate" where
  "node_Add r child st =
     (let st' = (case deref r st of
                   Some n \<Rightarrow> if IsDir n then st else AsDir r st
                 | None \<Rightarrow> st)
      in modify r
           (\<lambda>n. set_Children
                  (map_option (AList.update (nName child) child) (nChildren n)) n) st')"

definition newKV :: "string \<Rightarrow> string \<Rightarrow> noderef \<Rightarrow> nstate \<Rightarrow> panic + noderef \<times> nstate" where
  "newKV nodeName value parent st =
     (if nodeName = '''' then Inl (Panic ''nodeName can not be emtpy.'')
      else Inr (nodeName # parent,
             Notify Update (nodeName # parent)
               (node_Add parent (Node nodeName value None []) st)))"

definition newDir :: "string \<Rightarrow> noderef \<Rightarrow> nstate \<Rightarrow> panic + noderef \<times> nstate" where
  "newDir nodeName parent st =
     (if nodeName = '''' then Inl (Panic ''nodeName can not be emtpy.'')
      else Inr (nodeName # parent, node_Add parent (Node nodeName '''' (Some []) []) st))"

text \<open>\<^verbatim>\<open>delete(n.parent.Children, n.Name)\<close>.\<close>

definition detach :: "noderef \<Rightarrow> nstate \<Rightarrow> nstate" where
  "detach r st =
     (case r of
        [] \<Rightarrow> st
      | x # q \<Rightarrow>
          modify q (\<lambda>n. set_Children (map_option (AList.delete x) (nChildren n)) n) st)"

text \<open>
  The end of \<^verbatim>\<open>Remove\<close> on a directory (after the loop over the children) and \<^verbatim>\<open>Clean\<close> call each other
  towards the root.  \<^verbatim>\<open>Clean\<close> calls \<^verbatim>\<open>Remove\<close> on a directory without children only, where the loop has
  nothing to visit, so the call is the assignment \<^verbatim>\<open>n.Value = ""\<close> followed by that end.
  The test \<^verbatim>\<open>n.parent.Children[n.Name] == n\<close> holds as long as the reference still leads to a node.
\<close>

fun remove_end :: "noderef \<Rightarrow> nstate \<Rightarrow> bool \<times> nstate"
  and node_Clean :: "noderef \<Rightarrow> nstate \<Rightarrow> bool \<times> nstate" where
  "remove_end [] st = (False, st)"
| "remove_end (x # q) st =
     (case deref (x # q) st of
        None \<Rightarrow> (False, st)
      | Some n \<Rightarrow>
          if ChildrenCount n = 0 \<and> \<not> HasWatcher n
          then (True, snd (node_Clean q (detach (x # q) st)))
          else (False, st))"
| "node_Clean r st =
     (case deref r st of
        None \<Rightarrow> (False, st)
      | Some n \<Rightarrow>
          if \<not> IsDir n then (False, st)
          else if ChildrenCount n = 0 then
            (if nValue n = '''' then
               (if \<not> HasWatcher n then remove_end r (modify r (set_Value '''') st)
                else (False, st))
             else (True, AsLeaf r st))
          else (False, st))"

text \<open>
  \<^verbatim>\<open>Remove\<close> on the node \<open>n\<close> at \<open>r\<close>.  The loop \<^verbatim>\<open>for _, node := range n.Children\<close> visits the children the
  directory has when the loop starts: a child is deleted from the map only by its own removal.
\<close>

fun node_Remove :: "node \<Rightarrow> noderef \<Rightarrow> nstate \<Rightarrow> bool \<times> nstate" where
  "node_Remove (Node nm v cs ws) r st =
     (case cs of
        None \<Rightarrow>
          if ws \<noteq> [] then (True, AsDir r (modify r (set_Value '''') st))
          else (case r of
                  [] \<Rightarrow> (False, st)
                | x # q \<Rightarrow>
                    if deref r st \<noteq> None
                    then (True, snd (node_Clean q (internalNotify Delete r v r (detach r st))))
                    else (False, st))
      | Some l \<Rightarrow>
          remove_end r
            (fold (\<lambda>(k, c) s. snd (node_Remove c (k # r) s)) l (modify r (set_Value '''') st)))"

text \<open>\<^verbatim>\<open>Watch\<close> appends a new watcher to the table and registers it at the node.\<close>

definition node_Watch :: "noderef \<Rightarrow> nat \<Rightarrow> nstate \<Rightarrow> nat \<times> nstate" where
  "node_Watch r len st =
     (let i = length (wtab st)
      in (i, modify r (\<lambda>n. set_Watchers (nWatchers n @ [i]) n)
               (st\<lparr>wtab := wtab st @ [newWatcher r len]\<rparr>)))"

end
