(* ===== verification/Node_Map.thy ===== *)
theory Node_Map
  imports Node
begin

text \<open>
  The node tree as a flat map.  \<open>flat n\<close> maps every path of the tree to the attributes of the node
  there (value, leaf or directory, watchers); two trees with the same flat map differ only in the
  order in which their child maps happen to be listed.  Every primitive mutation of the tree is an
  update of the flat map at one path, and the laws of this theory say so.  Also here: the
  well-formedness of trees and the path algebra shared by the components above.
\<close>

section \<open>Definitions\<close>

datatype attr = Attr (aval: string) (adir: bool) (awat: "nat list")

definition attr_of :: "node \<Rightarrow> attr" where
  "attr_of n = Attr (nValue n) (IsDir n) (nWatchers n)"

definition flat :: "node \<Rightarrow> string list \<Rightarrow> attr option" where
  "flat n p = map_option attr_of (lookup_path p n)"

definition kids :: "node \<Rightarrow> (string \<times> node) list" where
  "kids n = (case nChildren n of None \<Rightarrow> [] | Some l \<Rightarrow> l)"

text \<open>Well-formed: child maps have distinct keys, and a key is the name of its child.\<close>

fun node_ok :: "node \<Rightarrow> bool" where
  "node_ok (Node nm v cs ws) =
     (case cs of
        None \<Rightarrow> True
      | Some l \<Rightarrow> map_ok l \<and> (\<forall>kc\<in>set l. nName (snd kc) = fst kc \<and> seg (fst kc) \<and> node_ok (snd kc)))"

text \<open>A path is a directory entry without children.\<close>

definition childless :: "(string list \<Rightarrow> attr option) \<Rightarrow> string list \<Rightarrow> bool" where
  "childless D p \<longleftrightarrow> (\<forall>x. D (p @ [x]) = None)"

section \<open>Paths\<close>

text \<open>\<open>within p q\<close>: the path \<open>q\<close> is \<open>p\<close> or lies below it.\<close>

abbreviation within :: "string list \<Rightarrow> string list \<Rightarrow> bool" where
  "within p q \<equiv> prefix p q"

lemma within_snoc: "within (p @ [x]) q \<Longrightarrow> within p q"
  by (rule append_prefixD)

lemma apart_snoc: "x \<noteq> y \<Longrightarrow> within (p @ [x]) q \<Longrightarrow> \<not> within (p @ [y]) q"
  by (auto simp: prefix_def)

lemma not_within_snoc: "within (p @ [x]) q \<Longrightarrow> \<not> within q p"
  by (auto simp: prefix_def)

lemma within_cases:
  assumes "within p q"
  obtains (eq) "q = p" | (below) x where "within (p @ [x]) q"
proof -
  from assms obtain zs where "q = p @ zs" by (auto simp: prefix_def)
  then show thesis using eq below by (cases zs) (auto simp: prefix_def)
qed

section \<open>Lookup and update\<close>

lemma node_eta [simp]: "Node (nName n) (nValue n) (nChildren n) (nWatchers n) = n"
  by (cases n) simp

lemma set_Value_sel [simp]:
  "nName (set_Value v n) = nName n" "nValue (set_Value v n) = v"
  "nChildren (set_Value v n) = nChildren n" "nWatchers (set_Value v n) = nWatchers n"
  by (simp_all add: set_Value_def)

lemma set_Children_sel [simp]:
  "nName (set_Children c n) = nName n" "nValue (set_Children c n) = nValue n"
  "nChildren (set_Children c n) = c" "nWatchers (set_Children c n) = nWatchers n"
  by (simp_all add: set_Children_def)

lemma set_Watchers_sel [simp]:
  "nName (set_Watchers w n) = nName n" "nValue (set_Watchers w n) = nValue n"
  "nChildren (set_Watchers w n) = nChildren n" "nWatchers (set_Watchers w n) = w"
  by (simp_all add: set_Watchers_def)

lemma kids_set [simp]:
  "kids (set_Value v n) = kids n" "kids (set_Watchers w n) = kids n"
  "kids (set_Children (Some l) n) = l" "kids (set_Children None n) = []"
  by (simp_all add: kids_def)

lemma kids_leaf: "\<not> IsDir n \<Longrightarrow> kids n = []"
  by (simp add: IsDir_def kids_def)

lemma nChildren_kids: "IsDir n \<Longrightarrow> nChildren n = Some (kids n)"
  by (auto simp: IsDir_def kids_def)

lemma ChildrenCount_kids: "ChildrenCount n = length (kids n)"
  by (simp add: ChildrenCount_def kids_def split: option.splits)

lemma node_GetChild_kids: "node_GetChild n x = map_of (kids n) x"
  by (simp add: node_GetChild_def kids_def split: option.splits)

lemma lookup_path_Cons:
  "lookup_path (x # xs) n = Option.bind (map_of (kids n) x) (lookup_path xs)"
  by (simp add: kids_def Option.bind_def split: option.splits)

declare lookup_path.simps(2) [simp del]

lemma lookup_path_append:
  "lookup_path (p @ q) n = Option.bind (lookup_path p n) (lookup_path q)"
  by (induction p arbitrary: n) (auto simp: lookup_path_Cons split: bind_splits)

lemma lookup_path_snoc:
  "lookup_path (p @ [x]) n = Option.bind (lookup_path p n) (\<lambda>m. map_of (kids m) x)"
  by (cases "lookup_path p n") (auto simp: lookup_path_append lookup_path_Cons split: bind_splits)

lemma update_path_Cons_None: "map_of (kids n) x = None \<Longrightarrow> update_path (x # xs) f n = n"
  by (auto simp: kids_def split: option.splits)

lemma update_path_Cons_Some:
  "map_of (kids n) x = Some c \<Longrightarrow>
    update_path (x # xs) f n = set_Children (Some (AList.update x (update_path xs f c) (kids n))) n"
  by (auto simp: kids_def set_Children_def split: option.splits)

declare update_path.simps(2) [simp del]

lemma IsDir_kids: "map_of (kids n) x = Some c \<Longrightarrow> IsDir n"
  using kids_leaf [of n] by fastforce

lemma IsDir_set [simp]:
  "IsDir (set_Value v n) = IsDir n" "IsDir (set_Watchers w n) = IsDir n"
  "IsDir (set_Children c n) \<longleftrightarrow> c \<noteq> None"
  by (simp_all add: IsDir_def)

lemma update_path_sel [simp]:
  shows "nName (update_path (x # xs) f n) = nName n"
    and "nValue (update_path (x # xs) f n) = nValue n"
    and "IsDir (update_path (x # xs) f n) = IsDir n"
    and "nWatchers (update_path (x # xs) f n) = nWatchers n"
  by (cases "map_of (kids n) x",
      simp_all add: update_path_Cons_None update_path_Cons_Some IsDir_kids)+

lemma attr_of_update_path [simp]: "attr_of (update_path (x # xs) f n) = attr_of n"
  by (simp add: attr_of_def)

lemma update_path_missing: "lookup_path p n = None \<Longrightarrow> update_path p f n = n"
proof (induction p arbitrary: n)
  case (Cons x xs)
  show ?case
  proof (cases "map_of (kids n) x")
    case (Some c)
    with Cons have "update_path xs f c = c"
      by (simp add: lookup_path_Cons)
    moreover from Some have "nChildren n = Some (kids n)"
      by (auto simp: kids_def split: option.splits)
    moreover from Some have "AList.update x c (kids n) = kids n"
      by (induction "kids n" arbitrary: n) (auto simp: update_triv)
    ultimately show ?thesis
      using Some by (simp add: update_path_Cons_Some set_Children_def)
         (metis node_eta)
  qed (simp add: update_path_Cons_None)
qed simp

lemma lookup_update_above:
  "lookup_path p (update_path (p @ q) f n) = map_option (update_path q f) (lookup_path p n)"
proof (induction p arbitrary: n)
  case (Cons x xs)
  then show ?case
    by (cases "map_of (kids n) x")
      (auto simp: update_path_Cons_None update_path_Cons_Some lookup_path_Cons)
qed simp

lemma lookup_update_below:
  "lookup_path (p @ q) (update_path p f n) =
    Option.bind (lookup_path p n) (\<lambda>m. lookup_path q (f m))"
  using lookup_update_above [of p "[]" f n]
  by (cases "lookup_path p n") (simp_all add: lookup_path_append)

lemma lookup_update_same: "lookup_path p (update_path p f n) = map_option f (lookup_path p n)"
  using lookup_update_above [of p "[]" f n] by (cases "lookup_path p n") simp_all

lemma lookup_update_apart:
  assumes "\<not> within p q" and "\<not> within q p"
  shows "lookup_path q (update_path p f n) = lookup_path q n"
  using assms
proof (induction p arbitrary: q n)
  case (Cons x xs)
  from Cons.prems obtain y ys where q: "q = y # ys" by (cases q) auto
  show ?case
  proof (cases "map_of (kids n) x")
    case (Some c)
    then show ?thesis
      using Cons.IH [of ys c] Cons.prems q
      by (cases "y = x") (auto simp: update_path_Cons_Some lookup_path_Cons)
  qed (simp add: update_path_Cons_None)
qed simp

section \<open>The flat map under updates\<close>

lemma flat_Some_iff: "flat n p = Some a \<longleftrightarrow> (\<exists>m. lookup_path p n = Some m \<and> a = attr_of m)"
  by (auto simp: flat_def)

lemma flat_None_iff: "flat n p = None \<longleftrightarrow> lookup_path p n = None"
  by (simp add: flat_def)

lemma flat_prefix_closed: "flat n (p @ q) \<noteq> None \<Longrightarrow> flat n p \<noteq> None"
  by (auto simp: flat_def lookup_path_append split: bind_splits)

lemma flat_within: "within p q \<Longrightarrow> flat n q \<noteq> None \<Longrightarrow> flat n p \<noteq> None"
  using flat_prefix_closed by (metis prefixE)

lemma flat_parent_dir:
  assumes "flat n (p @ [x]) \<noteq> None"
  shows "\<exists>v ws. flat n p = Some (Attr v True ws)"
proof -
  from assms obtain m where m: "lookup_path p n = Some m" and "map_of (kids m) x \<noteq> None"
    by (auto simp: flat_def lookup_path_snoc split: bind_splits)
  then have "IsDir m" using kids_leaf by force
  with m show ?thesis by (auto simp: flat_def attr_of_def)
qed

lemma flat_leaf_childless:
  assumes "flat n p = Some (Attr v False ws)"
  shows "childless (flat n) p"
proof -
  have "flat n (p @ [x]) = None" for x
    using assms flat_parent_dir [of n p x] by (cases "flat n (p @ [x])") auto
  then show ?thesis by (simp add: childless_def)
qed

lemma childless_below:
  assumes "childless (flat n) p" and "within p q" and "q \<noteq> p"
  shows "flat n q = None"
proof -
  from assms(2,3) obtain x zs where "q = (p @ [x]) @ zs"
    by (metis append.assoc append_Cons append_Nil2 append_self_conv2 list.exhaust prefixE)
  moreover from assms(1) have "flat n (p @ [x]) = None" by (simp add: childless_def)
  ultimately show ?thesis using flat_prefix_closed [of n "p @ [x]" zs] by fastforce
qed

lemma childless_kids:
  "lookup_path p n = Some m \<Longrightarrow> childless (flat n) p \<longleftrightarrow> kids m = []"
proof -
  assume m: "lookup_path p n = Some m"
  then have "childless (flat n) p \<longleftrightarrow> (\<forall>x. map_of (kids m) x = None)"
    by (simp add: childless_def flat_def lookup_path_snoc)
  then show ?thesis by (cases "kids m") (auto dest: spec)
qed

text \<open>Changing a node without changing what its children map leads to.\<close>

lemma flat_update_same_kids:
  assumes "\<And>m. lookup_path p n = Some m \<Longrightarrow> map_of (kids (f m)) = map_of (kids m)"
  shows "flat (update_path p f n) =
    (flat n)(p := map_option (\<lambda>m. attr_of (f m)) (lookup_path p n))"
proof
  fix q
  consider (eq) "q = p" | (below) x xs where "q = p @ x # xs" | (above) x xs where "p = q @ x # xs"
    | (apart) "\<not> within p q" "\<not> within q p"
    by (metis append_Nil2 list.exhaust prefixE)
  then show "flat (update_path p f n) q =
    ((flat n)(p := map_option (\<lambda>m. attr_of (f m)) (lookup_path p n))) q"
  proof cases
    case eq
    then show ?thesis by (simp add: flat_def lookup_update_same option.map_comp o_def)
  next
    case (below x xs)
    have "Option.bind (lookup_path p n) (\<lambda>m. lookup_path (x # xs) (f m)) = lookup_path q n"
      using assms below
      by (cases "lookup_path p n") (simp_all add: lookup_path_append lookup_path_Cons)
    then have "lookup_path q (update_path p f n) = lookup_path q n"
      by (simp only: below lookup_update_below)
    with below show ?thesis by (simp add: flat_def)
  next
    case (above x xs)
    then show ?thesis
      by (simp add: flat_def lookup_update_above option.map_comp o_def)
  next
    case apart
    then show ?thesis by (auto simp: flat_def lookup_update_apart)
  qed
qed

text \<open>Giving a directory a new child that has no children itself.\<close>

lemma flat_update_add:
  assumes "lookup_path p n = Some m" and "IsDir m" and "map_of (kids m) x = None"
    and "kids c = []"
  shows "flat (update_path p
      (\<lambda>m. set_Children (map_option (AList.update x c) (nChildren m)) m) n) =
    (flat n)(p @ [x] \<mapsto> attr_of c)" (is "flat ?n' = _")
proof
  fix q
  let ?f = "\<lambda>m. set_Children (map_option (AList.update x c) (nChildren m)) m"
  have km: "kids (?f m) = AList.update x c (kids m)"
    using assms(2) by (simp add: nChildren_kids)
  have am: "attr_of (?f m) = attr_of m"
    using assms(2) by (simp add: attr_of_def IsDir_def)
  consider (eq) "q = p" | (below) y ys where "q = p @ y # ys" | (above) y ys where "p = q @ y # ys"
    | (apart) "\<not> within p q" "\<not> within q p"
    by (metis append_Nil2 list.exhaust prefixE)
  then show "flat ?n' q = ((flat n)(p @ [x] \<mapsto> attr_of c)) q"
  proof cases
    case eq
    then show ?thesis using assms(1) am by (simp add: flat_def lookup_update_same)
  next
    case (below y ys)
    have l: "lookup_path q ?n' = lookup_path (y # ys) (?f m)"
      using below assms(1) by (simp add: lookup_update_below)
    show ?thesis
    proof (cases "y = x")
      case True
      then have "lookup_path q ?n' = lookup_path ys c"
        using l km by (simp add: lookup_path_Cons)
      moreover have "lookup_path q n = None"
        using below True assms(1,3) by (simp add: lookup_path_append lookup_path_Cons)
      ultimately show ?thesis
        using below True assms(4) by (cases ys) (simp_all add: flat_def lookup_path_Cons)
    next
      case False
      then have "lookup_path q ?n' = lookup_path (y # ys) m"
        using l km by (simp add: lookup_path_Cons)
      then show ?thesis
        using below False assms(1) by (simp add: flat_def lookup_path_append)
    qed
  next
    case (above y ys)
    then show ?thesis
      by (simp add: flat_def lookup_update_above option.map_comp o_def)
  next
    case apart
    then show ?thesis by (auto simp: flat_def lookup_update_apart prefix_def)
  qed
qed

text \<open>Deleting a child that has no children itself.\<close>

lemma flat_update_delete:
  assumes "childless (flat n) (p @ [x])"
  shows "flat (update_path p
      (\<lambda>m. set_Children (map_option (AList.delete x) (nChildren m)) m) n) =
    (flat n)(p @ [x] := None)" (is "flat ?n' = _")
proof
  fix q
  let ?f = "\<lambda>m. set_Children (map_option (AList.delete x) (nChildren m)) m"
  have km: "kids (?f m) = AList.delete x (kids m)" for m
    by (cases "nChildren m") (simp_all add: kids_def)
  have am: "attr_of (?f m) = attr_of m" for m
    by (simp add: attr_of_def IsDir_def)
  consider (eq) "q = p" | (below) y ys where "q = p @ y # ys" | (above) y ys where "p = q @ y # ys"
    | (apart) "\<not> within p q" "\<not> within q p"
    by (metis append_Nil2 list.exhaust prefixE)
  then show "flat ?n' q = ((flat n)(p @ [x] := None)) q"
  proof cases
    case eq
    then show ?thesis using am by (simp add: flat_def lookup_update_same option.map_comp o_def)
  next
    case (below y ys)
    have l: "lookup_path q ?n' = Option.bind (lookup_path p n) (\<lambda>m. lookup_path (y # ys) (?f m))"
      using below by (simp add: lookup_update_below)
    show ?thesis
    proof (cases "y = x")
      case True
      then have "lookup_path q ?n' = None"
        using l km by (simp add: lookup_path_Cons)
      moreover have "ys \<noteq> [] \<Longrightarrow> flat n q = None"
        using below True assms childless_below [of n "p @ [x]" q] by (simp add: prefix_def)
      ultimately show ?thesis using below True by (cases ys) (auto simp: flat_def)
    next
      case False
      then have "lookup_path q ?n' = lookup_path q n"
        unfolding l using km below by (cases "lookup_path p n") (simp_all add: lookup_path_Cons lookup_path_append)
      then show ?thesis using below False by (simp add: flat_def)
    qed
  next
    case (above y ys)
    then show ?thesis
      by (simp add: flat_def lookup_update_above option.map_comp o_def)
  next
    case apart
    then show ?thesis by (auto simp: flat_def lookup_update_apart prefix_def)
  qed
qed

section \<open>Well-formed trees\<close>

lemma node_ok_kids:
  "node_ok n \<longleftrightarrow> map_ok (kids n) \<and>
    (\<forall>kc\<in>set (kids n). nName (snd kc) = fst kc \<and> seg (fst kc) \<and> node_ok (snd kc))"
  by (cases n) (auto simp: kids_def split: option.splits)

declare node_ok.simps [simp del]

lemma node_ok_set [simp]:
  "node_ok (set_Value v n) = node_ok n" "node_ok (set_Watchers w n) = node_ok n"
  by (subst (1 2) node_ok_kids, simp)+

lemma node_ok_leaf: "kids n = [] \<Longrightarrow> node_ok n"
  by (subst node_ok_kids) simp

lemma node_ok_child:
  assumes "node_ok n" and "map_of (kids n) x = Some c"
  shows "node_ok c \<and> nName c = x \<and> seg x"
  using assms map_of_eq_Some_in_set [OF assms(2)] by (auto simp: node_ok_kids [of n])

lemma node_ok_lookup: "node_ok n \<Longrightarrow> lookup_path p n = Some m \<Longrightarrow> node_ok m"
  by (induction p arbitrary: n) (auto simp: lookup_path_Cons split: bind_splits dest: node_ok_child)

lemma node_ok_lookup_segs:
  "node_ok n \<Longrightarrow> lookup_path p n = Some m \<Longrightarrow> \<forall>w\<in>set p. seg w"
  by (induction p arbitrary: n) (auto simp: lookup_path_Cons split: bind_splits dest: node_ok_child)

lemma node_ok_put_child:
  assumes "node_ok n" and "node_ok c" and "nName c = x" and "seg x"
  shows "node_ok (set_Children (Some (AList.update x c (kids n))) n)"
  using assms set_update_subset [of x c "kids n"]
  by (auto simp: node_ok_kids [of n] node_ok_kids [of "set_Children _ n"])

lemma node_ok_update_path:
  assumes "node_ok n" and "\<And>m. node_ok m \<Longrightarrow> node_ok (f m)" and "\<And>m. nName (f m) = nName m"
  shows "node_ok (update_path p f n)"
  using assms(1)
proof (induction p arbitrary: n)
  case (Cons x xs)
  show ?case
  proof (cases "map_of (kids n) x")
    case (Some c)
    with Cons.prems have c: "node_ok c" "nName c = x" "seg x" by (auto dest: node_ok_child)
    have "nName (update_path xs f c) = x"
      using c(2) assms(3) by (cases xs) auto
    with Cons Some c show ?thesis
      by (simp add: update_path_Cons_Some node_ok_put_child)
  qed (use Cons in \<open>simp add: update_path_Cons_None\<close>)
qed (use assms(2) in simp)

end
