(* ===== verification/Node_Ops.thy ===== *)
theory Node_Ops
  imports Node_Map
begin

text \<open>
  What the mutating methods of \<^verbatim>\<open>store/node.go\<close> do to the flat map, and what they leave alone: the
  watchers registered at every path, the state of the channels, the well-formedness of the tree.
\<close>

section \<open>Definitions\<close>

abbreviation amap :: "nstate \<Rightarrow> string list \<Rightarrow> attr option" where
  "amap st \<equiv> flat (tree st)"

text \<open>The watchers registered at a path.\<close>

definition wat :: "nstate \<Rightarrow> string list \<Rightarrow> nat list" where
  "wat st p = (case amap st p of None \<Rightarrow> [] | Some a \<Rightarrow> awat a)"

text \<open>What a send never changes in the watcher table.\<close>

definition statics :: "nstate \<Rightarrow> (nat \<times> bool \<times> bool \<times> noderef) list" where
  "statics st = map (\<lambda>w. (bufLen w, closed w, removed w, wnode w)) (wtab st)"

text \<open>Every registered watcher is in the table, open, and knows the node it is registered at.\<close>

definition wsafe :: "nstate \<Rightarrow> bool" where
  "wsafe st \<longleftrightarrow>
     (\<forall>p. \<forall>i\<in>set (wat st p).
        i < length (wtab st) \<and> \<not> closed (wtab st ! i) \<and> wnode (wtab st ! i) = rev p)"

text \<open>The root is a directory and has no text value.\<close>

definition root_ok :: "nstate \<Rightarrow> bool" where
  "root_ok st \<longleftrightarrow> IsDir (tree st) \<and> nValue (tree st) = ''''"

definition chans_ok :: "nstate \<Rightarrow> bool" where
  "chans_ok st \<longleftrightarrow> (\<forall>w\<in>set (wtab st). chan_ok w)"

text \<open>
  A calm step changes no registration, opens and closes no channel, keeps the tree well-formed and
  never sends on a closed channel.
\<close>

definition calm :: "nstate \<Rightarrow> nstate \<Rightarrow> bool" where
  "calm st st' \<longleftrightarrow>
     statics st' = statics st \<and> wat st' = wat st \<and>
     (node_ok (tree st) \<longrightarrow> node_ok (tree st')) \<and>
     (root_ok st \<longrightarrow> root_ok st') \<and>
     (chans_ok st \<longrightarrow> chans_ok st') \<and>
     (wsafe st \<longrightarrow> sendClosed st' = sendClosed st)"

text \<open>What cleaning may do to a node: nothing, drop an empty directory nobody watches, or turn a
  directory that kept a text value back into a leaf.\<close>

definition clean_rel :: "attr option \<Rightarrow> attr option \<Rightarrow> bool" where
  "clean_rel a a' \<longleftrightarrow>
     a' = a \<or> (a = Some (Attr '''' True []) \<and> a' = None) \<or>
     (\<exists>v ws. v \<noteq> '''' \<and> a = Some (Attr v True ws) \<and> a' = Some (Attr v False ws))"

text \<open>What removing does to a node: it goes unless it is watched; what stays is a directory without
  a text value.\<close>

definition purge_rel :: "attr option \<Rightarrow> attr option \<Rightarrow> bool" where
  "purge_rel a a' \<longleftrightarrow>
     (a' = None \<and> (a = None \<or> (\<exists>v d. a = Some (Attr v d [])))) \<or>
     (\<exists>v d ws. a = Some (Attr v d ws) \<and> a' = Some (Attr '''' True ws))"

section \<open>Calm steps compose\<close>

lemma statics_length: "statics st' = statics st \<Longrightarrow> length (wtab st') = length (wtab st)"
  unfolding statics_def by (rule map_eq_imp_length_eq)

lemma statics_nth:
  assumes "statics st' = statics st" and "i < length (wtab st)"
  shows "closed (wtab st' ! i) = closed (wtab st ! i)" "wnode (wtab st' ! i) = wnode (wtab st ! i)"
    "removed (wtab st' ! i) = removed (wtab st ! i)" "bufLen (wtab st' ! i) = bufLen (wtab st ! i)"
proof -
  define f where "f = (\<lambda>w::watcher. (bufLen w, closed w, removed w, wnode w))"
  have "map f (wtab st') ! i = map f (wtab st) ! i"
    using assms(1) by (simp add: statics_def f_def)
  then have "f (wtab st' ! i) = f (wtab st ! i)"
    using assms(2) statics_length [OF assms(1)] by simp
  then show "closed (wtab st' ! i) = closed (wtab st ! i)"
    "wnode (wtab st' ! i) = wnode (wtab st ! i)"
    "removed (wtab st' ! i) = removed (wtab st ! i)" "bufLen (wtab st' ! i) = bufLen (wtab st ! i)"
    by (simp_all add: f_def)
qed

lemma wsafe_calm:
  assumes "statics st' = statics st" and "wat st' = wat st" and "wsafe st"
  shows "wsafe st'"
  unfolding wsafe_def
proof (intro allI ballI)
  fix p i
  assume "i \<in> set (wat st' p)"
  with assms(2,3) have "i < length (wtab st)" "\<not> closed (wtab st ! i)" "wnode (wtab st ! i) = rev p"
    by (simp_all add: wsafe_def)
  then show "i < length (wtab st') \<and> \<not> closed (wtab st' ! i) \<and> wnode (wtab st' ! i) = rev p"
    using statics_length [OF assms(1)] statics_nth [OF assms(1)] by simp
qed

lemma calm_refl [simp, intro]: "calm st st"
  by (simp add: calm_def)

lemma calm_trans: "calm s t \<Longrightarrow> calm t u \<Longrightarrow> calm s u"
  using wsafe_calm by (auto simp: calm_def)

lemma calm_fold:
  assumes "\<And>x st. x \<in> set xs \<Longrightarrow> calm st (f x st)"
  shows "calm st (fold f xs st)"
  using assms
  by (induction xs arbitrary: st) (auto intro: calm_trans)

lemma calm_wsafe: "calm st st' \<Longrightarrow> wsafe st \<Longrightarrow> wsafe st'"
  by (auto simp: calm_def intro: wsafe_calm)

section \<open>Notification leaves the tree alone\<close>

lemma send_tree [simp]: "tree (send e i st) = tree st"
  by (simp add: send_def)

lemma fold_send_tree [simp]: "tree (fold (send e) is st) = tree st"
  by (induction "is" arbitrary: st) auto

declare internalNotify.simps [simp del]

lemma internalNotify_tree [simp]: "tree (internalNotify act er ev r st) = tree st"
proof (induction r arbitrary: st)
  case Nil
  then show ?case by (subst internalNotify.simps) (simp split: option.splits)
next
  case (Cons x q)
  then show ?case by (subst internalNotify.simps) (simp add: Let_def split: option.splits)
qed

lemma Notify_tree [simp]: "tree (Notify act r st) = tree st"
  by (simp add: Notify_def split: option.splits)

lemma deref_tree: "tree st' = tree st \<Longrightarrow> deref r st' = deref r st"
  by (simp add: deref_def)

lemma statics_update:
  "i < length ws \<Longrightarrow> map f (ws[i := w]) = map f ws \<longleftrightarrow> f w = f (ws ! i)"
  by (metis list_update_id map_update nth_list_update_eq nth_map length_map)

lemma send_statics [simp]: "statics (send e i st) = statics st"
  by (simp add: send_def statics_def statics_update)

lemma fold_send_statics [simp]: "statics (fold (send e) is st) = statics st"
  by (induction "is" arbitrary: st) auto

lemma wat_tree: "tree st' = tree st \<Longrightarrow> wat st' = wat st"
  by (simp add: wat_def fun_eq_iff)

lemma send_chans_ok: "chans_ok st \<Longrightarrow> chans_ok (send e i st)"
  using set_update_subset_insert [of "wtab st" i "chan_send e (wtab st ! i)"]
  by (auto simp: chans_ok_def send_def)

lemma fold_send_chans_ok: "chans_ok st \<Longrightarrow> chans_ok (fold (send e) is st)"
  by (induction "is" arbitrary: st) (auto intro: send_chans_ok)

lemma fold_send_closed:
  assumes "\<forall>i\<in>set is. i < length (wtab st) \<and> \<not> closed (wtab st ! i)"
  shows "sendClosed (fold (send e) is st) = sendClosed st"
  using assms
proof (induction "is" arbitrary: st)
  case (Cons i "is")
  have "\<forall>j\<in>set is. j < length (wtab (send e i st)) \<and> \<not> closed (wtab (send e i st) ! j)"
    using Cons.prems statics_nth [OF send_statics [of e i st]]
      statics_length [OF send_statics [of e i st]] by auto
  then have "sendClosed (fold (send e) (i # is) st) = sendClosed (send e i st)"
    using Cons.IH by simp
  also have "\<dots> = sendClosed st" using Cons.prems by (simp add: send_def)
  finally show ?case .
qed simp

lemma calm_fold_send:
  assumes "deref r st = Some n"
  shows "calm st (fold (send e) (nWatchers n) st)"
proof -
  have "wat st (rev r) = nWatchers n"
    using assms by (simp add: wat_def flat_def deref_def attr_of_def)
  then have "wsafe st \<Longrightarrow> \<forall>i\<in>set (nWatchers n). i < length (wtab st) \<and> \<not> closed (wtab st ! i)"
    unfolding wsafe_def by metis
  then show ?thesis
    by (simp add: calm_def root_ok_def wat_tree [OF fold_send_tree] fold_send_closed
        fold_send_chans_ok)
qed

lemma calm_internalNotify [simp, intro]: "calm st (internalNotify act er ev r st)"
proof (induction r arbitrary: st)
  case Nil
  show ?case
    by (subst internalNotify.simps) (auto split: option.splits intro: calm_fold_send)
next
  case (Cons x q)
  show ?case
    by (subst internalNotify.simps)
      (auto simp: Let_def split: option.splits intro: Cons calm_trans [OF calm_fold_send])
qed

lemma calm_Notify [simp, intro]: "calm st (Notify act r st)"
  by (auto simp: Notify_def split: option.splits)

section \<open>Local changes of a node\<close>

lemma modify_fields [simp]:
  "wtab (modify r f st) = wtab st" "sendClosed (modify r f st) = sendClosed st"
  "tree (modify r f st) = update_path (rev r) f (tree st)"
  by (simp_all add: modify_def)

lemma amap_deref: "amap st (rev r) = map_option attr_of (deref r st)"
  by (simp add: flat_def deref_def)

lemma deref_modify_same: "deref r (modify r f st) = map_option f (deref r st)"
  by (simp add: deref_def lookup_update_same)

lemma amap_modify:
  assumes "\<And>m. deref r st = Some m \<Longrightarrow> map_of (kids (f m)) = map_of (kids m)"
  shows "amap (modify r f st) = (amap st)(rev r := map_option (\<lambda>m. attr_of (f m)) (deref r st))"
  using assms by (simp add: flat_update_same_kids deref_def)

lemma calm_modifyI:
  assumes "\<And>m. deref r st = Some m \<Longrightarrow> map_of (kids (f m)) = map_of (kids m)"
    and "\<And>m. nWatchers (f m) = nWatchers m"
    and "\<And>m. node_ok m \<Longrightarrow> node_ok (f m)" and "\<And>m. nName (f m) = nName m"
    and "r = [] \<Longrightarrow> root_ok st \<Longrightarrow> IsDir (f (tree st)) \<and> nValue (f (tree st)) = ''''"
  shows "calm st (modify r f st)"
proof -
  have "wat (modify r f st) = wat st"
    using assms(2) amap_modify [OF assms(1)] amap_deref [of st r]
    by (auto simp: wat_def fun_eq_iff attr_of_def split: option.splits)
  moreover have "root_ok (modify r f st)" if "root_ok st"
  proof (cases "rev r")
    case Nil
    with that assms(5) show ?thesis by (simp add: root_ok_def)
  next
    case (Cons x xs)
    with that show ?thesis by (simp add: root_ok_def)
  qed
  ultimately show ?thesis
    using assms(3,4) by (simp add: calm_def statics_def chans_ok_def node_ok_update_path)
qed

section \<open>Turning nodes into directories and leaves, writing, adding\<close>

lemma deref_amap: "deref r st = Some n \<Longrightarrow> amap st (rev r) = Some (attr_of n)"
  by (simp add: amap_deref)

lemma deref_NoneD: "deref r st = None \<Longrightarrow> amap st (rev r) = None"
  by (simp add: amap_deref)

lemma childless_deref: "deref r st = Some n \<Longrightarrow> childless (amap st) (rev r) \<longleftrightarrow> kids n = []"
  by (simp add: deref_def childless_kids)

lemma calm_set_Value: "r \<noteq> [] \<or> v = '''' \<Longrightarrow> calm st (modify r (set_Value v) st)"
  by (rule calm_modifyI) (auto simp: root_ok_def)

lemma amap_set_Value:
  "amap (modify r (set_Value v) st) =
    (amap st)(rev r := map_option (\<lambda>a. Attr v (adir a) (awat a)) (amap st (rev r)))"
  by (subst amap_modify) (auto simp: amap_deref option.map_comp o_def attr_of_def)

lemma amap_AsDir:
  "amap (AsDir r st) =
    (amap st)(rev r := map_option (\<lambda>a. Attr (aval a) True (awat a)) (amap st (rev r)))"
proof -
  have "attr_of (if IsDir m then m else set_Children (Some []) m) = Attr (nValue m) True (nWatchers m)"
    for m by (simp add: attr_of_def)
  then show ?thesis
    unfolding AsDir_def Notify_tree
    by (subst amap_modify)
      (auto simp: kids_leaf amap_deref option.map_comp o_def attr_of_def)
qed

lemma calm_AsDir: "calm st (AsDir r st)"
  unfolding AsDir_def
  by (rule calm_trans [OF calm_modifyI calm_Notify])
    (auto simp: kids_leaf root_ok_def intro!: node_ok_leaf)

lemma amap_AsLeaf:
  assumes "childless (amap st) (rev r)"
  shows "amap (AsLeaf r st) =
    (amap st)(rev r := map_option (\<lambda>a. Attr (aval a) False (awat a)) (amap st (rev r)))"
proof -
  have "attr_of (if IsDir m then set_Children None m else m) = Attr (nValue m) False (nWatchers m)"
    for m by (simp add: attr_of_def)
  then show ?thesis
    unfolding AsLeaf_def Notify_tree using assms
    by (subst amap_modify)
      (auto simp: childless_deref amap_deref option.map_comp o_def attr_of_def)
qed

lemma calm_AsLeaf:
  assumes "childless (amap st) (rev r)" and "r = [] \<Longrightarrow> \<not> root_ok st"
  shows "calm st (AsLeaf r st)"
  unfolding AsLeaf_def
  by (rule calm_trans [OF calm_modifyI calm_Notify])
    (use assms in \<open>auto simp: childless_deref intro!: node_ok_leaf\<close>)

text \<open>\<^verbatim>\<open>Write\<close> stores the value; a directory without children becomes a leaf.\<close>

lemma amap_node_Write:
  assumes "r \<noteq> []" and "amap st (rev r) = Some (Attr v d ws)"
  shows "amap (node_Write r value st) =
    (amap st)(rev r \<mapsto> Attr value (d \<and> \<not> childless (amap st) (rev r)) ws)"
proof -
  from assms(2) obtain n where n: "deref r st = Some n" and a: "attr_of n = Attr v d ws"
    by (auto simp: amap_deref)
  let ?st' = "modify r (set_Value value) st"
  have am: "amap ?st' = (amap st)(rev r \<mapsto> Attr value d ws)"
    using assms(2) by (simp add: amap_set_Value del: modify_fields)
  have cl: "childless (amap ?st') (rev r) = childless (amap st) (rev r)"
    unfolding am childless_def by simp
  show ?thesis
    using assms(1) n a am cl amap_AsLeaf [of ?st' r] childless_deref [OF n]
    by (auto simp: node_Write_def IsRoot_def Let_def attr_of_def ChildrenCount_kids fun_eq_iff
        simp del: modify_fields)
qed

lemma calm_node_Write: "calm st (node_Write r value st)"
proof (cases "deref r st")
  case (Some n)
  let ?st' = "modify r (set_Value value) st"
  have c: "r \<noteq> [] \<Longrightarrow> calm st ?st'" by (rule calm_set_Value) simp
  have "childless (amap ?st') (rev r) = childless (amap st) (rev r)"
    unfolding amap_set_Value childless_def by simp
  then have "ChildrenCount n = 0 \<Longrightarrow> r \<noteq> [] \<Longrightarrow> calm ?st' (AsLeaf r ?st')"
    using childless_deref [OF Some] by (intro calm_AsLeaf) (simp_all add: ChildrenCount_kids)
  with c show ?thesis
    using Some by (auto simp: node_Write_def IsRoot_def Let_def
        intro: calm_trans simp del: modify_fields)
qed (simp add: node_Write_def)

text \<open>\<^verbatim>\<open>Add\<close> of a fresh childless node makes its parent a directory and puts the node there.\<close>

lemma node_Add_deref:
  assumes "deref r st = Some n"
  shows "\<exists>m st'. node_Add r c st = modify r
      (\<lambda>n. set_Children (map_option (AList.update (nName c) c) (nChildren n)) n) st' \<and>
    deref r st' = Some m \<and> IsDir m \<and> kids m = kids n \<and> calm st st' \<and>
    amap st' = (amap st)(rev r := map_option (\<lambda>a. Attr (aval a) True (awat a)) (amap st (rev r)))"
proof (cases "IsDir n")
  case True
  then have "amap st = (amap st)
      (rev r := map_option (\<lambda>a. Attr (aval a) True (awat a)) (amap st (rev r)))"
    using assms by (auto simp: amap_deref attr_of_def fun_eq_iff)
  with True assms show ?thesis
    by (intro exI [of _ n] exI [of _ st]) (simp add: node_Add_def Let_def)
next
  case False
  have "deref r (AsDir r st) = Some (set_Children (Some []) n)"
    using False assms deref_modify_same [of r _ st]
    by (simp add: AsDir_def deref_tree [OF Notify_tree])
  with False assms show ?thesis
    by (intro exI [of _ "set_Children (Some []) n"] exI [of _ "AsDir r st"])
      (simp add: node_Add_def Let_def amap_AsDir calm_AsDir kids_leaf)
qed

lemma amap_node_Add:
  assumes "deref r st = Some n" and "map_of (kids n) (nName c) = None" and "kids c = []"
  shows "amap (node_Add r c st) =
    (amap st)(rev r := map_option (\<lambda>a. Attr (aval a) True (awat a)) (amap st (rev r)),
      rev r @ [nName c] := Some (attr_of c))"
proof -
  obtain m st' where m: "node_Add r c st = modify r
      (\<lambda>n. set_Children (map_option (AList.update (nName c) c) (nChildren n)) n) st'"
    "deref r st' = Some m" "IsDir m" "kids m = kids n"
    "amap st' = (amap st)(rev r := map_option (\<lambda>a. Attr (aval a) True (awat a)) (amap st (rev r)))"
    using node_Add_deref [OF assms(1)] by blast
  have "amap (node_Add r c st) = (amap st')(rev r @ [nName c] \<mapsto> attr_of c)"
    unfolding m(1) modify_fields
    by (rule flat_update_add [of _ _ m]) (use m assms in \<open>simp_all add: deref_def\<close>)
  then show ?thesis using m(5) by simp
qed

lemma calm_node_Add:
  assumes "deref r st = Some n" and "map_of (kids n) (nName c) = None" and "kids c = []"
    and "nWatchers c = []" and "seg (nName c)"
  shows "calm st (node_Add r c st)"
proof -
  obtain m st' where m: "node_Add r c st = modify r
      (\<lambda>n. set_Children (map_option (AList.update (nName c) c) (nChildren n)) n) st'"
    "deref r st' = Some m" "IsDir m" "kids m = kids n" "calm st st'"
    using node_Add_deref [OF assms(1)] by blast
  let ?f = "\<lambda>n. set_Children (map_option (AList.update (nName c) c) (nChildren n)) n"
  have am: "amap (modify r ?f st') = (amap st')(rev r @ [nName c] \<mapsto> attr_of c)"
    unfolding modify_fields
    by (rule flat_update_add [of _ _ m]) (use m assms in \<open>simp_all add: deref_def\<close>)
  have "amap st' (rev r @ [nName c]) = None"
    using m(2,4) assms(2) by (simp add: flat_def lookup_path_snoc deref_def)
  then have "wat (modify r ?f st') = wat st'"
    using am assms(4) by (auto simp: wat_def fun_eq_iff attr_of_def simp del: modify_fields)
  moreover have "node_ok (?f k)" if "node_ok k" for k
    using that node_ok_put_child [of k c "nName c"] assms(3,5) node_ok_leaf [of c]
    by (cases "IsDir k") (auto simp: nChildren_kids IsDir_def intro: node_ok_leaf)
  moreover have "root_ok (modify r ?f st')" if "root_ok st'"
    using that by (cases "rev r") (auto simp: root_ok_def nChildren_kids)
  ultimately have "calm st' (modify r ?f st')"
    by (simp add: calm_def statics_def chans_ok_def node_ok_update_path)
  with m(1,5) show ?thesis by (simp add: calm_trans)
qed

lemma newKV_effect:
  assumes "deref r st = Some n" and "map_of (kids n) x = None" and "seg x"
  shows "\<exists>st'. newKV x v r st = Inr (x # r, st') \<and> calm st st' \<and>
    amap st' = (amap st)(rev r := map_option (\<lambda>a. Attr (aval a) True (awat a)) (amap st (rev r)),
      rev r @ [x] := Some (Attr v False []))"
proof -
  let ?c = "Node x v None []"
  have k: "kids ?c = []" "attr_of ?c = Attr v False []"
    by (simp_all add: kids_def attr_of_def IsDir_def)
  have "calm st (Notify Update (x # r) (node_Add r ?c st))"
    using calm_node_Add [OF assms(1), of ?c] assms(2,3) k(1)
    by (auto intro: calm_trans [OF _ calm_Notify])
  with k show ?thesis
    using amap_node_Add [OF assms(1), of ?c] assms(2,3) by (auto simp: newKV_def seg_def)
qed

lemma newDir_effect:
  assumes "deref r st = Some n" and "map_of (kids n) x = None" and "seg x"
  shows "\<exists>st'. newDir x r st = Inr (x # r, st') \<and> calm st st' \<and>
    amap st' = (amap st)(rev r := map_option (\<lambda>a. Attr (aval a) True (awat a)) (amap st (rev r)),
      rev r @ [x] := Some (Attr '''' True []))"
proof -
  let ?c = "Node x '''' (Some []) []"
  have k: "kids ?c = []" "attr_of ?c = Attr '''' True []"
    by (simp_all add: kids_def attr_of_def IsDir_def)
  have "calm st (node_Add r ?c st)"
    using calm_node_Add [OF assms(1), of ?c] assms(2,3) k(1) by simp
  with k show ?thesis
    using amap_node_Add [OF assms(1), of ?c] assms(2,3) by (auto simp: newDir_def seg_def)
qed

section \<open>Detaching and cleaning\<close>

lemma amap_detach:
  assumes "childless (amap st) (rev (x # q))"
  shows "amap (detach (x # q) st) = (amap st)(rev (x # q) := None)"
  using flat_update_delete [of "tree st" "rev q" x] assms by (simp add: detach_def)

lemma calm_detach:
  assumes "childless (amap st) (rev (x # q))" and "wat st (rev (x # q)) = []"
  shows "calm st (detach (x # q) st)"
proof -
  let ?f = "\<lambda>n. set_Children (map_option (AList.delete x) (nChildren n)) n"
  have "wat (detach (x # q) st) = wat st"
    using assms(2) unfolding wat_def amap_detach [OF assms(1)] fun_eq_iff by auto
  moreover have "node_ok (?f k)" if "node_ok k" for k
  proof (cases "nChildren k")
    case (Some l)
    then have "kids (?f k) = AList.delete x (kids k)" by (simp add: kids_def)
    then show ?thesis
      using that set_delete_subset [of x "kids k"]
      by (subst node_ok_kids) (auto simp: node_ok_kids [of k])
  qed (simp add: node_ok_leaf)
  moreover have "root_ok (detach (x # q) st)" if "root_ok st"
    using that by (cases "rev q") (auto simp: root_ok_def detach_def nChildren_kids)
  moreover have "statics (detach (x # q) st) = statics st" "sendClosed (detach (x # q) st) = sendClosed st"
    "chans_ok (detach (x # q) st) = chans_ok st"
    by (simp_all add: detach_def statics_def chans_ok_def)
  moreover have "tree (detach (x # q) st) = update_path (rev q) ?f (tree st)"
    by (simp add: detach_def)
  ultimately show ?thesis by (simp add: calm_def node_ok_update_path)
qed

lemma lookup_detach:
  assumes "\<not> within (rev (x # q)) p" and "\<not> within p (rev q)"
  shows "lookup_path p (tree (detach (x # q) st)) = lookup_path p (tree st)"
proof (cases "within (rev q) p")
  case True
  then obtain y ys where p: "p = rev q @ y # ys"
    using assms(2) by (metis append_Nil2 list.exhaust prefixE prefix_order.refl)
  with assms(1) have "y \<noteq> x" by auto
  let ?f = "\<lambda>n. set_Children (map_option (AList.delete x) (nChildren n)) n"
  have "kids (?f m) = AList.delete x (kids m)" for m
    by (cases "nChildren m") (simp_all add: kids_def)
  then have "Option.bind (lookup_path (rev q) (tree st)) (\<lambda>m. lookup_path (y # ys) (?f m))
      = lookup_path p (tree st)"
    using p \<open>y \<noteq> x\<close>
    by (cases "lookup_path (rev q) (tree st)") (simp_all add: lookup_path_append lookup_path_Cons)
  then show ?thesis
    unfolding p by (simp only: detach_def list.case modify_fields lookup_update_below)
next
  case False
  with assms(2) show ?thesis by (simp add: detach_def lookup_update_apart)
qed

lemma lookup_modify_apart:
  "\<not> within (rev r) p \<Longrightarrow> \<not> within p (rev r) \<Longrightarrow>
    lookup_path p (tree (modify r f st)) = lookup_path p (tree st)"
  by (simp add: lookup_update_apart)

lemma lookup_set_Value_below:
  assumes "\<not> within p (rev r)"
  shows "lookup_path p (tree (modify r (set_Value v) st)) = lookup_path p (tree st)"
proof (cases "within (rev r) p")
  case True
  then obtain y ys where p: "p = rev r @ y # ys"
    using assms by (metis append_Nil2 list.exhaust prefixE prefix_order.refl)
  have "Option.bind (lookup_path (rev r) (tree st)) (\<lambda>m. lookup_path (y # ys) (set_Value v m))
      = lookup_path p (tree st)"
    using p by (cases "lookup_path (rev r) (tree st)") (simp_all add: lookup_path_append lookup_path_Cons)
  then show ?thesis unfolding p by (simp only: modify_fields lookup_update_below)
qed (use assms in \<open>simp add: lookup_update_apart\<close>)

lemma clean_rel_refl [simp, intro]: "clean_rel a a"
  by (simp add: clean_rel_def)

lemma clean_rel_None [simp]: "clean_rel None a \<longleftrightarrow> a = None"
  by (simp add: clean_rel_def)

lemma clean_rel_trans: "clean_rel a b \<Longrightarrow> clean_rel b c \<Longrightarrow> clean_rel a c"
  by (auto simp: clean_rel_def)

text \<open>
  The effect of \<^verbatim>\<open>Clean\<close> and of the end of \<^verbatim>\<open>Remove\<close>: every node is left, dropped or turned into a leaf
  as \<open>clean_rel\<close> says, only the node itself and its ancestors can be touched, and the step is calm.
\<close>

definition cleaned :: "noderef \<Rightarrow> nstate \<Rightarrow> nstate \<Rightarrow> bool" where
  "cleaned r st st' \<longleftrightarrow>
     (\<forall>p. clean_rel (amap st p) (amap st' p)) \<and>
     (\<forall>p. \<not> within p (rev r) \<longrightarrow> lookup_path p (tree st') = lookup_path p (tree st)) \<and>
     (root_ok st \<longrightarrow> calm st st')"

lemma cleaned_refl [simp, intro]: "cleaned r st st"
  by (simp add: cleaned_def)

lemma cleaned_trans:
  assumes "cleaned r s t" and "cleaned r t u"
  shows "cleaned r s u"
proof -
  have "clean_rel (amap s p) (amap u p)" for p
    using assms clean_rel_trans unfolding cleaned_def by blast
  moreover have "calm s u" if "root_ok s"
    using assms that calm_trans [of s t u] unfolding cleaned_def calm_def by blast
  ultimately show ?thesis using assms unfolding cleaned_def by simp
qed

lemma cleaned_parent: "cleaned q st st' \<Longrightarrow> cleaned (x # q) st st'"
  by (simp add: cleaned_def)

lemma cleaned_detach:
  assumes "deref (x # q) st = Some n" and "ChildrenCount n = 0" and "\<not> HasWatcher n"
    and "IsDir n" and "nValue n = ''''"
  shows "cleaned (x # q) st (detach (x # q) st)"
proof -
  have c: "childless (amap st) (rev (x # q))"
    using assms(1,2) by (simp only: childless_deref ChildrenCount_kids length_0_conv)
  have a: "amap st (rev (x # q)) = Some (Attr '''' True [])"
    using assms by (simp only: deref_amap attr_of_def HasWatcher_def simp_thms)
  then have "calm st (detach (x # q) st)"
    by (intro calm_detach [OF c]) (simp add: wat_def)
  moreover have "clean_rel (amap st p) (amap (detach (x # q) st) p)" for p
    using a by (simp add: amap_detach [OF c] clean_rel_def)
  moreover have "lookup_path p (tree (detach (x # q) st)) = lookup_path p (tree st)"
    if "\<not> within p (rev (x # q))" for p
  proof (cases "within (rev (x # q)) p")
    case True
    with that have "p \<noteq> rev (x # q)" by auto
    then have "amap st p = None" "amap (detach (x # q) st) p = None"
      using childless_below [OF c True] by (simp_all add: amap_detach [OF c])
    then show ?thesis by (simp add: flat_None_iff)
  next
    case False
    with that show ?thesis by (intro lookup_detach) (auto simp: prefix_def)
  qed
  ultimately show ?thesis by (simp add: cleaned_def)
qed

lemma cleaned_AsLeaf:
  assumes "deref r st = Some n" and "IsDir n" and "ChildrenCount n = 0" and "nValue n \<noteq> ''''"
  shows "cleaned r st (AsLeaf r st)"
proof -
  have c: "childless (amap st) (rev r)"
    using assms(1,3) by (simp only: childless_deref ChildrenCount_kids length_0_conv)
  have a: "amap st (rev r) = Some (Attr (nValue n) True (nWatchers n))"
    using assms by (simp add: deref_amap attr_of_def)
  have "calm st (AsLeaf r st)"
    using assms(1,4) by (intro calm_AsLeaf [OF c]) (auto simp: root_ok_def deref_def)
  moreover have "clean_rel (amap st p) (amap (AsLeaf r st) p)" for p
    using a assms(4) by (auto simp: amap_AsLeaf [OF c] clean_rel_def)
  moreover have "lookup_path p (tree (AsLeaf r st)) = lookup_path p (tree st)"
    if "\<not> within p (rev r)" for p
  proof (cases "within (rev r) p")
    case True
    with that have "p \<noteq> rev r" by auto
    then have "amap st p = None" "amap (AsLeaf r st) p = None"
      using childless_below [OF c True] by (simp_all add: amap_AsLeaf [OF c])
    then show ?thesis by (simp add: flat_None_iff)
  next
    case False
    with that show ?thesis by (simp add: AsLeaf_def lookup_update_apart)
  qed
  ultimately show ?thesis by (simp add: cleaned_def)
qed

lemma set_Value_same:
  assumes "deref r st = Some n" and "nValue n = v"
  shows "cleaned r st (modify r (set_Value v) st)"
proof -
  have "amap (modify r (set_Value v) st) = amap st"
    using assms by (auto simp: amap_set_Value amap_deref attr_of_def fun_eq_iff simp del: modify_fields)
  moreover have "root_ok st \<Longrightarrow> calm st (modify r (set_Value v) st)"
    using assms by (intro calm_set_Value) (auto simp: root_ok_def deref_def)
  ultimately show ?thesis
    by (simp add: cleaned_def lookup_set_Value_below del: modify_fields)
qed

lemma cleaned_remove_end_Clean:
  "(\<forall>n. deref r st = Some n \<longrightarrow> IsDir n \<and> nValue n = '''') \<Longrightarrow> cleaned r st (snd (remove_end r st))"
  "cleaned r' st' (snd (node_Clean r' st'))"
proof (induction r st and r' st' rule: remove_end_node_Clean.induct)
  case (2 x q st)
  show ?case
  proof (cases "deref (x # q) st")
    case (Some n)
    show ?thesis
    proof (cases "ChildrenCount n = 0 \<and> \<not> HasWatcher n")
      case True
      have "cleaned (x # q) st (detach (x # q) st)"
        using True Some "2.prems" by (intro cleaned_detach [OF Some]) auto
      moreover have "cleaned (x # q) (detach (x # q) st) (snd (node_Clean q (detach (x # q) st)))"
        using "2.IH" [OF Some True] by (rule cleaned_parent)
      ultimately show ?thesis
        using Some True by (simp del: node_Clean.simps add: cleaned_trans)
    qed (use Some in auto)
  qed auto
next
  case (3 r st)
  show ?case
  proof (cases "deref r st")
    case (Some n)
    consider (no) "\<not> IsDir n \<or> ChildrenCount n \<noteq> 0 \<or> nValue n = '''' \<and> HasWatcher n"
      | (rem) "IsDir n" "ChildrenCount n = 0" "nValue n = ''''" "\<not> HasWatcher n"
      | (leaf) "IsDir n" "ChildrenCount n = 0" "nValue n \<noteq> ''''"
      by blast
    then show ?thesis
    proof cases
      case no
      with Some show ?thesis by auto
    next
      case rem
      let ?st = "modify r (set_Value '''') st"
      have "cleaned r ?st (snd (remove_end r ?st))"
        using "3.IH" [OF Some] rem Some by (simp add: deref_modify_same)
      then have "cleaned r st (snd (remove_end r ?st))"
        using set_Value_same [OF Some rem(3)] cleaned_trans by blast
      with Some rem show ?thesis by simp
    next
      case leaf
      with Some show ?thesis by (simp add: cleaned_AsLeaf)
    qed
  qed auto
qed auto

lemmas cleaned_remove_end = cleaned_remove_end_Clean(1)
  and cleaned_node_Clean = cleaned_remove_end_Clean(2)

declare node_Clean.simps [simp del] remove_end.simps [simp del]

section \<open>Removing\<close>

definition purged :: "noderef \<Rightarrow> nstate \<Rightarrow> nstate \<Rightarrow> bool" where
  "purged r st st' \<longleftrightarrow>
     (\<forall>p. within (rev r) p \<longrightarrow> purge_rel (amap st p) (amap st' p)) \<and>
     (\<forall>p. \<not> within (rev r) p \<longrightarrow> clean_rel (amap st p) (amap st' p)) \<and>
     (\<forall>p. \<not> within (rev r) p \<longrightarrow> \<not> within p (rev r) \<longrightarrow>
        lookup_path p (tree st') = lookup_path p (tree st)) \<and>
     (root_ok st \<longrightarrow> calm st st')"

text \<open>The effect of the loop over the children of \<open>r\<close>.\<close>

definition loop_purged :: "noderef \<Rightarrow> string set \<Rightarrow> nstate \<Rightarrow> nstate \<Rightarrow> bool" where
  "loop_purged r K st st' \<longleftrightarrow>
     (\<forall>k\<in>K. \<forall>p. within (rev r @ [k]) p \<longrightarrow> purge_rel (amap st p) (amap st' p)) \<and>
     (\<forall>p. (\<forall>k\<in>K. \<not> within (rev r @ [k]) p) \<longrightarrow> clean_rel (amap st p) (amap st' p)) \<and>
     (\<forall>p. (\<forall>k\<in>K. \<not> within (rev r @ [k]) p) \<longrightarrow> \<not> within p (rev r) \<longrightarrow>
        lookup_path p (tree st') = lookup_path p (tree st)) \<and>
     (root_ok st \<longrightarrow> calm st st')"

lemma amap_lookup: "lookup_path p (tree st') = lookup_path p (tree st) \<Longrightarrow> amap st' p = amap st p"
  by (simp add: flat_def)

lemma purged_loop_step:
  assumes "purged (k # r) s t" and "loop_purged r K t u" and "k \<notin> K"
  shows "loop_purged r (insert k K) s u"
proof -
  have k1: "amap u p = amap t p" if p: "within (rev r @ [k]) p" for p
  proof (rule amap_lookup)
    have "\<forall>j\<in>K. \<not> within (rev r @ [j]) p"
      using p assms(3) apart_snoc [of k _ "rev r" p] by metis
    moreover have "\<not> within p (rev r)" using p by (rule not_within_snoc)
    ultimately show "lookup_path p (tree u) = lookup_path p (tree t)"
      using assms(2) by (simp add: loop_purged_def)
  qed
  have k2: "amap t p = amap s p" if "j \<in> K" and p: "within (rev r @ [j]) p" for j p
  proof (rule amap_lookup)
    have "j \<noteq> k" using that assms(3) by auto
    then have "\<not> within (rev r @ [k]) p" using p apart_snoc [of j k "rev r" p] by simp
    moreover have "\<not> within p (rev r @ [k])"
      using p \<open>j \<noteq> k\<close> by (auto simp: prefix_def)
    ultimately show "lookup_path p (tree t) = lookup_path p (tree s)"
      using assms(1) by (simp add: purged_def)
  qed
  have "purge_rel (amap s p) (amap u p)" if "j \<in> insert k K" "within (rev r @ [j]) p" for j p
  proof (cases "j = k")
    case True
    with that(2) have "purge_rel (amap s p) (amap t p)" using assms(1) by (simp add: purged_def)
    with that(2) True show ?thesis by (simp add: k1)
  next
    case False
    with that have "j \<in> K" by simp
    then have "purge_rel (amap t p) (amap u p)"
      using assms(2) that(2) unfolding loop_purged_def by blast
    with k2 [OF \<open>j \<in> K\<close> that(2)] show ?thesis by simp
  qed
  moreover have "clean_rel (amap s p) (amap u p)" if "\<forall>j\<in>insert k K. \<not> within (rev r @ [j]) p" for p
    using that assms clean_rel_trans [of "amap s p" "amap t p" "amap u p"]
    by (auto simp: purged_def loop_purged_def)
  moreover have "lookup_path p (tree u) = lookup_path p (tree s)"
    if "\<forall>j\<in>insert k K. \<not> within (rev r @ [j]) p" "\<not> within p (rev r)" for p
  proof -
    have "\<not> within p (rev (k # r))" using that by auto
    with that assms show ?thesis by (simp add: purged_def loop_purged_def)
  qed
  moreover have "calm s u" if "root_ok s"
    using that assms calm_trans [of s t u] by (auto simp: purged_def loop_purged_def calm_def)
  ultimately show ?thesis by (simp add: loop_purged_def)
qed

lemma loop_purged_fold:
  assumes "\<And>k c s. (k, c) \<in> set l \<Longrightarrow> lookup_path (rev r @ [k]) (tree s) = Some c \<Longrightarrow>
      purged (k # r) s (snd (node_Remove c (k # r) s))"
    and "map_ok l"
    and "\<forall>(k, c)\<in>set l. lookup_path (rev r @ [k]) (tree st) = Some c"
  shows "loop_purged r (set (keys l)) st
    (fold (\<lambda>(k, c) s. snd (node_Remove c (k # r) s)) l st)"
  using assms
proof (induction l arbitrary: st)
  case Nil
  then show ?case by (simp add: loop_purged_def)
next
  case (Cons kc l)
  obtain k c where kc: "kc = (k, c)" by force
  let ?t = "snd (node_Remove c (k # r) st)"
  have p: "purged (k # r) st ?t" using Cons.prems(1,3) kc by auto
  have same: "lookup_path (rev r @ [j]) (tree ?t) = lookup_path (rev r @ [j]) (tree st)"
    if "j \<noteq> k" for j
  proof -
    have "\<not> within (rev (k # r)) (rev r @ [j])" "\<not> within (rev r @ [j]) (rev (k # r))"
      using that by (auto simp: prefix_def)
    with p show ?thesis by (simp add: purged_def)
  qed
  have kn: "k \<notin> set (keys l)" using Cons.prems(2) kc by simp
  have "\<forall>(j, c)\<in>set l. lookup_path (rev r @ [j]) (tree ?t) = Some c"
  proof clarify
    fix j d
    assume jd: "(j, d) \<in> set l"
    with kn have "j \<noteq> k" by force
    with same jd Cons.prems(3) show "lookup_path (rev r @ [j]) (tree ?t) = Some d" by auto
  qed
  moreover have "map_ok l" using Cons.prems(2) by simp
  ultimately have "loop_purged r (set (keys l)) ?t
      (fold (\<lambda>(k, c) s. snd (node_Remove c (k # r) s)) l ?t)"
    using Cons.IH [of ?t] Cons.prems(1) by simp
  from purged_loop_step [OF p this kn] show ?case by (simp add: kc)
qed

text \<open>A directory whose children have all been purged, and what the end of \<^verbatim>\<open>Remove\<close> makes of it.\<close>

lemma purged_dir:
  assumes n: "deref r st = Some n" "IsDir n"
    and loop: "loop_purged r (set (keys (kids n))) (modify r (set_Value '''') st) s"
  shows "purged r st (snd (remove_end r s))" (is "purged r st ?u")
proof -
  let ?t = "modify r (set_Value '''') st"
  have at: "amap ?t = (amap st)(rev r \<mapsto> Attr '''' True (nWatchers n))"
    using n by (simp add: amap_set_Value amap_deref attr_of_def del: modify_fields)
  have nw: "\<not> within (rev r @ [k]) (rev r)" for k by (simp add: prefix_def)
  have cr: "clean_rel (Some (Attr '''' True (nWatchers n))) (amap s (rev r))"
    using loop at nw by (metis fun_upd_same loop_purged_def)
  then have "\<forall>m. deref r s = Some m \<longrightarrow> IsDir m \<and> nValue m = ''''"
    by (auto simp: clean_rel_def amap_deref attr_of_def)
  then have u: "cleaned r s ?u" by (rule cleaned_remove_end)
  have "purge_rel (amap st p) (amap ?u p)" if p: "within (rev r) p" for p
    using p
  proof (cases rule: within_cases)
    case eq
    have "clean_rel (Some (Attr '''' True (nWatchers n))) (amap ?u (rev r))"
      using cr u clean_rel_trans unfolding cleaned_def by blast
    then show ?thesis
      using n eq by (auto simp: purge_rel_def clean_rel_def amap_deref attr_of_def)
  next
    case (below x)
    then have pr: "\<not> within p (rev r)" by (rule not_within_snoc)
    then have us: "amap ?u p = amap s p" using u by (intro amap_lookup) (simp add: cleaned_def)
    have tp: "amap ?t p = amap st p" using at pr by auto
    show ?thesis
    proof (cases "x \<in> set (keys (kids n))")
      case True
      then have "purge_rel (amap ?t p) (amap s p)"
        using loop below unfolding loop_purged_def by blast
      with us tp show ?thesis by simp
    next
      case False
      then have "map_of (kids n) x = None" by (simp add: map_of_eq_None_iff)
      then have "amap st (rev r @ [x]) = None"
        using n(1) by (simp add: flat_def lookup_path_snoc deref_def)
      then have none: "amap st p = None" using below flat_within by blast
      have "\<forall>k\<in>set (keys (kids n)). \<not> within (rev r @ [k]) p"
        using False below apart_snoc [of x _ "rev r" p] by metis
      then have "clean_rel (amap ?t p) (amap s p)"
        using loop unfolding loop_purged_def by blast
      with none us tp show ?thesis by (simp add: purge_rel_def clean_rel_def)
    qed
  qed
  moreover have "clean_rel (amap st p) (amap ?u p)" if p: "\<not> within (rev r) p" for p
  proof -
    have "\<forall>k\<in>set (keys (kids n)). \<not> within (rev r @ [k]) p" using p within_snoc by blast
    then have "clean_rel (amap ?t p) (amap s p)" using loop unfolding loop_purged_def by blast
    moreover have "amap ?t p = amap st p" using at p by auto
    moreover have "clean_rel (amap s p) (amap ?u p)" using u by (simp add: cleaned_def)
    ultimately show ?thesis by (metis clean_rel_trans)
  qed
  moreover have "lookup_path p (tree ?u) = lookup_path p (tree st)"
    if p: "\<not> within (rev r) p" "\<not> within p (rev r)" for p
  proof -
    have "\<forall>k\<in>set (keys (kids n)). \<not> within (rev r @ [k]) p" using p within_snoc by blast
    then show ?thesis
      using p u loop lookup_set_Value_below [of p r] by (simp add: cleaned_def loop_purged_def)
  qed
  moreover have "calm st ?u" if "root_ok st"
  proof -
    have "calm st ?t" by (rule calm_set_Value) simp
    moreover from this that have "root_ok ?t" by (simp add: calm_def)
    moreover from this have "calm ?t s" using loop by (simp add: loop_purged_def)
    ultimately have "calm st s" "root_ok s" using that calm_trans by (blast, simp add: calm_def)
    then show ?thesis using u calm_trans by (auto simp: cleaned_def)
  qed
  ultimately show ?thesis unfolding purged_def by blast
qed

lemma purged_watched_leaf:
  assumes n: "deref r st = Some n" "\<not> IsDir n" "nWatchers n \<noteq> []"
  shows "purged r st (AsDir r (modify r (set_Value '''') st))" (is "purged r st ?u")
proof -
  let ?t = "modify r (set_Value '''') st"
  have a: "amap st (rev r) = Some (Attr (nValue n) False (nWatchers n))"
    using n by (simp add: amap_deref attr_of_def)
  have au: "amap ?u = (amap st)(rev r \<mapsto> Attr '''' True (nWatchers n))"
    using a by (auto simp: amap_AsDir amap_set_Value fun_eq_iff simp del: modify_fields)
  have c: "childless (amap st) (rev r)" using a by (rule flat_leaf_childless)
  have "purge_rel (amap st p) (amap ?u p)" if "within (rev r) p" for p
    using that a au childless_below [OF c that] by (cases "p = rev r") (auto simp: purge_rel_def)
  moreover have "clean_rel (amap st p) (amap ?u p)" if "\<not> within (rev r) p" for p
    using that au by auto
  moreover have "lookup_path p (tree ?u) = lookup_path p (tree st)"
    if "\<not> within (rev r) p" "\<not> within p (rev r)" for p
    using that by (simp add: AsDir_def lookup_update_apart)
  moreover have "calm st ?u"
    using calm_trans [OF calm_set_Value [of r "''''" st] calm_AsDir [of ?t r]] by simp
  ultimately show ?thesis by (simp add: purged_def)
qed

lemma purged_leaf:
  assumes n: "deref (x # q) st = Some n" "\<not> IsDir n" "nWatchers n = []"
  shows "purged (x # q) st
    (snd (node_Clean q (internalNotify Delete (x # q) v (x # q) (detach (x # q) st))))"
    (is "purged ?r st (snd (node_Clean q ?t))")
proof -
  let ?u = "snd (node_Clean q ?t)"
  have a: "amap st (rev ?r) = Some (Attr (nValue n) False [])"
    using n by (simp only: amap_deref) (simp add: attr_of_def)
  then have c: "childless (amap st) (rev ?r)" by (rule flat_leaf_childless)
  have at: "amap ?t = (amap st)(rev ?r := None)"
    by (simp only: internalNotify_tree amap_detach [OF c])
  have u: "cleaned q ?t ?u" by (rule cleaned_node_Clean)
  have lt: "lookup_path p (tree ?t) = lookup_path p (tree st)"
    if "\<not> within (rev ?r) p" "\<not> within p (rev q)" for p
    unfolding internalNotify_tree using that by (rule lookup_detach)
  have "purge_rel (amap st p) (amap ?u p)" if "within (rev ?r) p" for p
  proof -
    have "amap st p = None \<or> p = rev ?r" using childless_below [OF c that] by blast
    moreover from this have "amap ?t p = None" using at by auto
    moreover have "clean_rel (amap ?t p) (amap ?u p)" using u unfolding cleaned_def by blast
    ultimately have "amap ?u p = None" by (simp only: clean_rel_None)
    moreover have "amap st p = None \<or> p = rev ?r" using childless_below [OF c that] by blast
    ultimately show ?thesis using a by (auto simp: purge_rel_def)
  qed
  moreover have "clean_rel (amap st p) (amap ?u p)" if "\<not> within (rev ?r) p" for p
  proof -
    have "p \<noteq> rev ?r" using that by auto
    then have "amap ?t p = amap st p" by (simp only: at) simp
    moreover have "clean_rel (amap ?t p) (amap ?u p)" using u by (simp only: cleaned_def)
    ultimately show ?thesis by simp
  qed
  moreover have "lookup_path p (tree ?u) = lookup_path p (tree st)"
    if "\<not> within (rev ?r) p" "\<not> within p (rev ?r)" for p
  proof -
    have nq: "\<not> within p (rev q)" using that(2) by auto
    then have "lookup_path p (tree ?u) = lookup_path p (tree ?t)"
      using u unfolding cleaned_def by blast
    from this lt [OF that(1) nq] show ?thesis by (rule trans)
  qed
  moreover have "calm st ?u" if "root_ok st"
  proof -
    have "calm st (detach ?r st)" using a by (intro calm_detach [OF c]) (simp add: wat_def)
    then have "calm st ?t" using calm_internalNotify calm_trans by blast
    moreover from this that have "root_ok ?t" by (simp add: calm_def)
    ultimately show ?thesis using u calm_trans by (auto simp: cleaned_def)
  qed
  ultimately show ?thesis unfolding purged_def by blast
qed

text \<open>
  \<^verbatim>\<open>Remove\<close>: below the node everything goes, except that watched nodes and the directories leading to
  them stay as directories without a value; outside, only ancestors are cleaned.
\<close>

lemma purged_node_Remove:
  assumes "deref r st = Some n" and "node_ok n" and "r = [] \<Longrightarrow> IsDir n"
  shows "purged r st (snd (node_Remove n r st))"
  using assms
proof (induction n r st rule: node_Remove.induct)
  case (1 nm v cs ws r st)
  show ?case
  proof (cases cs)
    case None
    then have leaf: "\<not> IsDir (Node nm v cs ws)" by (simp add: IsDir_def)
    show ?thesis
    proof (cases "ws = []")
      case False
      then show ?thesis
        using None leaf "1.prems"(1) purged_watched_leaf [of r st "Node nm v cs ws"] by simp
    next
      case True
      then obtain x q where r: "r = x # q" using "1.prems"(3) leaf by (cases r) auto
      with "1.prems"(1) True leaf have
        "purged r st (snd (node_Clean q (internalNotify Delete r v r (detach r st))))"
        using purged_leaf [of x q st "Node nm v cs ws" v] by simp
      with None True r "1.prems"(1) show ?thesis by simp
    qed
  next
    case (Some l)
    let ?n = "Node nm v cs ws"
    let ?t = "modify r (set_Value '''') st"
    have k: "kids ?n = l" and d: "IsDir ?n" using Some by (simp_all add: kids_def IsDir_def)
    have ok: "map_ok l" "\<forall>kc\<in>set l. node_ok (snd kc)"
      using "1.prems"(2) node_ok_kids [of ?n] k by auto
    have "lookup_path (rev r @ [j]) (tree ?t) = map_of l j" for j
    proof -
      have "lookup_path (rev r @ [j]) (tree ?t) = lookup_path (rev r @ [j]) (tree st)"
        by (rule lookup_set_Value_below) (simp add: prefix_def)
      then show ?thesis using "1.prems"(1) k by (simp add: lookup_path_snoc deref_def)
    qed
    then have "\<forall>(j, c)\<in>set l. lookup_path (rev r @ [j]) (tree ?t) = Some c"
      using ok(1) by auto
    moreover have "purged (j # r) s (snd (node_Remove c (j # r) s))"
      if "(j, c) \<in> set l" "lookup_path (rev r @ [j]) (tree s) = Some c" for j c s
      using "1.IH" [OF Some that(1) refl, of s] that ok(2) by (auto simp: deref_def)
    ultimately have "loop_purged r (set (keys l)) ?t
        (fold (\<lambda>(k, c) s. snd (node_Remove c (k # r) s)) l ?t)"
      using loop_purged_fold [of l r ?t] ok(1) by blast
    then have "purged r st (snd (remove_end r
        (fold (\<lambda>(k, c) s. snd (node_Remove c (k # r) s)) l ?t)))"
      using purged_dir [OF "1.prems"(1) d] k by simp
    with Some show ?thesis by simp
  qed
qed

text \<open>
  The call \<^verbatim>\<open>return n.Remove()\<close> in \<^verbatim>\<open>Clean\<close> is the full \<^verbatim>\<open>Remove\<close> of the model.
\<close>

lemma node_Clean_calls_Remove:
  assumes "deref r st = Some n" and "IsDir n" and "ChildrenCount n = 0" and "nValue n = ''''"
    and "\<not> HasWatcher n"
  shows "node_Clean r st = node_Remove n r st"
proof -
  obtain nm v ws where "n = Node nm v (Some []) ws"
    using assms(2,3) by (cases n) (auto simp: IsDir_def ChildrenCount_def split: option.splits)
  with assms show ?thesis by (simp add: node_Clean.simps)
qed

text \<open>Registering a watcher.\<close>

lemma node_Watch_effect:
  assumes "deref r st = Some n"
  shows "amap (snd (node_Watch r len st)) =
      (amap st)(rev r \<mapsto> Attr (nValue n) (IsDir n) (nWatchers n @ [length (wtab st)]))"
    and "wtab (snd (node_Watch r len st)) = wtab st @ [newWatcher r len]"
    and "fst (node_Watch r len st) = length (wtab st)"
proof -
  let ?st = "st\<lparr>wtab := wtab st @ [newWatcher r len]\<rparr>"
  have "deref r ?st = Some n" using assms by (simp add: deref_def)
  then show "amap (snd (node_Watch r len st)) =
      (amap st)(rev r \<mapsto> Attr (nValue n) (IsDir n) (nWatchers n @ [length (wtab st)]))"
    using amap_modify [of r ?st "\<lambda>n. set_Watchers (nWatchers n @ [length (wtab st)]) n"]
    by (simp add: node_Watch_def Let_def attr_of_def del: modify_fields)
qed (simp_all add: node_Watch_def Let_def)

end
