(* ===== verification/Flatmap.thy ===== *)
theory Flatmap
  imports Watcher Values
begin

text \<open>
  \<^verbatim>\<open>util/flatmap\<close>: \<^verbatim>\<open>Flatten\<close> turns a nested value into a map from paths to strings, \<^verbatim>\<open>Expand\<close> turns such
  a map back into nested maps.
\<close>

section \<open>Printing integers\<close>

fun show_nat :: "nat \<Rightarrow> string" where
  "show_nat n =
     (if n < 10 then [char_of (48 + n)] else show_nat (n div 10) @ [char_of (48 + n mod 10)])"

declare show_nat.simps [simp del]

definition show_int :: "int \<Rightarrow> string" where
  "show_int i = (if i < 0 then ''-'' @ show_nat (nat (- i)) else show_nat (nat i))"

section \<open>Flatten\<close>

text \<open>The leading slash \<^verbatim>\<open>flatten\<close> adds to a prefix that has none.\<close>

definition rooted :: "string \<Rightarrow> string" where
  "rooted pfx = (if hd pfx \<noteq> CHR ''/'' then CHR ''/'' # pfx else pfx)"

text \<open>The text of a value that is neither a map nor a slice; \<open>None\<close> for those.\<close>

fun scalar :: "goval \<Rightarrow> string option" where
  "scalar VNil = Some ''''"
| "scalar (VBool b) = Some (if b then ''true'' else ''false'')"
| "scalar (VInt i) = Some (show_int i)"
| "scalar (VFloat f) = Some (fmt_f f)"
| "scalar (VStr s) = Some s"
| "scalar _ = None"

fun flatten :: "(string, string) gomap \<Rightarrow> string \<Rightarrow> goval \<Rightarrow> (string, string) gomap"
  and flattenMap :: "(string, string) gomap \<Rightarrow> string \<Rightarrow> (string \<times> goval) list \<Rightarrow> (string, string) gomap"
  and flattenSlice :: "(string, string) gomap \<Rightarrow> string \<Rightarrow> nat \<Rightarrow> goval list \<Rightarrow> (string, string) gomap"
  where
  "flatten res pfx v =
     (if pfx = '''' then res
      else case v of
        VMap m \<Rightarrow> flattenMap res (rooted pfx) m
      | VSlice vs \<Rightarrow> flattenSlice res (rooted pfx) 0 vs
      | _ \<Rightarrow> AList.update (rooted pfx) (the (scalar v)) res)"
| "flattenMap res pfx [] = res"
| "flattenMap res pfx ((k, v) # m) = flattenMap (flatten res (pfx @ ''/'' @ k) v) pfx m"
| "flattenSlice res pfx i [] = res"
| "flattenSlice res pfx i (v # vs) =
     flattenSlice (flatten res (pfx @ ''/'' @ show_nat i) v) pfx (Suc i) vs"

text \<open>The two loops of \<^verbatim>\<open>Flatten\<close>: over the entries of a map, and over a slice.\<close>

definition Flatten_entries :: "(string \<times> goval) list \<Rightarrow> (string, string) gomap" where
  "Flatten_entries m = fold (\<lambda>(k, raw) res. flatten res k raw) m []"

definition FlattenSlice :: "goval list \<Rightarrow> (string, string) gomap" where
  "FlattenSlice vs = fold (\<lambda>(i, raw) res. flatten res (''/'' @ show_nat i) raw) (enumerate 0 vs) []"

definition Flatten :: "goval \<Rightarrow> panic + (string, string) gomap" where
  "Flatten thing =
     (case thing of
        VMap m \<Rightarrow> Inr (Flatten_entries m)
      | VSlice vs \<Rightarrow> Inr (FlattenSlice vs)
      | _ \<Rightarrow> Inl (Panic ''Unsupport type''))"

section \<open>Expand\<close>

text \<open>A loop whose body may panic.\<close>

fun foldM :: "('a \<Rightarrow> 'b \<Rightarrow> panic + 'b) \<Rightarrow> 'a list \<Rightarrow> 'b \<Rightarrow> panic + 'b" where
  "foldM f [] b = Inr b"
| "foldM f (x # xs) b = (case f x b of Inl e \<Rightarrow> Inl e | Inr b' \<Rightarrow> foldM f xs b')"

lemma foldM_cong [fundef_cong]:
  assumes "xs = ys" and "a = b" and "\<And>x c. x \<in> set ys \<Longrightarrow> f x c = g x c"
  shows "foldM f xs a = foldM g ys b"
  unfolding assms(1,2) using assms(3)
  by (induction ys arbitrary: b) (auto split: sum.splits)

definition max_len :: "(string, string) gomap \<Rightarrow> nat" where
  "max_len m = Max (insert 0 ((\<lambda>kv. length (fst kv)) ` set m))"

lemma max_len_ge: "(k, v) \<in> set m \<Longrightarrow> length k \<le> max_len m"
  unfolding max_len_def by (intro Max_ge) force+

text \<open>
  \<^verbatim>\<open>key := k[len(prefix):]\<close> panics when \<open>k\<close> is shorter than the prefix.  In \<^verbatim>\<open>expand\<close> both outcomes of the
  search loop return \<^verbatim>\<open>expandMap(m, prefix)\<close>.
\<close>

function expandMap :: "(string, string) gomap \<Rightarrow> string \<Rightarrow> panic + (string \<times> goval) list"
  and expand :: "(string, string) gomap \<Rightarrow> string \<Rightarrow> panic + goval" where
  "expandMap m pfx =
     foldM (\<lambda>(k, _) result.
       if pfx \<noteq> ''/'' \<and> \<not> strings_HasPrefix k pfx then Inr result
       else if length k < length pfx then Inl (Panic ''slice bounds out of range'')
       else
         let key = takeWhile (\<lambda>c. c \<noteq> CHR ''/'') (drop (length pfx) k)
         in if key \<in> set (keys result) then Inr result
            else (case expand m (take (length pfx + length key) k) of
                    Inl e \<Rightarrow> Inl e
                  | Inr v \<Rightarrow> Inr (AList.update key v result))) m []"
| "expand m pfx =
     (case map_of m pfx of
        Some v \<Rightarrow> Inr (VStr v)
      | None \<Rightarrow>
          if list_ex (\<lambda>(k, _). strings_HasPrefix k (pfx @ ''/'')) m
          then map_sum id VMap (expandMap m (pfx @ ''/''))
          else map_sum id VMap (expandMap m (pfx @ ''/'')))"
  by pat_completeness auto
termination
proof (relation "measure (case_sum (\<lambda>(m, pfx). 2 * (max_len m + 1 - length pfx))
    (\<lambda>(m, p). Suc (2 * (max_len m - length p))))", goal_cases)
  case (2 m pfx x c k v key)
  then have "length k \<le> max_len m" by (auto dest: max_len_ge)
  with 2 show ?case by auto
qed auto

declare expandMap.simps [simp del] expand.simps [simp del]

definition Expand :: "(string, string) gomap \<Rightarrow> string \<Rightarrow> panic + (string \<times> goval) list" where
  "Expand m pfx =
     (let p = path_Clean (path_Join [''/'', pfx]);
          p = (if last p \<noteq> CHR ''/'' then p @ ''/'' else p)
      in expandMap m p)"

end
