(* ===== verification/Util.thy ===== *)
theory Util
  imports Flatmap
begin

text \<open>\<^verbatim>\<open>util/helper.go\<close>: path prefixes, lookup in a flattened value, integer parsing.\<close>

section \<open>Definitions\<close>

definition TrimPathPrefix :: "string \<Rightarrow> string \<Rightarrow> string" where
  "TrimPathPrefix nodePath prefix0 =
     (let prefix1 = path_Join [''/'', prefix0]
      in if prefix1 = ''/'' then nodePath
         else if prefix1 = nodePath then ''/''
         else
           let prefix2 = (if last prefix1 \<noteq> CHR ''/'' then prefix1 @ ''/'' else prefix1);
               nodePath' = path_Join [''/'', nodePath]
           in path_Clean (path_Join [''/'', strings_TrimPrefix nodePath' prefix2]))"

definition TrimPathPrefixBatch :: "(string, string) gomap \<Rightarrow> string \<Rightarrow> (string, string) gomap" where
  "TrimPathPrefixBatch meta prefix0 =
     fold (\<lambda>(k, v) newMeta. AList.update (TrimPathPrefix k prefix0) v newMeta) meta []"

definition AppendPathPrefix :: "string \<Rightarrow> string \<Rightarrow> string" where
  "AppendPathPrefix nodePath prefix0 =
     (if strings_TrimSpace nodePath = '''' then nodePath
      else path_Clean (path_Join [path_Join [''/'', prefix0], nodePath]))"

text \<open>A missing key of a Go map of strings reads as the empty string.\<close>

definition GetMapValue :: "goval \<Rightarrow> string \<Rightarrow> panic + string" where
  "GetMapValue m nodePath =
     (case Flatten m of
        Inl e \<Rightarrow> Inl e
      | Inr fm \<Rightarrow> Inr (case map_of fm nodePath of None \<Rightarrow> '''' | Some v \<Rightarrow> v))"

text \<open>\<^verbatim>\<open>strconv.Atoi\<close> on a 64-bit platform: an optional sign, decimal digits, in range.\<close>

definition is_digit :: "char \<Rightarrow> bool" where
  "is_digit c \<longleftrightarrow> 48 \<le> (of_char c :: nat) \<and> (of_char c :: nat) \<le> 57"

definition digits_val :: "string \<Rightarrow> int" where
  "digits_val ds = foldl (\<lambda>n c. 10 * n + (int (of_char c) - 48)) 0 ds"

definition strconv_Atoi :: "string \<Rightarrow> int option" where
  "strconv_Atoi s =
     (let neg = (s \<noteq> [] \<and> hd s = CHR ''-'');
          ds = (if s \<noteq> [] \<and> (hd s = CHR ''-'' \<or> hd s = CHR ''+'') then tl s else s);
          v = (if neg then - digits_val ds else digits_val ds)
      in if ds \<noteq> [] \<and> list_all is_digit ds \<and> - (2 ^ 63) \<le> v \<and> v < 2 ^ 63 then Some v else None)"

definition ParseInt :: "string \<Rightarrow> int \<Rightarrow> int" where
  "ParseInt value defaultValue =
     (if value = '''' then defaultValue
      else case strconv_Atoi value of None \<Rightarrow> defaultValue | Some result \<Rightarrow> result)"

end
