(* ===== verification/Atomic.thy ===== *)
theory Atomic
  imports Prelude
begin

text \<open>
  \<^verbatim>\<open>atomic/atomic.go\<close>: counters of 32 and 64 bits with wrap-around.  An operation takes the cell and
  returns its new content and the value handed to the caller.  The two fetch-and-update operations
  read the cell and update it in two separate atomic steps; the step relation at the end models
  threads that interleave between them.
\<close>

section \<open>Sequential operations\<close>

definition AtomicInteger_IncrementAndGet :: "int32 \<Rightarrow> int32 \<times> int32" where
  "AtomicInteger_IncrementAndGet i = (i + 1, i + 1)"

definition AtomicInteger_GetAndIncrement :: "int32 \<Rightarrow> int32 \<times> int32" where
  "AtomicInteger_GetAndIncrement i = (let ret = i in (i + 1, ret))"

definition AtomicInteger_DecrementAndGet :: "int32 \<Rightarrow> int32 \<times> int32" where
  "AtomicInteger_DecrementAndGet i = (i + (- 1), i + (- 1))"

definition AtomicInteger_GetAndDecrement :: "int32 \<Rightarrow> int32 \<times> int32" where
  "AtomicInteger_GetAndDecrement i = (let ret = i in (i + (- 1), ret))"

definition AtomicInteger_Get :: "int32 \<Rightarrow> int32" where
  "AtomicInteger_Get i = i"

definition AtomicLong_IncrementAndGet :: "int64 \<Rightarrow> int64 \<times> int64" where
  "AtomicLong_IncrementAndGet i = (i + 1, i + 1)"

definition AtomicLong_GetAndIncrement :: "int64 \<Rightarrow> int64 \<times> int64" where
  "AtomicLong_GetAndIncrement i = (let ret = i in (i + 1, ret))"

definition AtomicLong_DecrementAndGet :: "int64 \<Rightarrow> int64 \<times> int64" where
  "AtomicLong_DecrementAndGet i = (i + (- 1), i + (- 1))"

definition AtomicLong_GetAndDecrement :: "int64 \<Rightarrow> int64 \<times> int64" where
  "AtomicLong_GetAndDecrement i = (let ret = i in (i + (- 1), ret))"

definition AtomicLong_Get :: "int64 \<Rightarrow> int64" where
  "AtomicLong_Get i = i"

text \<open>\<open>n\<close> calls of \<^verbatim>\<open>IncrementAndGet\<close> in a row: the final cell and the values returned.\<close>

fun increments :: "nat \<Rightarrow> int64 \<Rightarrow> int64 \<times> int64 list" where
  "increments 0 i = (i, [])"
| "increments (Suc n) i =
     (let (i1, r) = AtomicLong_IncrementAndGet i; (i2, rs) = increments n i1 in (i2, r # rs))"

section \<open>Interleaved operations on one 64-bit cell\<close>

datatype atomic_op = IncrementAndGet | GetAndIncrement | DecrementAndGet | GetAndDecrement

datatype pc = Start atomic_op | Loaded atomic_op int64 | Done atomic_op int64

record cell_state =
  cell :: int64
  pcs :: "nat \<Rightarrow> pc"

fun delta :: "atomic_op \<Rightarrow> int64" where
  "delta IncrementAndGet = 1"
| "delta GetAndIncrement = 1"
| "delta DecrementAndGet = - 1"
| "delta GetAndDecrement = - 1"

text \<open>
  \<^verbatim>\<open>IncrementAndGet\<close> and \<^verbatim>\<open>DecrementAndGet\<close> are one \<^verbatim>\<open>AddInt64\<close>; \<^verbatim>\<open>GetAndIncrement\<close> and \<^verbatim>\<open>GetAndDecrement\<close> are a
  load followed by an \<^verbatim>\<open>AddInt64\<close>.
\<close>

inductive atomic_step :: "cell_state \<Rightarrow> cell_state \<Rightarrow> bool" where
  add_get: "pcs s t = Start op \<Longrightarrow> op = IncrementAndGet \<or> op = DecrementAndGet \<Longrightarrow>
    atomic_step s (s\<lparr>cell := cell s + delta op,
                     pcs := (pcs s)(t := Done op (cell s + delta op))\<rparr>)"
| load: "pcs s t = Start op \<Longrightarrow> op = GetAndIncrement \<or> op = GetAndDecrement \<Longrightarrow>
    atomic_step s (s\<lparr>pcs := (pcs s)(t := Loaded op (cell s))\<rparr>)"
| add: "pcs s t = Loaded op v \<Longrightarrow>
    atomic_step s (s\<lparr>cell := cell s + delta op, pcs := (pcs s)(t := Done op v)\<rparr>)"

section \<open>Facts\<close>

lemma increments_spec:
  "increments n i = (i + of_nat n, map (\<lambda>k. i + of_nat (Suc k)) [0..<n])"
proof (induction n arbitrary: i)
  case (Suc n)
  have "map (\<lambda>k. i + of_nat (Suc k)) [0..<Suc n] =
      (i + 1) # map (\<lambda>k. i + 1 + of_nat (Suc k)) [0..<n]"
    by (simp only: upt_conv_Cons [of 0 "Suc n"] map_Suc_upt [symmetric]) (simp add: algebra_simps)
  with Suc show ?case by (simp add: AtomicLong_IncrementAndGet_def algebra_simps)
qed simp

text \<open>As long as the counter does not wrap, the values handed out are all different.\<close>

lemma increments_distinct:
  assumes "n < 2 ^ 64"
  shows "distinct (snd (increments n i))"
proof -
  have "inj_on (\<lambda>k. i + of_nat (Suc k)) {0..<n}"
  proof (rule inj_onI)
    fix j k :: nat
    assume jk: "j \<in> {0..<n}" "k \<in> {0..<n}" and eq: "i + of_nat (Suc j) = i + of_nat (Suc k)"
    from eq have "(of_nat j :: int64) = of_nat k" by simp
    then have "unat (of_nat j :: int64) = unat (of_nat k :: int64)" by simp
    with jk assms show "j = k" by (simp add: unat_of_nat)
  qed
  then show ?thesis by (simp add: increments_spec distinct_map)
qed

end
