(* ===== verification/Store.thy ===== *)
theory Store
  imports Node_Ops Util Atomic
begin

text \<open>
  \<^verbatim>\<open>store/store.go\<close>: the versioned tree of nodes.  Every exported operation runs under \<^verbatim>\<open>worldLock\<close>, so it
  is one step on the store state.  An operation that may panic returns the panic or its result
  together with the state it leaves behind.
\<close>

section \<open>State\<close>

text \<open>
  \<open>nodes\<close> is the tree below \<^verbatim>\<open>s.Root\<close> with the watcher table; \<open>rootNil\<close> says that \<^verbatim>\<open>Destroy\<close> has set
  \<^verbatim>\<open>s.Root\<close> to nil; \<open>cleanChan\<close> is the content of the buffered channel of paths to clean.
\<close>

record store =
  nodes :: nstate
  rootNil :: bool
  version :: int64
  cleanChan :: "string list"
  cleanClosed :: bool

definition newStore :: store where
  "newStore =
     \<lparr>nodes = \<lparr>tree = Node ''/'' '''' (Some []) [], wtab = [], sendClosed = False\<rparr>,
      rootNil = False, version = 0, cleanChan = [], cleanClosed = False\<rparr>"

definition cleanChan_cap :: nat where
  "cleanChan_cap = 100"

definition nil_deref :: panic where
  "nil_deref = Panic ''invalid memory address or nil pointer dereference''"

section \<open>Walking\<close>

text \<open>
  \<^verbatim>\<open>walk\<close> applies a function to every component but the first; empty components are skipped.
\<close>

type_synonym walkFunc = "noderef option \<Rightarrow> string \<Rightarrow> nstate \<Rightarrow> (panic + noderef option) \<times> nstate"

fun walk_loop :: "walkFunc \<Rightarrow> string list \<Rightarrow> noderef option \<Rightarrow> nstate \<Rightarrow> (panic + noderef option) \<times> nstate"
  where
  "walk_loop f [] cur st = (Inr cur, st)"
| "walk_loop f (c # cs) cur st =
     (if c = '''' then walk_loop f cs cur st
      else case f cur c st of
        (Inl e, st') \<Rightarrow> (Inl e, st')
      | (Inr None, st') \<Rightarrow> (Inr None, st')
      | (Inr (Some r), st') \<Rightarrow> walk_loop f cs (Some r) st')"

definition walk :: "string \<Rightarrow> walkFunc \<Rightarrow> store \<Rightarrow> (panic + noderef option) \<times> nstate" where
  "walk nodePath f s =
     walk_loop f (tl (strings_Split nodePath)) (if rootNil s then None else Some []) (nodes s)"

definition getWalk :: walkFunc where
  "getWalk parent name st =
     (case parent of
        None \<Rightarrow> (Inr None, st)
      | Some r \<Rightarrow>
          (case deref r st of
             None \<Rightarrow> (Inr None, st)
           | Some n \<Rightarrow>
               if \<not> IsDir n then (Inr None, st)
               else (case node_GetChild n name of
                       Some _ \<Rightarrow> (Inr (Some (name # r)), st)
                     | None \<Rightarrow> (Inr None, st))))"

definition internalGet :: "string \<Rightarrow> store \<Rightarrow> noderef option" where
  "internalGet nodePath s =
     (case fst (walk nodePath getWalk s) of Inl _ \<Rightarrow> None | Inr r \<Rightarrow> r)"

definition checkDir :: walkFunc where
  "checkDir parent dirName st =
     (if dirName = '''' then (Inr parent, st)
      else case parent of
        None \<Rightarrow> (Inl nil_deref, st)
      | Some r \<Rightarrow>
          (case Option.bind (deref r st) (\<lambda>n. node_GetChild n dirName) of
             Some _ \<Rightarrow> (Inr (Some (dirName # r)), st)
           | None \<Rightarrow>
               (case newDir dirName r st of
                  Inl e \<Rightarrow> (Inl e, st)
                | Inr (r', st') \<Rightarrow> (Inr (Some r'), st'))))"

section \<open>Operations\<close>

definition store_Get :: "string \<Rightarrow> store \<Rightarrow> int64 \<times> goval" where
  "store_Get nodePath0 s =
     (let nodePath = path_Clean (path_Join [''/'', nodePath0])
      in (version s,
          case internalGet nodePath s of
            None \<Rightarrow> VNil
          | Some r \<Rightarrow>
              (case deref r (nodes s) of
                 None \<Rightarrow> VNil
               | Some n \<Rightarrow>
                   let val = GetValue n
                   in if is_empty_map val \<and> \<not> IsRoot r then VNil else val)))"

definition internalPut :: "string \<Rightarrow> string \<Rightarrow> store \<Rightarrow> (panic + noderef option) \<times> store" where
  "internalPut nodePath value s0 =
     (let s = s0\<lparr>version := fst (AtomicLong_IncrementAndGet (version s0))\<rparr>
      in if nodePath = ''/'' then (Inr (if rootNil s then None else Some []), s)
         else
           let (dirName, nodeName) = path_Split nodePath
           in case walk dirName checkDir s of
                (Inl e, st) \<Rightarrow> (Inl e, s\<lparr>nodes := st\<rparr>)
              | (Inr d, st) \<Rightarrow>
                  if nodeName = '''' then (Inr d, s\<lparr>nodes := st\<rparr>)
                  else (case d of
                      None \<Rightarrow> (Inl nil_deref, s\<lparr>nodes := st\<rparr>)
                    | Some r \<Rightarrow>
                        (case Option.bind (deref r st) (\<lambda>n. node_GetChild n nodeName) of
                           Some _ \<Rightarrow>
                             (Inr (Some (nodeName # r)),
                              s\<lparr>nodes := node_Write (nodeName # r) value st\<rparr>)
                         | None \<Rightarrow>
                             (case newKV nodeName value r st of
                                Inl e \<Rightarrow> (Inl e, s\<lparr>nodes := st\<rparr>)
                              | Inr (r', st') \<Rightarrow> (Inr (Some r'), s\<lparr>nodes := st'\<rparr>)))))"

fun internalPutBulk :: "string \<Rightarrow> (string, string) gomap \<Rightarrow> store \<Rightarrow> (panic + unit) \<times> store" where
  "internalPutBulk nodePath [] s = (Inr (), s)"
| "internalPutBulk nodePath ((k, v) # kvs) s =
     (case internalPut (AppendPathPrefix k nodePath) v s of
        (Inl e, s') \<Rightarrow> (Inl e, s')
      | (Inr _, s') \<Rightarrow> internalPutBulk nodePath kvs s')"

definition store_Put :: "string \<Rightarrow> goval \<Rightarrow> store \<Rightarrow> (panic + unit) \<times> store" where
  "store_Put nodePath0 value s =
     (let nodePath = path_Clean (path_Join [''/'', nodePath0])
      in case value of
           VStr t \<Rightarrow> (case internalPut nodePath t s of
                        (Inl e, s') \<Rightarrow> (Inl e, s') | (Inr _, s') \<Rightarrow> (Inr (), s'))
         | VMap _ \<Rightarrow> (case Flatten value of
                        Inl e \<Rightarrow> (Inl e, s) | Inr kvs \<Rightarrow> internalPutBulk nodePath kvs s)
         | VSlice _ \<Rightarrow> (case Flatten value of
                        Inl e \<Rightarrow> (Inl e, s) | Inr kvs \<Rightarrow> internalPutBulk nodePath kvs s)
         | _ \<Rightarrow> (Inl (Panic ''Unsupport type''), s))"

definition store_PutBulk :: "string \<Rightarrow> (string, string) gomap \<Rightarrow> store \<Rightarrow> (panic + unit) \<times> store" where
  "store_PutBulk nodePath values s = internalPutBulk nodePath values s"

definition store_Delete :: "string \<Rightarrow> store \<Rightarrow> store" where
  "store_Delete nodePath0 s =
     (let nodePath = path_Clean (path_Join [''/'', nodePath0])
      in case internalGet nodePath s of
           None \<Rightarrow> s
         | Some r \<Rightarrow>
             let s' = s\<lparr>version := fst (AtomicLong_IncrementAndGet (version s))\<rparr>
             in (case deref r (nodes s') of
                   None \<Rightarrow> s'
                 | Some n \<Rightarrow> s'\<lparr>nodes := snd (node_Remove n r (nodes s'))\<rparr>))"

text \<open>\<^verbatim>\<open>Watch\<close> does not clean its path.  The result is the position of the new watcher in the table.\<close>

definition store_Watch :: "string \<Rightarrow> nat \<Rightarrow> store \<Rightarrow> (panic + nat) \<times> store" where
  "store_Watch nodePath buf s =
     (let watchAt = (\<lambda>r st. if deref r st = None then (Inl nil_deref, s\<lparr>nodes := st\<rparr>)
                            else let (i, st') = node_Watch r buf st in (Inr i, s\<lparr>nodes := st'\<rparr>))
      in if nodePath = ''/''
         then (if rootNil s then (Inl nil_deref, s) else watchAt [] (nodes s))
         else
           let (dirName, nodeName) = path_Split nodePath
           in case walk dirName checkDir s of
                (Inl e, st) \<Rightarrow> (Inl e, s\<lparr>nodes := st\<rparr>)
              | (Inr None, st) \<Rightarrow> (Inl nil_deref, s\<lparr>nodes := st\<rparr>)
              | (Inr (Some r), st) \<Rightarrow>
                  (case Option.bind (deref r st) (\<lambda>n. node_GetChild n nodeName) of
                     Some _ \<Rightarrow> watchAt (nodeName # r) st
                   | None \<Rightarrow>
                       (case newDir nodeName r st of
                          Inl e \<Rightarrow> (Inl e, s\<lparr>nodes := st\<rparr>)
                        | Inr (r', st') \<Rightarrow> watchAt r' st')))"

definition store_Version :: "store \<Rightarrow> int64" where
  "store_Version s = AtomicLong_Get (version s)"

text \<open>
  \<^verbatim>\<open>Clean\<close> queues a path for the cleaning goroutine, without blocking; sending on the channel closed
  by \<^verbatim>\<open>Destroy\<close> panics.
\<close>

definition store_Clean :: "string \<Rightarrow> store \<Rightarrow> (panic + unit) \<times> store" where
  "store_Clean nodePath s =
     (if cleanClosed s then (Inl (Panic ''send on closed channel''), s)
      else if length (cleanChan s) < cleanChan_cap
      then (Inr (), s\<lparr>cleanChan := cleanChan s @ [nodePath]\<rparr>)
      else (Inr (), s))"

text \<open>One iteration of the cleaning goroutine started by \<^verbatim>\<open>newStore\<close>; \<open>None\<close> when nothing is queued.\<close>

definition clean_step :: "store \<Rightarrow> store option" where
  "clean_step s =
     (case cleanChan s of
        [] \<Rightarrow> None
      | nodePath # rest \<Rightarrow>
          let s' = s\<lparr>cleanChan := rest\<rparr>
          in Some (case internalGet nodePath s' of
                     None \<Rightarrow> s'
                   | Some r \<Rightarrow> s'\<lparr>nodes := snd (node_Clean r (nodes s'))\<rparr>))"

definition store_Destroy :: "store \<Rightarrow> (panic + unit) \<times> store" where
  "store_Destroy s =
     (if cleanClosed s then (Inl (Panic ''close of closed channel''), s)
      else (Inr (), s\<lparr>cleanClosed := True, rootNil := True\<rparr>))"

text \<open>
  \<^verbatim>\<open>watcher.Remove\<close> with the closure \<^verbatim>\<open>w.remove\<close> that \<^verbatim>\<open>node.Watch\<close> installs: the channel is closed, which
  panics when it already is; then, unless the watcher was removed before, it is taken off the
  node's list, and the last watcher to leave queues the node for cleaning.
\<close>

definition watcher_Remove :: "nat \<Rightarrow> store \<Rightarrow> (panic + unit) \<times> store" where
  "watcher_Remove i s =
     (let st = nodes s; w = wtab st ! i
      in if length (wtab st) \<le> i then (Inl nil_deref, s)
         else if closed w then (Inl (Panic ''close of closed channel''), s)
         else
           let st1 = st\<lparr>wtab := (wtab st)[i := w\<lparr>closed := True\<rparr>]\<rparr>
           in if removed w then (Inr (), s\<lparr>nodes := st1\<rparr>)
              else
                let r = wnode w;
                    st2 = modify r (\<lambda>n. set_Watchers (remove1 i (nWatchers n)) n)
                            (st1\<lparr>wtab := (wtab st1)[i := w\<lparr>closed := True, removed := True\<rparr>]\<rparr>);
                    s2 = s\<lparr>nodes := st2\<rparr>
                in (case deref r st2 of
                      None \<Rightarrow> (Inr (), s2)
                    | Some n \<Rightarrow>
                        if nWatchers n = [] then store_Clean (node_Path r (nName (tree st2))) s2
                        else (Inr (), s2)))"

text \<open>A client takes the next event out of a watcher's channel.\<close>

definition watcher_recv :: "nat \<Rightarrow> store \<Rightarrow> (event \<times> store) option" where
  "watcher_recv i s =
     (if i < length (wtab (nodes s))
      then (case chan_recv (wtab (nodes s) ! i) of
              None \<Rightarrow> None
            | Some (e, w) \<Rightarrow>
                Some (e, s\<lparr>nodes := (nodes s)\<lparr>wtab := (wtab (nodes s))[i := w]\<rparr>\<rparr>))
      else None)"

end
