(* ===== verification/Access.thy ===== *)
theory Access
  imports GoPath
begin

text \<open>
  \<^verbatim>\<open>store/access.go\<close>: access modes and rules, the tree a list of rules is compiled to, and the store
  that keeps one tree per host.
\<close>

section \<open>Modes and rules\<close>

type_synonym AccessMode = int

definition access_begin :: AccessMode where
  "access_begin = - 2"

definition AccessModeNil :: AccessMode where
  "AccessModeNil = - 1"

definition AccessModeForbidden :: AccessMode where
  "AccessModeForbidden = 0"

definition AccessModeRead :: AccessMode where
  "AccessModeRead = 1"

definition access_end :: AccessMode where
  "access_end = 2"

lemmas access_mode_defs =
  access_begin_def AccessModeNil_def AccessModeForbidden_def AccessModeRead_def access_end_def

definition CheckAccessMode :: "AccessMode \<Rightarrow> bool" where
  "CheckAccessMode mode = (if mode \<le> access_begin \<or> mode \<ge> access_end then False else True)"

record AccessRule =
  rPath :: string
  rMode :: AccessMode

datatype access_error = InvalidMode AccessMode | PathRepeat string

text \<open>The loop of \<^verbatim>\<open>CheckAccessRules\<close>; \<open>seen\<close> is the map \<^verbatim>\<open>keys\<close>, which no statement of the loop fills.\<close>

fun CheckAccessRules_loop :: "string list \<Rightarrow> AccessRule list \<Rightarrow> access_error option" where
  "CheckAccessRules_loop seen [] = None"
| "CheckAccessRules_loop seen (r # rs) =
     (if \<not> CheckAccessMode (rMode r) then Some (InvalidMode (rMode r))
      else if rPath r \<in> set seen then Some (PathRepeat (rPath r))
      else CheckAccessRules_loop seen rs)"

definition CheckAccessRules :: "AccessRule list \<Rightarrow> access_error option" where
  "CheckAccessRules rules = CheckAccessRules_loop [] rules"

section \<open>The tree\<close>

text \<open>The parent pointer is replaced by passing the path of the parent down.\<close>

datatype accessNode = ANode (aName: string) (aMode: AccessMode) (aChildren: "accessNode list")

definition HasChild :: "accessNode \<Rightarrow> bool" where
  "HasChild n \<longleftrightarrow> length (aChildren n) > 0"

fun GetChild_loop :: "string \<Rightarrow> bool \<Rightarrow> accessNode option \<Rightarrow> accessNode list \<Rightarrow> accessNode option" where
  "GetChild_loop name strict wildcardNode [] = wildcardNode"
| "GetChild_loop name strict wildcardNode (c # cs) =
     (if name = aName c then Some c
      else GetChild_loop name strict
             (if \<not> strict \<and> aName c = ''*'' then Some c else wildcardNode) cs)"

definition access_GetChild :: "accessNode \<Rightarrow> string \<Rightarrow> bool \<Rightarrow> accessNode option" where
  "access_GetChild n name strict = GetChild_loop name strict None (aChildren n)"

text \<open>Replace the first child with the name of \<open>c\<close>: the assignment through the pointer \<^verbatim>\<open>child\<close>.\<close>

fun replace_child :: "accessNode \<Rightarrow> accessNode list \<Rightarrow> accessNode list" where
  "replace_child c [] = []"
| "replace_child c (d # ds) = (if aName d = aName c then c # ds else d # replace_child c ds)"

text \<open>
  The inner loop of \<^verbatim>\<open>NewAccessTree\<close> moves \<^verbatim>\<open>cur\<close> down, creating missing nodes, and then sets
  \<^verbatim>\<open>cur.Mode\<close>; the recursion rebuilds the nodes on the way back.
\<close>

fun add_components :: "string list \<Rightarrow> AccessMode \<Rightarrow> accessNode \<Rightarrow> accessNode" where
  "add_components [] mode cur = ANode (aName cur) mode (aChildren cur)"
| "add_components (component # cs) mode cur =
     (if component = '''' then add_components cs mode cur
      else case access_GetChild cur component True of
        None \<Rightarrow>
          ANode (aName cur) (aMode cur)
            (aChildren cur @ [add_components cs mode (ANode component AccessModeNil [])])
      | Some child \<Rightarrow>
          ANode (aName cur) (aMode cur)
            (replace_child (add_components cs mode child) (aChildren cur)))"

definition add_rule :: "AccessRule \<Rightarrow> accessNode \<Rightarrow> accessNode" where
  "add_rule rule root =
     (if rPath rule \<noteq> ''/'' then add_components (strings_Split (rPath rule)) (rMode rule) root
      else ANode (aName root) (rMode rule) (aChildren root))"

definition NewAccessTree :: "AccessRule list \<Rightarrow> accessNode" where
  "NewAccessTree rules = fold add_rule rules (ANode ''/'' AccessModeNil [])"

text \<open>\<^verbatim>\<open>toAccessRule\<close> on a node with the given path.\<close>

fun toAccessRule :: "string \<Rightarrow> accessNode \<Rightarrow> AccessRule list \<Rightarrow> AccessRule list" where
  "toAccessRule p (ANode name mode cs) rules =
     (let rules1 = (if mode \<noteq> AccessModeNil then rules @ [\<lparr>rPath = p, rMode = mode\<rparr>] else rules)
      in fold (\<lambda>child. toAccessRule (path_Join [p, aName child]) child) cs rules1)"

definition ToAccessRule :: "accessNode \<Rightarrow> AccessRule list" where
  "ToAccessRule root = toAccessRule (aName root) root []"

section \<open>The store of trees\<close>

type_synonym accessStore = "(string, accessNode) gomap"

definition NewAccessStore :: accessStore where
  "NewAccessStore = []"

definition accessStore_Delete :: "string \<Rightarrow> accessStore \<Rightarrow> accessStore" where
  "accessStore_Delete host s = AList.delete host s"

definition accessStore_Get :: "string \<Rightarrow> accessStore \<Rightarrow> accessNode option" where
  "accessStore_Get host s = map_of s host"

definition accessStore_Put :: "string \<Rightarrow> AccessRule list \<Rightarrow> accessStore \<Rightarrow> accessStore" where
  "accessStore_Put host rules s = AList.update host (NewAccessTree rules) s"

definition accessStore_Puts :: "(string, AccessRule list) gomap \<Rightarrow> accessStore \<Rightarrow> accessStore" where
  "accessStore_Puts rules s = fold (\<lambda>(k, v). AList.update k (NewAccessTree v)) rules s"

definition accessStore_GetAccessRule :: "string list \<Rightarrow> accessStore \<Rightarrow> (string, AccessRule list) gomap" where
  "accessStore_GetAccessRule hosts s =
     (if length hosts = 0
      then fold (\<lambda>(k, v). AList.update k (ToAccessRule v)) s []
      else fold (\<lambda>host result.
             if host = '''' then result
             else case map_of s host of
                    None \<Rightarrow> result
                  | Some t \<Rightarrow> AList.update host (ToAccessRule t) result) hosts [])"

end
