(* ===== verification/Traveller.thy ===== *)
theory Traveller
  imports Store Access
begin

text \<open>
  \<^verbatim>\<open>store/traveller.go\<close>: a cursor that walks the node tree and an access tree side by side.  The
  traveller holds the read lock of the store from \<^verbatim>\<open>newTraveller\<close> to \<^verbatim>\<open>Close\<close>, so the store is a constant
  argument of its methods.  Its own fields are a record; \<open>tOpen\<close> says that \<^verbatim>\<open>t.store\<close> is not nil.
\<close>

section \<open>The stack\<close>

record stackElement =
  seNode :: "accessNode option"
  seMode :: AccessMode

type_synonym travellerStack = "stackElement list"

definition stack_Push :: "stackElement \<Rightarrow> travellerStack \<Rightarrow> travellerStack" where
  "stack_Push v s = s @ [v]"

definition stack_Pop :: "travellerStack \<Rightarrow> stackElement option \<times> travellerStack" where
  "stack_Pop s = (if length s = 0 then (None, s) else (Some (s ! (length s - 1)), take (length s - 1) s))"

definition stack_Clean :: "travellerStack \<Rightarrow> travellerStack" where
  "stack_Clean s = []"

section \<open>The traveller\<close>

text \<open>\<open>currNode\<close> is \<open>None\<close> for a nil pointer, as after \<^verbatim>\<open>Close\<close> or over a destroyed store.\<close>

record nodeTraveller =
  tOpen :: bool
  access :: "accessNode option"
  currNode :: "noderef option"
  currAccessNode :: "accessNode option"
  currMode :: AccessMode
  stack :: travellerStack

definition newTraveller :: "store \<Rightarrow> accessNode \<Rightarrow> nodeTraveller" where
  "newTraveller s accessTree =
     \<lparr>tOpen = True, access = Some accessTree, currNode = (if rootNil s then None else Some []),
      currAccessNode = Some accessTree, currMode = aMode accessTree, stack = []\<rparr>"

definition closed_panic :: panic where
  "closed_panic = Panic ''illegal status: access a closed traveller.''"

definition illegal_panic :: panic where
  "illegal_panic = Panic ''illegal status''"

definition traveller_enter1 :: "store \<Rightarrow> string \<Rightarrow> nodeTraveller \<Rightarrow> panic + bool \<times> nodeTraveller" where
  "traveller_enter1 s node t =
     (if node = ''/'' then Inr (True, t)
      else case currNode t of
        None \<Rightarrow> Inl nil_deref
      | Some r \<Rightarrow>
          (case Option.bind (deref r (nodes s)) (\<lambda>n. node_GetChild n node) of
             None \<Rightarrow> Inr (False, t)
           | Some n \<Rightarrow>
               let an = (case currAccessNode t of
                           None \<Rightarrow> None
                         | Some a \<Rightarrow> access_GetChild a node False);
                   result = (case an of
                               Some a \<Rightarrow> HasChild a \<or> aMode a \<ge> AccessModeRead
                             | None \<Rightarrow> currMode t \<ge> AccessModeRead)
               in if result
                  then Inr (True, t\<lparr>stack := stack_Push \<lparr>seNode = currAccessNode t, seMode = currMode t\<rparr> (stack t),
                                    currNode := Some (node # r),
                                    currAccessNode := an,
                                    currMode := (case an of
                                                   Some a \<Rightarrow> if aMode a \<noteq> AccessModeNil then aMode a else currMode t
                                                 | None \<Rightarrow> currMode t)\<rparr>)
                  else Inr (False, t)))"

definition traveller_Back :: "nodeTraveller \<Rightarrow> panic + nodeTraveller" where
  "traveller_Back t =
     (if \<not> tOpen t then Inl closed_panic
      else case currNode t of
        None \<Rightarrow> Inl nil_deref
      | Some r \<Rightarrow>
          if IsRoot r then Inl illegal_panic
          else (case stack_Pop (stack t) of
                  (None, _) \<Rightarrow> Inl illegal_panic
                | (Some e, st) \<Rightarrow>
                    Inr (t\<lparr>stack := st, currNode := Some (tl r), currMode := seMode e,
                           currAccessNode := seNode e\<rparr>)))"

fun traveller_BackStep :: "nat \<Rightarrow> nodeTraveller \<Rightarrow> panic + nodeTraveller" where
  "traveller_BackStep 0 t = Inr t"
| "traveller_BackStep (Suc n) t =
     (case traveller_Back t of Inl e \<Rightarrow> Inl e | Inr t' \<Rightarrow> traveller_BackStep n t')"

text \<open>The loop of \<^verbatim>\<open>Enter\<close> over the components, with the number of steps taken so far.\<close>

fun enter_loop :: "store \<Rightarrow> string list \<Rightarrow> nat \<Rightarrow> nodeTraveller \<Rightarrow> panic + bool \<times> nodeTraveller" where
  "enter_loop s [] step t = Inr (True, t)"
| "enter_loop s (c # cs) step t =
     (if c = '''' then enter_loop s cs step t
      else case traveller_enter1 s c t of
        Inl e \<Rightarrow> Inl e
      | Inr (True, t') \<Rightarrow> enter_loop s cs (step + 1) t'
      | Inr (False, t') \<Rightarrow>
          (case traveller_BackStep step t' of Inl e \<Rightarrow> Inl e | Inr t'' \<Rightarrow> Inr (False, t'')))"

definition traveller_Enter :: "store \<Rightarrow> string \<Rightarrow> nodeTraveller \<Rightarrow> panic + bool \<times> nodeTraveller" where
  "traveller_Enter s path t =
     (if \<not> tOpen t then Inl closed_panic
      else if path = ''/'' then traveller_enter1 s path t
      else enter_loop s (strings_Split path) 0 t)"

definition traveller_BackToRoot :: "store \<Rightarrow> nodeTraveller \<Rightarrow> panic + nodeTraveller" where
  "traveller_BackToRoot s t =
     (if \<not> tOpen t then Inl closed_panic
      else case access t of
        None \<Rightarrow> Inl nil_deref
      | Some root \<Rightarrow>
          Inr (t\<lparr>stack := stack_Clean (stack t), currNode := (if rootNil s then None else Some []),
                 currAccessNode := Some root, currMode := aMode root\<rparr>))"

text \<open>
  \<^verbatim>\<open>GetValue\<close> calls itself through \<^verbatim>\<open>Enter\<close>.  The fuel bounds the depth of the calls; the height of the
  tree is enough, and \<open>None\<close> would mean it was not.
\<close>

fun GetValue_fuel :: "nat \<Rightarrow> store \<Rightarrow> nodeTraveller \<Rightarrow> (panic + goval \<times> nodeTraveller) option"
  and GetValue_children :: "nat \<Rightarrow> store \<Rightarrow> (string \<times> string) list \<Rightarrow> (string \<times> goval) list \<Rightarrow> nodeTraveller
    \<Rightarrow> (panic + goval \<times> nodeTraveller) option" where
  "GetValue_fuel 0 s t = None"
| "GetValue_fuel (Suc fuel) s t =
     (if \<not> tOpen t then Some (Inl closed_panic)
      else case currNode t of
        None \<Rightarrow> Some (Inl (Panic ''illegal status.''))
      | Some r \<Rightarrow>
          (case deref r (nodes s) of
             None \<Rightarrow> Some (Inl nil_deref)
           | Some n \<Rightarrow>
               (case nChildren n of
                  None \<Rightarrow> Some (Inr (VStr (nValue n), t))
                | Some cs \<Rightarrow> GetValue_children fuel s (map (\<lambda>(k, c). (k, nName c)) cs) [] t)))"
| "GetValue_children fuel s [] values t = Some (Inr (VMap values, t))"
| "GetValue_children fuel s ((k, name) # ks) values t =
     (case traveller_Enter s name t of
        Inl e \<Rightarrow> Some (Inl e)
      | Inr (False, t1) \<Rightarrow> GetValue_children fuel s ks values t1
      | Inr (True, t1) \<Rightarrow>
          (case GetValue_fuel fuel s t1 of
             None \<Rightarrow> None
           | Some (Inl e) \<Rightarrow> Some (Inl e)
           | Some (Inr (v, t2)) \<Rightarrow>
               (case traveller_Back t2 of
                  Inl e \<Rightarrow> Some (Inl e)
                | Inr t3 \<Rightarrow>
                    if is_empty_map v then GetValue_children fuel s ks values t3
                    else GetValue_children fuel s ks (AList.update k v values) t3)))"

fun height :: "node \<Rightarrow> nat" where
  "height (Node nm v cs ws) =
     (case cs of None \<Rightarrow> 0 | Some l \<Rightarrow> Suc (foldr (\<lambda>kc. max (height (snd kc))) l 0))"

definition traveller_GetValue :: "store \<Rightarrow> nodeTraveller \<Rightarrow> (panic + goval \<times> nodeTraveller) option" where
  "traveller_GetValue s t = GetValue_fuel (Suc (height (tree (nodes s)))) s t"

definition traveller_GetVersion :: "store \<Rightarrow> nodeTraveller \<Rightarrow> panic + int64" where
  "traveller_GetVersion s t = (if \<not> tOpen t then Inl closed_panic else Inr (store_Version s))"

definition traveller_Close :: "nodeTraveller \<Rightarrow> panic + nodeTraveller" where
  "traveller_Close t =
     (if \<not> tOpen t then Inl closed_panic
      else Inr (t\<lparr>access := None, currAccessNode := None, currNode := None, tOpen := False\<rparr>))"

end
