(* ===== verification/Store_Map.thy ===== *)
theory Store_Map
  imports Store
begin

text \<open>
  The abstract store: a map from paths to attributes, with the operations as updates of that map,
  and the lemmas that the operations of \<^verbatim>\<open>store/store.go\<close> implement them.
\<close>

section \<open>Abstract operations\<close>

type_synonym amap = "string list \<Rightarrow> attr option"

definition as_dir :: "attr \<Rightarrow> attr" where
  "as_dir a = Attr (aval a) True (awat a)"

text \<open>Make every node on the way to \<open>p\<close> a directory, and \<open>p\<close> a directory if nothing is there.\<close>

definition mkdir_abs :: "string list \<Rightarrow> amap \<Rightarrow> amap" where
  "mkdir_abs p D q =
     (if within q p then
        (case D q of
           None \<Rightarrow> Some (Attr '''' True [])
         | Some a \<Rightarrow> if q = p then Some a else Some (as_dir a))
      else D q)"

text \<open>
  Store a text at \<open>p\<close>: the nodes above become directories; a node that has children stays a
  directory and keeps the text as its own value.
\<close>

definition put_abs :: "string list \<Rightarrow> string \<Rightarrow> amap \<Rightarrow> amap" where
  "put_abs p v D q =
     (if q = p then
        (case D p of
           None \<Rightarrow> Some (Attr v False [])
         | Some a \<Rightarrow> Some (Attr v (adir a \<and> \<not> childless D p) (awat a)))
      else if within q p then
        (case D q of None \<Rightarrow> Some (Attr '''' True []) | Some a \<Rightarrow> Some (as_dir a))
      else D q)"

text \<open>Register a watcher at \<open>p\<close>, creating the node if needed.\<close>

definition watch_abs :: "string list \<Rightarrow> nat \<Rightarrow> amap \<Rightarrow> amap" where
  "watch_abs p i D =
     (mkdir_abs p D)(p := map_option (\<lambda>a. Attr (aval a) (adir a) (awat a @ [i])) (mkdir_abs p D p))"

text \<open>The components of a directory string that \<^verbatim>\<open>walk\<close> visits, and the node a path string denotes.\<close>

definition walk_elems :: "string \<Rightarrow> string list" where
  "walk_elems p = filter (\<lambda>w. w \<noteq> '''') (tl (strings_Split p))"

definition put_target :: "string \<Rightarrow> string list option" where
  "put_target p =
     (if snd (path_Split p) = '''' then None
      else Some (walk_elems (fst (path_Split p)) @ [snd (path_Split p)]))"

section \<open>Path strings\<close>

lemma walk_elems_slash: "walk_elems (CHR ''/'' # p) = segs p"
  by (simp add: walk_elems_def segs_def)

lemma walk_elems_seg: "w \<in> set (walk_elems p) \<Longrightarrow> seg w"
  using list.set_sel(2) [OF strings_Split_nonempty] strings_Split_no_slash [of w p]
  by (auto simp: walk_elems_def seg_def)

lemma path_Split_snd_no_slash: "CHR ''/'' \<notin> set (snd (path_Split p))"
  by (auto simp: path_Split_def Let_def dest: set_takeWhileD)

lemma put_target_abs:
  assumes "\<forall>e\<in>set ds. seg e" and "seg n"
  shows "put_target (abs_path (ds @ [n])) = Some (ds @ [n])"
proof -
  have "\<exists>b. fst (path_Split (abs_path (ds @ [n]))) = CHR ''/'' # b"
    unfolding path_Split_abs_path [OF assms(2)] by (simp add: abs_path_def)
  then have "walk_elems (fst (path_Split (abs_path (ds @ [n])))) =
      segs (fst (path_Split (abs_path (ds @ [n]))))"
    by (auto simp: walk_elems_slash)
  then show ?thesis
    using assms segs_Split_dir [OF assms]
    by (simp add: put_target_def path_Split_abs_path seg_def)
qed

lemma put_target_canon:
  "\<forall>e\<in>set es. canon e \<Longrightarrow> es \<noteq> [] \<Longrightarrow> put_target (abs_path es) = Some es"
  using put_target_abs [of "butlast es" "last es"]
  by (simp add: in_set_butlastD)

section \<open>Walking\<close>

lemma walk_loop_skip:
  "walk_loop f cs cur st = walk_loop f (filter (\<lambda>w. w \<noteq> '''') cs) cur st"
  by (induction cs arbitrary: cur st) (auto split: prod.splits sum.splits option.splits)

lemma walk_eq: "walk p f s =
    walk_loop f (walk_elems p) (if rootNil s then None else Some []) (nodes s)"
  by (simp add: walk_def walk_elems_def walk_loop_skip [of f "tl (strings_Split p)"])

lemma get_loop:
  assumes "deref r st \<noteq> None" and "\<forall>w\<in>set cs. w \<noteq> ''''"
  shows "walk_loop getWalk cs (Some r) st =
    (Inr (if amap st (rev r @ cs) = None then None else Some (rev cs @ r)), st)"
  using assms
proof (induction cs arbitrary: r)
  case Nil
  then show ?case by (simp add: amap_deref)
next
  case (Cons x xs)
  from Cons.prems obtain n where n: "deref r st = Some n" by auto
  show ?case
  proof (cases "map_of (kids n) x")
    case None
    then have "amap st (rev r @ [x]) = None"
      using n by (simp add: flat_def lookup_path_snoc deref_def)
    then have "amap st ((rev r @ [x]) @ xs) = None"
      using flat_prefix_closed [of "tree st" "rev r @ [x]" xs] by blast
    then show ?thesis
      using None n Cons.prems by (simp add: getWalk_def node_GetChild_kids)
  next
    case (Some c)
    then have "deref (x # r) st = Some c"
      using n by (simp add: deref_def lookup_path_snoc)
    moreover have "IsDir n" using Some by (rule IsDir_kids)
    ultimately show ?thesis
      using Cons.IH [of "x # r"] Cons.prems n Some by (simp add: getWalk_def node_GetChild_kids)
  qed
qed

lemma deref_root [simp]: "deref [] st = Some (tree st)"
  by (simp add: deref_def)

lemma amap_root [simp]: "amap st [] = Some (attr_of (tree st))"
  by (simp add: flat_def)

lemma internalGet_eq:
  "internalGet p s =
    (if rootNil s then None
     else if amap (nodes s) (walk_elems p) = None then None else Some (rev (walk_elems p)))"
proof (cases "rootNil s")
  case True
  have "fst (walk_loop getWalk cs None st) = Inr None" for cs st
    by (induction cs) (simp_all add: getWalk_def)
  with True show ?thesis by (simp add: internalGet_def walk_eq)
next
  case False
  have "\<forall>w\<in>set (walk_elems p). w \<noteq> ''''" by (auto simp: walk_elems_def)
  with False show ?thesis
    using get_loop [of "[]" "nodes s" "walk_elems p"] by (simp add: internalGet_def walk_eq)
qed

lemma internalGet_abs_path:
  assumes "\<forall>e\<in>set es. seg e" and "\<not> rootNil s"
  shows "internalGet (abs_path es) s = (if amap (nodes s) es = None then None else Some (rev es))"
  using assms segs_abs_path [OF assms(1)]
  by (simp add: internalGet_eq abs_path_def walk_elems_slash)

lemma mkdir_abs_existing:
  assumes "amap st p \<noteq> None"
  shows "mkdir_abs p (amap st) = amap st"
proof
  fix q
  show "mkdir_abs p (amap st) q = amap st q"
  proof (cases "within q p \<and> q \<noteq> p")
    case True
    then obtain x xs where "p = (q @ [x]) @ xs"
      by (metis append.assoc append_Cons append_Nil append_Nil2 list.exhaust prefixE)
    then have "amap st (q @ [x]) \<noteq> None" using assms flat_prefix_closed by blast
    then obtain v ws where "amap st q = Some (Attr v True ws)"
      using flat_parent_dir by blast
    with True show ?thesis by (simp add: mkdir_abs_def as_dir_def)
  next
    case False
    with assms show ?thesis by (auto simp: mkdir_abs_def)
  qed
qed

lemma mkdir_abs_step:
  assumes "amap st (p @ [x]) = None"
  shows "mkdir_abs (p @ x # xs)
      ((amap st)(p := map_option (\<lambda>a. Attr (aval a) True (awat a)) (amap st p),
        p @ [x] := Some (Attr '''' True []))) =
    mkdir_abs (p @ x # xs) (amap st)"
  using assms by (auto simp: mkdir_abs_def as_dir_def fun_eq_iff split: option.splits)

lemma checkDir_loop:
  assumes "deref r st \<noteq> None" and "\<forall>w\<in>set ds. seg w"
  shows "\<exists>st'. walk_loop checkDir ds (Some r) st = (Inr (Some (rev ds @ r)), st') \<and> calm st st' \<and>
    amap st' = mkdir_abs (rev r @ ds) (amap st)"
  using assms
proof (induction ds arbitrary: r st)
  case Nil
  then show ?case by (simp add: mkdir_abs_existing amap_deref)
next
  case (Cons x xs)
  from Cons.prems obtain n where n: "deref r st = Some n" by auto
  have sx: "seg x" "x \<noteq> ''''" using Cons.prems(2) by (auto simp: seg_def)
  show ?case
  proof (cases "map_of (kids n) x")
    case (Some c)
    then have "deref (x # r) st = Some c"
      using n by (simp add: deref_def lookup_path_snoc)
    with Some n sx Cons.prems show ?thesis
      using Cons.IH [of "x # r" st] by (simp add: checkDir_def node_GetChild_kids)
  next
    case None
    obtain st1 where st1: "newDir x r st = Inr (x # r, st1)" "calm st st1"
      "amap st1 = (amap st)(rev r := map_option (\<lambda>a. Attr (aval a) True (awat a)) (amap st (rev r)),
        rev r @ [x] := Some (Attr '''' True []))"
      using newDir_effect [OF n None sx(1)] by blast
    have "amap st1 (rev (x # r)) \<noteq> None" using st1(3) by simp
    then have "deref (x # r) st1 \<noteq> None" by (simp only: amap_deref) simp
    then obtain st2 where st2: "walk_loop checkDir xs (Some (x # r)) st1 =
        (Inr (Some (rev xs @ x # r)), st2)" "calm st1 st2"
      "amap st2 = mkdir_abs (rev (x # r) @ xs) (amap st1)"
      using Cons.IH [of "x # r" st1] Cons.prems(2) by auto
    have "amap st (rev r @ [x]) = None"
      using n None by (simp add: flat_def lookup_path_snoc deref_def)
    then have "amap st2 = mkdir_abs (rev r @ x # xs) (amap st)"
      using st2(3) st1(3) mkdir_abs_step by simp
    moreover have "walk_loop checkDir (x # xs) (Some r) st = (Inr (Some (rev xs @ x # r)), st2)"
      using n None sx st1(1) st2(1) by (simp add: checkDir_def node_GetChild_kids)
    ultimately show ?thesis using st1(2) st2(2) calm_trans by auto
  qed
qed

lemma walk_checkDir:
  assumes "\<not> rootNil s"
  obtains st' where "walk p checkDir s = (Inr (Some (rev (walk_elems p))), st')"
    "calm (nodes s) st'" "amap st' = mkdir_abs (walk_elems p) (amap (nodes s))"
proof -
  have "\<forall>w\<in>set (walk_elems p). seg w" by (blast intro: walk_elems_seg)
  then show thesis
    using that checkDir_loop [of "[]" "nodes s" "walk_elems p"] assms by (auto simp: walk_eq)
qed

section \<open>Put\<close>

lemma put_abs_write:
  assumes "D (ds @ [n]) = Some a" and "D = amap st"
  shows "(mkdir_abs ds D)(ds @ [n] \<mapsto> Attr v (adir a \<and> \<not> childless (mkdir_abs ds D) (ds @ [n])) (awat a))
    = put_abs (ds @ [n]) v D"
proof -
  have "D ds \<noteq> None" using assms flat_prefix_closed [of "tree st" ds "[n]"] by simp
  then have m: "mkdir_abs ds D = D" using mkdir_abs_existing assms(2) by blast
  have m': "mkdir_abs (ds @ [n]) D = D" using mkdir_abs_existing [of st "ds @ [n]"] assms by simp
  then have "D q = (case D q of None \<Rightarrow> Some (Attr '''' True []) | Some a \<Rightarrow> Some (as_dir a))"
    if "within q (ds @ [n])" "q \<noteq> ds @ [n]" for q
    using that fun_cong [OF m', of q] unfolding mkdir_abs_def
    by (simp only: if_True if_False simp_thms)
  then show ?thesis
    unfolding m using assms(1) by (auto simp: put_abs_def fun_eq_iff)
qed

lemma put_abs_new:
  assumes "D (ds @ [n]) = None"
  shows "(mkdir_abs ds D)(ds := map_option (\<lambda>a. Attr (aval a) True (awat a)) (mkdir_abs ds D ds),
      ds @ [n] := Some (Attr v False [])) = put_abs (ds @ [n]) v D"
  using assms by (auto simp: put_abs_def mkdir_abs_def as_dir_def fun_eq_iff split: option.splits)

text \<open>\<^verbatim>\<open>internalPut\<close> on any path string: it never panics, counts one version and refines \<open>put_abs\<close>.\<close>

lemma internalPut_effect:
  assumes "\<not> rootNil s"
  shows "\<exists>r st'. internalPut p v s = (Inr (Some r), s\<lparr>version := version s + 1, nodes := st'\<rparr>) \<and>
    calm (nodes s) st' \<and>
    amap st' = (case put_target p of
        None \<Rightarrow> mkdir_abs (walk_elems (fst (path_Split p))) (amap (nodes s))
      | Some q \<Rightarrow> put_abs q v (amap (nodes s)))"
proof (cases "p = ''/''")
  case True
  have "path_Split ''/'' = (''/'', '''')" using path_Split_append [of "''''" "''''"] by simp
  moreover have "mkdir_abs [] (amap (nodes s)) = amap (nodes s)"
    by (rule mkdir_abs_existing) simp
  ultimately show ?thesis
    using True assms
    by (intro exI [of _ "[]"] exI [of _ "nodes s"])
      (simp add: internalPut_def AtomicLong_IncrementAndGet_def put_target_def walk_elems_slash)
next
  case False
  let ?s = "s\<lparr>version := version s + 1\<rparr>"
  obtain d n where dn: "path_Split p = (d, n)" by force
  obtain st1 where w: "walk d checkDir ?s = (Inr (Some (rev (walk_elems d))), st1)"
    and c1: "calm (nodes s) st1" and a1: "amap st1 = mkdir_abs (walk_elems d) (amap (nodes s))"
    using walk_checkDir [of ?s d] assms by auto
  let ?r = "rev (walk_elems d)"
  show ?thesis
  proof (cases "n = ''''")
    case True
    then show ?thesis
      using False dn w c1 a1
      by (intro exI [of _ ?r] exI [of _ st1])
        (simp add: internalPut_def AtomicLong_IncrementAndGet_def Let_def put_target_def)
  next
    case nn: False
    then have sn: "seg n" using path_Split_snd_no_slash [of p] dn by (simp add: seg_def)
    have t: "put_target p = Some (walk_elems d @ [n])" using nn dn by (simp add: put_target_def)
    have "amap st1 (rev ?r) \<noteq> None" by (simp add: a1 mkdir_abs_def split: option.splits)
    then obtain m where m: "deref ?r st1 = Some m" unfolding amap_deref by auto
    have nd: "amap st1 (walk_elems d @ [n]) = amap (nodes s) (walk_elems d @ [n])"
      by (simp add: a1 mkdir_abs_def)
    show ?thesis
    proof (cases "map_of (kids m) n")
      case None
      obtain st2 where st2: "newKV n v ?r st1 = Inr (n # ?r, st2)" "calm st1 st2"
        "amap st2 = (amap st1)(rev ?r := map_option (\<lambda>a. Attr (aval a) True (awat a)) (amap st1 (rev ?r)),
          rev ?r @ [n] := Some (Attr v False []))"
        using newKV_effect [OF m None sn] by blast
      have "amap (nodes s) (walk_elems d @ [n]) = None"
        using nd None m by (simp add: flat_def lookup_path_snoc deref_def)
      then have "amap st2 = put_abs (walk_elems d @ [n]) v (amap (nodes s))"
        using st2(3) put_abs_new [of "amap (nodes s)" "walk_elems d" n v] by (simp add: a1)
      with st2(1,2) show ?thesis
        using False nn dn w c1 m None t calm_trans
        by (intro exI [of _ "n # ?r"] exI [of _ st2])
          (auto simp: internalPut_def AtomicLong_IncrementAndGet_def Let_def node_GetChild_kids)
    next
      case (Some k)
      then have "deref (n # ?r) st1 = Some k" using m by (simp add: deref_def lookup_path_snoc)
      then have ak: "amap st1 (rev (n # ?r)) = Some (attr_of k)" by (rule deref_amap)
      let ?st2 = "node_Write (n # ?r) v st1"
      have "amap ?st2 = put_abs (walk_elems d @ [n]) v (amap (nodes s))"
        using amap_node_Write [of "n # ?r" st1 "nValue k" "IsDir k" "nWatchers k" v] ak nd
          put_abs_write [of "amap (nodes s)" "walk_elems d" n "attr_of k" "nodes s" v]
        by (simp add: a1 attr_of_def)
      moreover have "calm (nodes s) ?st2" using c1 calm_node_Write calm_trans by blast
      ultimately show ?thesis
        using False nn dn w m Some t
        by (intro exI [of _ "n # ?r"] exI [of _ ?st2])
          (auto simp: internalPut_def AtomicLong_IncrementAndGet_def Let_def node_GetChild_kids)
    qed
  qed
qed

text \<open>Several puts in a row, as \<^verbatim>\<open>internalPutBulk\<close> performs them.\<close>

definition put_str :: "string \<Rightarrow> string \<Rightarrow> amap \<Rightarrow> amap" where
  "put_str p v D =
     (case put_target p of
        None \<Rightarrow> mkdir_abs (walk_elems (fst (path_Split p))) D
      | Some q \<Rightarrow> put_abs q v D)"

lemma internalPutBulk_effect:
  assumes "\<not> rootNil s"
  shows "\<exists>st'. internalPutBulk p kvs s =
      (Inr (), s\<lparr>version := version s + of_nat (length kvs), nodes := st'\<rparr>) \<and>
    calm (nodes s) st' \<and>
    amap st' = fold (\<lambda>(k, v). put_str (AppendPathPrefix k p) v) kvs (amap (nodes s))"
  using assms
proof (induction kvs arbitrary: s)
  case Nil
  then show ?case by (intro exI [of _ "nodes s"]) simp
next
  case (Cons kv kvs)
  obtain k v where kv: "kv = (k, v)" by force
  obtain r st1 where st1: "internalPut (AppendPathPrefix k p) v s =
      (Inr (Some r), s\<lparr>version := version s + 1, nodes := st1\<rparr>)" "calm (nodes s) st1"
    "amap st1 = put_str (AppendPathPrefix k p) v (amap (nodes s))"
    using internalPut_effect [OF Cons.prems, of "AppendPathPrefix k p" v] unfolding put_str_def by blast
  obtain st2 where st2: "internalPutBulk p kvs (s\<lparr>version := version s + 1, nodes := st1\<rparr>) =
      (Inr (), s\<lparr>version := version s + 1 + of_nat (length kvs), nodes := st2\<rparr>)" "calm st1 st2"
    "amap st2 = fold (\<lambda>(k, v). put_str (AppendPathPrefix k p) v) kvs (amap st1)"
    using Cons.IH [of "s\<lparr>version := version s + 1, nodes := st1\<rparr>"] Cons.prems by auto
  show ?case
    using st1 st2 calm_trans
    by (intro exI [of _ st2]) (auto simp: kv algebra_simps)
qed

section \<open>Canonical paths\<close>

lemma clean_join_root: "path_Clean (path_Join [''/'', p]) = abs_path (path_elems p)"
  by (simp add: path_simps)

lemma walk_elems_abs_path:
  "\<forall>e\<in>set es. seg e \<Longrightarrow> walk_elems (abs_path es) = es"
  by (simp add: abs_path_def walk_elems_slash segs_Join)

lemma path_elems_seg [simp]: "\<forall>e\<in>set (path_elems p). seg e"
  using path_elems_canon canon_seg by blast

lemma put_str_abs_path:
  assumes "\<forall>e\<in>set es. canon e" and "D [] \<noteq> None"
  shows "put_str (abs_path es) v D = (if es = [] then D else put_abs es v D)"
proof (cases "es = []")
  case True
  have "path_Split ''/'' = (''/'', '''')" using path_Split_append [of "''''" "''''"] by simp
  with True assms(2) show ?thesis
    by (auto simp: put_str_def put_target_def walk_elems_slash mkdir_abs_def fun_eq_iff)
next
  case False
  with assms(1) show ?thesis by (simp add: put_str_def put_target_canon)
qed

text \<open>The elements of a bulk key under its base path.\<close>

definition bulk_elems :: "string \<Rightarrow> string \<Rightarrow> string list" where
  "bulk_elems base k = path_elems (strings_Join (path_elems base) @ ''/'' @ k)"

lemma bulk_elems_canon: "\<forall>e\<in>set (bulk_elems base k). canon e"
  by (simp add: bulk_elems_def)

lemma AppendPathPrefix_abs:
  "strings_TrimSpace k \<noteq> '''' \<Longrightarrow> AppendPathPrefix k base = abs_path (bulk_elems base k)"
  by (simp add: AppendPathPrefix_def path_Join_root path_Join_abs bulk_elems_def path_Clean_abs_path)

section \<open>Delete and clean\<close>

lemma store_Delete_missing:
  assumes "\<not> rootNil s" and "amap (nodes s) (path_elems p) = None"
  shows "store_Delete p s = s"
  using assms by (simp add: store_Delete_def clean_join_root internalGet_abs_path)

lemma store_Delete_effect:
  assumes "\<not> rootNil s" and "amap (nodes s) (path_elems p) \<noteq> None"
    and "node_ok (tree (nodes s))" and "root_ok (nodes s)"
  shows "\<exists>st'. store_Delete p s = s\<lparr>version := version s + 1, nodes := st'\<rparr> \<and>
    purged (rev (path_elems p)) (nodes s) st'"
proof -
  let ?r = "rev (path_elems p)"
  from assms(2) obtain n where n: "deref ?r (nodes s) = Some n"
    using amap_deref [of "nodes s" ?r] by auto
  then have "node_ok n" using assms(3) node_ok_lookup by (auto simp: deref_def)
  moreover have "?r = [] \<Longrightarrow> IsDir n" using n assms(4) by (auto simp: root_ok_def)
  ultimately have "purged ?r (nodes s) (snd (node_Remove n ?r (nodes s)))"
    using purged_node_Remove [OF n] by blast
  with n show ?thesis
    using assms(1,2)
    by (auto simp: store_Delete_def clean_join_root internalGet_abs_path
        AtomicLong_IncrementAndGet_def)
qed

lemma clean_step_effect:
  assumes "clean_step s = Some s'"
  shows "\<exists>r st'. s' = s\<lparr>cleanChan := tl (cleanChan s), nodes := st'\<rparr> \<and> cleaned r (nodes s) st'"
proof -
  obtain p ps where c: "cleanChan s = p # ps"
    using assms by (cases "cleanChan s") (auto simp: clean_step_def)
  let ?s = "s\<lparr>cleanChan := ps\<rparr>"
  show ?thesis
  proof (cases "internalGet p ?s")
    case None
    with assms c have "s' = ?s" by (simp add: clean_step_def)
    also have "\<dots> = s\<lparr>cleanChan := tl (cleanChan s), nodes := nodes s\<rparr>" using c by simp
    finally show ?thesis using cleaned_refl by blast
  next
    case (Some r)
    with assms c have "s' = s\<lparr>cleanChan := tl (cleanChan s), nodes := snd (node_Clean r (nodes s))\<rparr>"
      by (simp add: clean_step_def)
    then show ?thesis using cleaned_node_Clean by blast
  qed
qed

section \<open>Watch\<close>

lemma node_ok_no_empty_child: "node_ok n \<Longrightarrow> map_of (kids n) '''' = None"
  using node_ok_child [of n "''''"] by (cases "map_of (kids n) ''''") (auto simp: seg_def)

lemma mkdir_abs_watch_new:
  assumes "D (ds @ [n]) = None"
  shows "(mkdir_abs ds D)(ds := map_option (\<lambda>a. Attr (aval a) True (awat a)) (mkdir_abs ds D ds),
      ds @ [n] := Some (Attr '''' True [])) = mkdir_abs (ds @ [n]) D"
  using assms by (auto simp: mkdir_abs_def as_dir_def fun_eq_iff split: option.splits)

text \<open>A successful watch: a calm step that makes the directories, then the registration.\<close>

lemma store_Watch_effect:
  assumes "\<not> rootNil s" and "p = ''/'' \<and> q = [] \<or> p \<noteq> ''/'' \<and> put_target p = Some q"
  shows "\<exists>st1. calm (nodes s) st1 \<and> amap st1 = mkdir_abs q (amap (nodes s)) \<and>
    deref (rev q) st1 \<noteq> None \<and>
    store_Watch p buf s = (Inr (length (wtab (nodes s))), s\<lparr>nodes := snd (node_Watch (rev q) buf st1)\<rparr>)"
proof (cases "p = ''/''")
  case True
  moreover have "mkdir_abs [] (amap (nodes s)) = amap (nodes s)"
    by (rule mkdir_abs_existing) simp
  ultimately show ?thesis
    using assms by (intro exI [of _ "nodes s"]) (simp add: store_Watch_def node_Watch_def Let_def)
next
  case False
  obtain d n where dn: "path_Split p = (d, n)" by force
  have nn: "n \<noteq> ''''" and q: "q = walk_elems d @ [n]"
    using assms(2) False dn by (auto simp: put_target_def split: if_splits)
  then have sn: "seg n" using path_Split_snd_no_slash [of p] dn by (simp add: seg_def)
  obtain st1 where w: "walk d checkDir s = (Inr (Some (rev (walk_elems d))), st1)"
    and c1: "calm (nodes s) st1" and a1: "amap st1 = mkdir_abs (walk_elems d) (amap (nodes s))"
    using walk_checkDir [OF assms(1), of d] by blast
  let ?r = "rev (walk_elems d)"
  have "amap st1 (rev ?r) \<noteq> None" by (simp add: a1 mkdir_abs_def split: option.splits)
  then obtain m where m: "deref ?r st1 = Some m" unfolding amap_deref by auto
  have nd: "amap st1 q = amap (nodes s) q" by (simp add: a1 mkdir_abs_def q)
  have lw: "calm (nodes s) st' \<Longrightarrow> length (wtab st') = length (wtab (nodes s))" for st'
    using statics_length unfolding calm_def by blast
  show ?thesis
  proof (cases "map_of (kids m) n")
    case None
    obtain st2 where st2: "newDir n ?r st1 = Inr (n # ?r, st2)" "calm st1 st2"
      "amap st2 = (amap st1)(rev ?r := map_option (\<lambda>a. Attr (aval a) True (awat a)) (amap st1 (rev ?r)),
        rev ?r @ [n] := Some (Attr '''' True []))"
      using newDir_effect [OF m None sn] by blast
    have "amap (nodes s) q = None"
      using nd None m by (simp add: flat_def lookup_path_snoc deref_def q)
    then have a2: "amap st2 = mkdir_abs q (amap (nodes s))"
      using st2(3) mkdir_abs_watch_new [of "amap (nodes s)" "walk_elems d" n] by (simp add: a1 q)
    then have "amap st2 (rev (rev q)) \<noteq> None" by (simp add: mkdir_abs_def split: option.splits)
    then have d2: "deref (rev q) st2 \<noteq> None" unfolding amap_deref by simp
    have c2: "calm (nodes s) st2" using c1 st2(2) calm_trans by blast
    show ?thesis
      using False dn w m None st2(1) a2 c2 d2 lw [OF c2] q
      by (intro exI [of _ st2])
        (auto simp: store_Watch_def Let_def node_GetChild_kids node_Watch_def)
  next
    case (Some k)
    then have dk: "deref (n # ?r) st1 = Some k" using m by (simp add: deref_def lookup_path_snoc)
    then have "amap st1 q \<noteq> None" using q deref_amap [OF dk] by simp
    then have "mkdir_abs q (amap (nodes s)) = amap (nodes s)"
      using nd mkdir_abs_existing by simp
    moreover have "mkdir_abs (walk_elems d) (amap (nodes s)) = amap (nodes s)"
      using \<open>amap st1 q \<noteq> None\<close> nd q flat_prefix_closed by (intro mkdir_abs_existing) metis
    ultimately have "amap st1 = mkdir_abs q (amap (nodes s))" using a1 by simp
    with dk show ?thesis
      using False dn w m Some c1 lw [OF c1] q
      by (intro exI [of _ st1])
        (auto simp: store_Watch_def Let_def node_GetChild_kids node_Watch_def)
  qed
qed

text \<open>Watching a path string that ends in a slash panics.\<close>

lemma store_Watch_panic:
  assumes "\<not> rootNil s" and "p \<noteq> ''/''" and "put_target p = None" and "node_ok (tree (nodes s))"
  shows "fst (store_Watch p buf s) = Inl (Panic ''nodeName can not be emtpy.'') \<and>
    (\<exists>st1. snd (store_Watch p buf s) = s\<lparr>nodes := st1\<rparr> \<and> calm (nodes s) st1 \<and>
      amap st1 = mkdir_abs (walk_elems (fst (path_Split p))) (amap (nodes s)))"
proof -
  obtain d n where dn: "path_Split p = (d, n)" by force
  have n: "n = ''''" using assms(3) dn by (auto simp: put_target_def split: if_splits)
  obtain st1 where w: "walk d checkDir s = (Inr (Some (rev (walk_elems d))), st1)"
    and c1: "calm (nodes s) st1" and a1: "amap st1 = mkdir_abs (walk_elems d) (amap (nodes s))"
    using walk_checkDir [OF assms(1), of d] by blast
  have "Option.bind (deref (rev (walk_elems d)) st1) (\<lambda>m. node_GetChild m '''') = None"
  proof (cases "deref (rev (walk_elems d)) st1")
    case (Some m)
    have "node_ok (tree st1)" using c1 assms(4) by (simp add: calm_def)
    then have "node_ok m" using Some node_ok_lookup by (auto simp: deref_def)
    then show ?thesis using Some node_ok_no_empty_child by (simp add: node_GetChild_kids)
  qed simp
  then show ?thesis
    using assms(2) dn w n c1 a1 by (auto simp: store_Watch_def Let_def newDir_def)
qed

end
