(* ===== verification/Store_Inv.thy ===== *)
theory Store_Inv
  imports Store_Map
begin

text \<open>
  The store as a state machine: its operations as labelled steps, the reachable states, and the
  invariant every step keeps.
\<close>

section \<open>Steps\<close>

datatype store_op =
    OpPut string goval
  | OpPutBulk string "(string, string) gomap"
  | OpDelete string
  | OpWatch string nat
  | OpRemove nat
  | OpRecv nat
  | OpClean string
  | OpCleanStep
  | OpDestroy

inductive store_step :: "store \<Rightarrow> store_op \<Rightarrow> store \<Rightarrow> bool" where
  Put: "store_step s (OpPut p v) (snd (store_Put p v s))"
| PutBulk: "store_step s (OpPutBulk p kvs) (snd (store_PutBulk p kvs s))"
| Delete: "store_step s (OpDelete p) (store_Delete p s)"
| Watch: "store_step s (OpWatch p buf) (snd (store_Watch p buf s))"
| Remove: "store_step s (OpRemove i) (snd (watcher_Remove i s))"
| Recv: "watcher_recv i s = Some (e, s') \<Longrightarrow> store_step s (OpRecv i) s'"
| Clean: "store_step s (OpClean p) (snd (store_Clean p s))"
| CleanStep: "clean_step s = Some s' \<Longrightarrow> store_step s OpCleanStep s'"
| Destroy: "store_step s OpDestroy (snd (store_Destroy s))"

inductive reachable :: "store \<Rightarrow> bool" where
  init: "reachable newStore"
| step: "reachable s \<Longrightarrow> store_step s op s' \<Longrightarrow> reachable s'"

section \<open>The invariant\<close>

text \<open>A watcher is closed exactly when it was removed, and registered as long as it was not.\<close>

definition reg_ok :: "nstate \<Rightarrow> bool" where
  "reg_ok st \<longleftrightarrow>
     (\<forall>i<length (wtab st). closed (wtab st ! i) = removed (wtab st ! i) \<and>
        (\<not> removed (wtab st ! i) \<longrightarrow> i \<in> set (wat st (rev (wnode (wtab st ! i)))))) \<and>
     (\<forall>p. distinct (wat st p))"

definition nodes_ok :: "nstate \<Rightarrow> bool" where
  "nodes_ok st \<longleftrightarrow>
     node_ok (tree st) \<and> root_ok st \<and> wsafe st \<and> chans_ok st \<and> reg_ok st \<and> \<not> sendClosed st"

definition store_ok :: "store \<Rightarrow> bool" where
  "store_ok s \<longleftrightarrow>
     nodes_ok (nodes s) \<and> length (cleanChan s) \<le> cleanChan_cap \<and> rootNil s = cleanClosed s"

section \<open>Calm steps keep the invariant\<close>

lemma reg_ok_calm:
  assumes "statics st' = statics st" and "wat st' = wat st" and "reg_ok st"
  shows "reg_ok st'"
  using assms statics_length [OF assms(1)] statics_nth [OF assms(1)]
  unfolding reg_ok_def by simp

lemma nodes_ok_calm: "calm st st' \<Longrightarrow> nodes_ok st \<Longrightarrow> nodes_ok st'"
  unfolding nodes_ok_def using reg_ok_calm calm_wsafe by (auto simp: calm_def)

lemma nodes_ok_new: "nodes_ok (nodes newStore)"
proof -
  have "wat (nodes newStore) p = []" for p
    by (cases p) (simp_all add: wat_def newStore_def flat_def attr_of_def lookup_path_Cons kids_def)
  then show ?thesis
    by (simp add: nodes_ok_def wsafe_def reg_ok_def chans_ok_def root_ok_def IsDir_def)
       (simp add: newStore_def node_ok_leaf kids_def)
qed

lemma store_ok_new: "store_ok newStore"
  using nodes_ok_new by (simp add: store_ok_def) (simp add: newStore_def)

lemma store_ok_nodes:
  "store_ok s \<Longrightarrow> nodes_ok st \<Longrightarrow> store_ok (s\<lparr>version := v, nodes := st\<rparr>)"
  by (simp add: store_ok_def)

section \<open>Operations on a destroyed store\<close>

lemma walk_checkDir_nil:
  "(\<exists>e. walk_loop checkDir ds None st = (Inl e, st)) \<or> walk_loop checkDir ds None st = (Inr None, st)"
  by (induction ds) (simp_all add: checkDir_def)

lemma internalPut_nil:
  assumes "rootNil s"
  shows "snd (internalPut p v s) = s\<lparr>version := version s + 1\<rparr>"
proof -
  obtain d n where dn: "path_Split p = (d, n)" by force
  let ?s = "s\<lparr>version := version s + 1\<rparr>"
  have "(\<exists>e. walk d checkDir ?s = (Inl e, nodes s)) \<or> walk d checkDir ?s = (Inr None, nodes s)"
    using assms walk_checkDir_nil [of "walk_elems d" "nodes s"] by (simp add: walk_eq)
  then show ?thesis
    using dn assms by (auto simp: internalPut_def AtomicLong_IncrementAndGet_def Let_def)
qed

lemma internalPutBulk_nil:
  assumes "rootNil s"
  shows "\<exists>v. snd (internalPutBulk p kvs s) = s\<lparr>version := v\<rparr>"
  using assms
proof (induction kvs arbitrary: s)
  case Nil
  then show ?case by (intro exI [of _ "version s"]) simp
next
  case (Cons kv kvs)
  obtain k v where kv: "kv = (k, v)" by force
  obtain x where x: "internalPut (AppendPathPrefix k p) v s = (x, s\<lparr>version := version s + 1\<rparr>)"
    using internalPut_nil [OF Cons.prems] by (metis prod.collapse)
  show ?case
  proof (cases x)
    case (Inl e)
    with x kv show ?thesis by auto
  next
    case (Inr y)
    obtain w where "snd (internalPutBulk p kvs (s\<lparr>version := version s + 1\<rparr>)) = s\<lparr>version := w\<rparr>"
      using Cons.IH [of "s\<lparr>version := version s + 1\<rparr>"] Cons.prems by auto
    with x kv Inr show ?thesis by auto
  qed
qed

section \<open>Registration\<close>

lemma nodes_ok_node_Watch:
  assumes ok: "nodes_ok st" and n: "deref r st = Some n"
  shows "nodes_ok (snd (node_Watch r len st))" (is "nodes_ok ?u")
proof -
  let ?i = "length (wtab st)"
  note eff = node_Watch_effect [OF n, of len]
  have w: "wat ?u = (wat st)(rev r := wat st (rev r) @ [?i])"
    using eff(1) deref_amap [OF n] by (auto simp: wat_def attr_of_def fun_eq_iff)
  have t: "tree ?u = update_path (rev r) (\<lambda>n. set_Watchers (nWatchers n @ [?i]) n) (tree st)"
    by (simp add: node_Watch_def Let_def)
  have small: "i < ?i" if "i \<in> set (wat st p)" for i p
    using that ok by (auto simp: nodes_ok_def wsafe_def)
  have "node_ok (tree ?u)"
    unfolding t using ok by (intro node_ok_update_path) (auto simp: nodes_ok_def)
  moreover have "root_ok ?u"
    unfolding root_ok_def t using ok by (cases "rev r") (simp_all add: nodes_ok_def root_ok_def)
  moreover have "wsafe ?u"
    using ok small by (auto simp: nodes_ok_def wsafe_def w eff(2) nth_append less_Suc_eq)
  moreover have "chans_ok ?u" using ok by (auto simp: nodes_ok_def chans_ok_def eff(2))
  moreover have "reg_ok ?u"
    unfolding reg_ok_def
  proof (intro conjI allI impI)
    fix i
    assume i: "i < length (wtab ?u)"
    show "closed (wtab ?u ! i) = removed (wtab ?u ! i)"
      using i ok by (auto simp: nodes_ok_def reg_ok_def eff(2) nth_append less_Suc_eq)
    show "i \<in> set (wat ?u (rev (wnode (wtab ?u ! i))))" if "\<not> removed (wtab ?u ! i)"
      using i ok that by (auto simp: nodes_ok_def reg_ok_def eff(2) w nth_append less_Suc_eq)
  next
    show "distinct (wat ?u p)" for p
      using ok small [of ?i "rev r"] by (auto simp: nodes_ok_def reg_ok_def w)
  qed
  moreover have "\<not> sendClosed ?u" using ok by (simp add: nodes_ok_def node_Watch_def Let_def)
  ultimately show ?thesis by (simp add: nodes_ok_def)
qed

text \<open>Closing a channel and taking the watcher off its node.\<close>

definition unregister :: "nat \<Rightarrow> nstate \<Rightarrow> nstate" where
  "unregister i st =
     modify (wnode (wtab st ! i)) (\<lambda>n. set_Watchers (remove1 i (nWatchers n)) n)
       (st\<lparr>wtab := (wtab st)[i := (wtab st ! i)\<lparr>closed := True, removed := True\<rparr>]\<rparr>)"

lemma amap_unregister:
  "amap (unregister i st) = (amap st)(rev (wnode (wtab st ! i)) :=
    map_option (\<lambda>a. Attr (aval a) (adir a) (remove1 i (awat a))) (amap st (rev (wnode (wtab st ! i)))))"
proof -
  let ?r = "wnode (wtab st ! i)"
  let ?st = "st\<lparr>wtab := (wtab st)[i := (wtab st ! i)\<lparr>closed := True, removed := True\<rparr>]\<rparr>"
  have "amap (unregister i st) = (amap st)(rev ?r :=
      map_option (\<lambda>m. attr_of (set_Watchers (remove1 i (nWatchers m)) m)) (deref ?r ?st))"
    unfolding unregister_def by (subst amap_modify) simp_all
  moreover have "deref ?r ?st = deref ?r st" by (simp add: deref_def)
  moreover have "map_option (\<lambda>m. attr_of (set_Watchers (remove1 i (nWatchers m)) m)) (deref ?r st) =
      map_option (\<lambda>a. Attr (aval a) (adir a) (remove1 i (awat a))) (amap st (rev ?r))"
    by (cases "deref ?r st") (simp_all add: amap_deref attr_of_def)
  ultimately show ?thesis by metis
qed

lemma wat_unregister:
  "wat (unregister i st) =
    (wat st)(rev (wnode (wtab st ! i)) := remove1 i (wat st (rev (wnode (wtab st ! i)))))"
  unfolding wat_def amap_unregister by (auto simp: fun_eq_iff split: option.splits)

lemma unregister_fields [simp]:
  "wtab (unregister i st) = (wtab st)[i := (wtab st ! i)\<lparr>closed := True, removed := True\<rparr>]"
  "sendClosed (unregister i st) = sendClosed st"
  by (simp_all add: unregister_def)

lemma nodes_ok_unregister:
  assumes ok: "nodes_ok st" and i: "i < length (wtab st)"
  shows "nodes_ok (unregister i st)" (is "nodes_ok ?u")
proof -
  let ?r = "wnode (wtab st ! i)"
  have t: "tree ?u = update_path (rev ?r) (\<lambda>n. set_Watchers (remove1 i (nWatchers n)) n) (tree st)"
    by (simp add: unregister_def)
  have di: "distinct (wat st p)" for p using ok by (simp add: nodes_ok_def reg_ok_def)
  have ws: "wsafe st" using ok by (simp add: nodes_ok_def)
  have gone: "i \<notin> set (wat ?u p)" for p
    using ws di [of "rev ?r"] unfolding wat_unregister wsafe_def by (auto simp: i)
  have sub: "j \<in> set (wat ?u p) \<Longrightarrow> j \<in> set (wat st p)" for j p
    using set_remove1_subset [of i "wat st (rev ?r)"] by (auto simp: wat_unregister split: if_splits)
  have "node_ok (tree ?u)"
    unfolding t using ok by (intro node_ok_update_path) (auto simp: nodes_ok_def)
  moreover have "root_ok ?u"
    unfolding root_ok_def t using ok by (cases "rev ?r") (simp_all add: nodes_ok_def root_ok_def)
  moreover have "wsafe ?u"
    unfolding wsafe_def
  proof (intro allI ballI)
    fix p j
    assume j: "j \<in> set (wat ?u p)"
    with gone have "j \<noteq> i" by auto
    with sub [OF j] ws show "j < length (wtab ?u) \<and> \<not> closed (wtab ?u ! j) \<and> wnode (wtab ?u ! j) = rev p"
      by (auto simp: wsafe_def)
  qed
  moreover have "chans_ok ?u"
    using ok i set_update_subset_insert [of "wtab st" i "(wtab st ! i)\<lparr>closed := True, removed := True\<rparr>"]
    by (auto simp: nodes_ok_def chans_ok_def chan_ok_def)
  moreover have "reg_ok ?u"
    unfolding reg_ok_def
  proof (intro conjI allI impI)
    fix j
    assume j: "j < length (wtab ?u)"
    show "closed (wtab ?u ! j) = removed (wtab ?u ! j)"
      using j ok by (cases "j = i") (auto simp: nodes_ok_def reg_ok_def)
    show "j \<in> set (wat ?u (rev (wnode (wtab ?u ! j))))" if "\<not> removed (wtab ?u ! j)"
      using j ok that i
      by (cases "j = i") (auto simp: nodes_ok_def reg_ok_def wat_unregister in_set_remove1)
  next
    show "distinct (wat ?u p)" for p using di by (simp add: wat_unregister distinct_remove1)
  qed
  moreover have "\<not> sendClosed ?u" using ok by (simp add: nodes_ok_def)
  ultimately show ?thesis by (simp add: nodes_ok_def)
qed

lemma store_Clean_effect:
  "\<exists>c. snd (store_Clean p s) = s\<lparr>cleanChan := c\<rparr> \<and>
    (length (cleanChan s) \<le> cleanChan_cap \<longrightarrow> length c \<le> cleanChan_cap)"
  by (auto simp: store_Clean_def cleanChan_cap_def intro: exI [of _ "cleanChan s"])

text \<open>\<^verbatim>\<open>Remove\<close> on an open watcher unregisters it; on a closed one it panics and changes nothing.\<close>

lemma watcher_Remove_open:
  assumes "nodes_ok (nodes s)" and "i < length (wtab (nodes s))" and "\<not> closed (wtab (nodes s) ! i)"
  shows "\<exists>c. snd (watcher_Remove i s) = s\<lparr>nodes := unregister i (nodes s), cleanChan := c\<rparr> \<and>
    (length (cleanChan s) \<le> cleanChan_cap \<longrightarrow> length c \<le> cleanChan_cap)"
proof -
  let ?S = "s\<lparr>nodes := unregister i (nodes s)\<rparr>"
  have "\<not> removed (wtab (nodes s) ! i)" using assms by (simp add: nodes_ok_def reg_ok_def)
  then have "snd (watcher_Remove i s) = ?S \<or> (\<exists>p. snd (watcher_Remove i s) = snd (store_Clean p ?S))"
    using assms(2,3) by (auto simp: watcher_Remove_def Let_def unregister_def split: option.splits)
  then show ?thesis
  proof
    assume "snd (watcher_Remove i s) = ?S"
    then show ?thesis by (intro exI [of _ "cleanChan s"]) simp
  next
    assume "\<exists>p. snd (watcher_Remove i s) = snd (store_Clean p ?S)"
    then obtain p where "snd (watcher_Remove i s) = snd (store_Clean p ?S)" ..
    with store_Clean_effect [of p ?S] show ?thesis by auto
  qed
qed

lemma watcher_Remove_returns:
  assumes "store_ok s" and "\<not> rootNil s" and "i < length (wtab (nodes s))" and "\<not> closed (wtab (nodes s) ! i)"
  shows "fst (watcher_Remove i s) = Inr ()" and "\<not> rootNil (snd (watcher_Remove i s))"
proof -
  have nok: "nodes_ok (nodes s)" "\<not> cleanClosed s" using assms(1,2) by (auto simp: store_ok_def)
  then show "fst (watcher_Remove i s) = Inr ()"
    using assms(3,4) by (auto simp: watcher_Remove_def store_Clean_def Let_def split: option.splits)
  show "\<not> rootNil (snd (watcher_Remove i s))"
    using watcher_Remove_open [OF nok(1) assms(3,4)] assms(2) by auto
qed

lemma watcher_Remove_closed:
  assumes "length (wtab (nodes s)) \<le> i \<or> closed (wtab (nodes s) ! i)"
  shows "snd (watcher_Remove i s) = s"
  using assms by (auto simp: watcher_Remove_def Let_def)

section \<open>Every step keeps the invariant\<close>

lemma store_ok_store_Put: "store_ok s \<Longrightarrow> store_ok (snd (store_Put p v s))"
  and store_ok_store_PutBulk: "store_ok s \<Longrightarrow> store_ok (snd (store_PutBulk p kvs s))"
proof -
  assume ok: "store_ok s"
  have bulk: "store_ok (snd (internalPutBulk q kvs s))" for q kvs
  proof (cases "rootNil s")
    case True
    obtain w where "snd (internalPutBulk q kvs s) = s\<lparr>version := w\<rparr>"
      using internalPutBulk_nil [OF True] by blast
    then show ?thesis using ok by (simp add: store_ok_def)
  next
    case False
    obtain st' where "snd (internalPutBulk q kvs s) =
        s\<lparr>version := version s + of_nat (length kvs), nodes := st'\<rparr>" "calm (nodes s) st'"
      using internalPutBulk_effect [OF False, of q kvs] by force
    then show ?thesis using ok nodes_ok_calm by (auto simp: store_ok_def)
  qed
  have put: "store_ok (snd (internalPut q t s))" for q t
  proof (cases "rootNil s")
    case True
    then show ?thesis using ok by (simp add: internalPut_nil store_ok_def)
  next
    case False
    obtain r st' where "snd (internalPut q t s) = s\<lparr>version := version s + 1, nodes := st'\<rparr>"
      "calm (nodes s) st'"
      using internalPut_effect [OF False, of q t] by force
    then show ?thesis using ok nodes_ok_calm by (auto simp: store_ok_def)
  qed
  show "store_ok (snd (store_PutBulk p kvs s))" using bulk by (simp add: store_PutBulk_def)
  show "store_ok (snd (store_Put p v s))"
  proof (cases v)
    case (VStr t)
    have "store_ok (snd (internalPut (path_Clean (path_Join [''/'', p])) t s))" by (rule put)
    with VStr show ?thesis by (auto simp: store_Put_def split: prod.splits sum.splits)
  qed (use ok bulk in \<open>simp_all add: store_Put_def Flatten_def\<close>)
qed

lemma store_ok_store_Delete:
  assumes ok: "store_ok s"
  shows "store_ok (store_Delete p s)"
proof -
  consider (nil) "rootNil s" | (missing) "\<not> rootNil s" "amap (nodes s) (path_elems p) = None"
    | (there) "\<not> rootNil s" "amap (nodes s) (path_elems p) \<noteq> None" by blast
  then show ?thesis
  proof cases
    case nil
    then show ?thesis using ok by (simp add: store_Delete_def internalGet_eq)
  next
    case missing
    then show ?thesis using ok by (simp add: store_Delete_missing)
  next
    case there
    moreover have r: "node_ok (tree (nodes s))" "root_ok (nodes s)"
      using ok by (simp_all add: store_ok_def nodes_ok_def)
    ultimately obtain st' where "store_Delete p s = s\<lparr>version := version s + 1, nodes := st'\<rparr>"
      "purged (rev (path_elems p)) (nodes s) st'"
      using store_Delete_effect by blast
    then show ?thesis
      using ok nodes_ok_calm r by (auto simp: store_ok_def purged_def)
  qed
qed

lemma store_Watch_nil: "rootNil s \<Longrightarrow> snd (store_Watch p buf s) = s"
proof -
  assume nil: "rootNil s"
  obtain d n where dn: "path_Split p = (d, n)" by force
  have "(\<exists>e. walk d checkDir s = (Inl e, nodes s)) \<or> walk d checkDir s = (Inr None, nodes s)"
    using nil walk_checkDir_nil [of "walk_elems d" "nodes s"] by (simp add: walk_eq)
  then show ?thesis using nil dn by (auto simp: store_Watch_def Let_def)
qed

lemma store_ok_store_Watch:
  assumes ok: "store_ok s"
  shows "store_ok (snd (store_Watch p buf s))"
proof (cases "rootNil s")
  case True
  with ok show ?thesis by (simp add: store_Watch_nil)
next
  case False
  have nok: "nodes_ok (nodes s)" using ok by (simp add: store_ok_def)
  show ?thesis
  proof (cases "p \<noteq> ''/'' \<and> put_target p = None")
    case True
    then obtain st1 where "snd (store_Watch p buf s) = s\<lparr>nodes := st1\<rparr>" "calm (nodes s) st1"
      using store_Watch_panic [OF False, of p buf] nok by (auto simp: nodes_ok_def)
    then show ?thesis using ok nodes_ok_calm by (auto simp: store_ok_def)
  next
    case tgt: False
    then obtain q where "p = ''/'' \<and> q = [] \<or> p \<noteq> ''/'' \<and> put_target p = Some q" by auto
    from store_Watch_effect [OF False this, of buf] obtain st1 n where
      st1: "calm (nodes s) st1" "deref (rev q) st1 = Some n"
      "snd (store_Watch p buf s) = s\<lparr>nodes := snd (node_Watch (rev q) buf st1)\<rparr>"
      by auto
    then have "nodes_ok (snd (node_Watch (rev q) buf st1))"
      using nok nodes_ok_calm nodes_ok_node_Watch by blast
    with ok st1(3) show ?thesis by (simp add: store_ok_def)
  qed
qed

lemma store_ok_watcher_Remove:
  assumes ok: "store_ok s"
  shows "store_ok (snd (watcher_Remove i s))"
proof (cases "length (wtab (nodes s)) \<le> i \<or> closed (wtab (nodes s) ! i)")
  case True
  with ok show ?thesis by (simp add: watcher_Remove_closed)
next
  case False
  then show ?thesis
    using watcher_Remove_open [of s i] nodes_ok_unregister [of "nodes s" i] ok
    by (auto simp: store_ok_def)
qed

lemma nodes_ok_recv:
  assumes "nodes_ok st" and "i < length (wtab st)" and "chan_recv (wtab st ! i) = Some (e, w)"
  shows "nodes_ok (st\<lparr>wtab := (wtab st)[i := w]\<rparr>)" (is "nodes_ok ?u")
proof -
  have w: "bufLen w = bufLen (wtab st ! i)" "closed w = closed (wtab st ! i)"
    "removed w = removed (wtab st ! i)" "wnode w = wnode (wtab st ! i)" "chan_ok (wtab st ! i) \<longrightarrow> chan_ok w"
    using assms(3) chan_ok_recv by (auto simp: chan_recv_def split: list.splits)
  then have "statics ?u = statics st" using assms(2) by (simp add: statics_def statics_update)
  moreover have "wat ?u = wat st" by (rule wat_tree) simp
  moreover have "chans_ok st \<longrightarrow> chans_ok ?u"
    using w(5) assms(2) set_update_subset_insert [of "wtab st" i w] by (auto simp: chans_ok_def)
  ultimately have "calm st ?u" by (simp add: calm_def root_ok_def)
  then show ?thesis using assms(1) nodes_ok_calm by blast
qed

lemma store_step_ok:
  assumes "store_step s op s'" and ok: "store_ok s"
  shows "store_ok s'"
  using assms(1)
proof cases
  case (Recv i e)
  then show ?thesis
    using ok nodes_ok_recv by (auto simp: watcher_recv_def store_ok_def split: if_splits option.splits)
next
  case (Clean p)
  then show ?thesis using ok store_Clean_effect [of p s] by (auto simp: store_ok_def)
next
  case CleanStep
  from clean_step_effect [OF CleanStep(2)] obtain r st'
    where "s' = s\<lparr>cleanChan := tl (cleanChan s), nodes := st'\<rparr>" "cleaned r (nodes s) st'" by blast
  then show ?thesis
    using ok nodes_ok_calm by (auto simp: store_ok_def cleaned_def nodes_ok_def)
next
  case Destroy
  then show ?thesis using ok by (auto simp: store_Destroy_def store_ok_def)
qed (simp_all add: ok store_ok_store_Put store_ok_store_PutBulk store_ok_store_Delete
    store_ok_store_Watch store_ok_watcher_Remove)

lemma reachable_store_ok: "reachable s \<Longrightarrow> store_ok s"
  by (induction rule: reachable.induct) (auto intro: store_ok_new store_step_ok)

end
