(* ===== verification/Text_Store.thy ===== *)
theory Text_Store
  imports Node_Map
begin

text \<open>
  The contract of a hierarchical store of texts, as its clients rely on it: a path denotes a list
  of components, a put assigns a text to one path, a delete clears a whole subtree, and a path
  without a text reads as the empty one.
\<close>

type_synonym texts = "string list \<Rightarrow> string"

datatype text_op = TPut string string | TDelete string

definition clear_texts :: "string list \<Rightarrow> texts \<Rightarrow> texts" where
  "clear_texts p T q = (if within p q then '''' else T q)"

text \<open>The effect of one operation and of a sequence of them on the texts.\<close>

fun text_effect :: "(string \<Rightarrow> string list) \<Rightarrow> text_op \<Rightarrow> texts \<Rightarrow> texts" where
  "text_effect el (TPut p v) T = (if el p = [] then T else T(el p := v))"
| "text_effect el (TDelete p) T = clear_texts (el p) T"

fun touches :: "(string \<Rightarrow> string list) \<Rightarrow> text_op \<Rightarrow> string list \<Rightarrow> bool" where
  "touches el (TPut p v) q \<longleftrightarrow> q = el p"
| "touches el (TDelete p) q \<longleftrightarrow> within (el p) q"

lemma text_effect_untouched: "\<not> touches el op q \<Longrightarrow> text_effect el op T q = T q"
  by (cases op) (auto simp: clear_texts_def)

lemma text_effects_untouched:
  "\<forall>op\<in>set ops. \<not> touches el op q \<Longrightarrow> fold (text_effect el) ops T q = T q"
  by (induction ops arbitrary: T) (simp_all add: text_effect_untouched)

locale text_store =
  fixes ok :: "'s \<Rightarrow> bool"
    and elems :: "string \<Rightarrow> string list"
    and rd :: "'s \<Rightarrow> texts"
    and put :: "string \<Rightarrow> string \<Rightarrow> 's \<Rightarrow> 's"
    and del :: "string \<Rightarrow> 's \<Rightarrow> 's"
  assumes ok_put: "ok s \<Longrightarrow> ok (put p v s)"
    and ok_del: "ok s \<Longrightarrow> ok (del p s)"
    and rd_put: "ok s \<Longrightarrow> rd (put p v s) = (if elems p = [] then rd s else (rd s)(elems p := v))"
    and rd_del: "ok s \<Longrightarrow> rd (del p s) = clear_texts (elems p) (rd s)"
begin

fun exec :: "text_op \<Rightarrow> 's \<Rightarrow> 's" where
  "exec (TPut p v) s = put p v s"
| "exec (TDelete p) s = del p s"

lemma ok_exec: "ok s \<Longrightarrow> ok (exec op s)"
  by (cases op) (simp_all add: ok_put ok_del)

lemma rd_exec: "ok s \<Longrightarrow> rd (exec op s) = text_effect elems op (rd s)"
  by (cases op) (simp_all add: rd_put rd_del)

lemma ok_run: "ok s \<Longrightarrow> ok (fold exec ops s)"
  by (induction ops arbitrary: s) (simp_all add: ok_exec)

lemma rd_run: "ok s \<Longrightarrow> rd (fold exec ops s) = fold (text_effect elems) ops (rd s)"
  by (induction ops arbitrary: s) (simp_all add: ok_exec rd_exec)

text \<open>The last operation that touches a path decides its text.\<close>

lemma last_put:
  assumes "ok s" and "elems p \<noteq> []" and "\<forall>op\<in>set ops'. \<not> touches elems op (elems p)"
  shows "rd (fold exec (ops @ TPut p v # ops') s) (elems p) = v"
  unfolding rd_run [OF assms(1)] using assms(2,3) by (simp add: text_effects_untouched)

lemma last_delete:
  assumes "ok s" and "within (elems p) q" and "\<forall>op\<in>set ops'. \<not> touches elems op q"
  shows "rd (fold exec (ops @ TDelete p # ops') s) q = ''''"
  unfolding rd_run [OF assms(1)]
  using assms(2,3) by (simp add: text_effects_untouched clear_texts_def)

lemma untouched:
  assumes "ok s" and "\<forall>op\<in>set ops. \<not> touches elems op q"
  shows "rd (fold exec ops s) q = rd s q"
  using assms by (simp add: rd_run text_effects_untouched)

lemma put_commute:
  assumes "ok s" and "elems p \<noteq> elems q"
  shows "rd (put p v (put q w s)) = rd (put q w (put p v s))"
  using assms by (auto simp: rd_put ok_put fun_upd_twist)

end

text \<open>A store that can also replace a whole subtree by one text.\<close>

locale replacing_store = text_store +
  fixes replace :: "string \<Rightarrow> string \<Rightarrow> 'a \<Rightarrow> 'a"
  assumes replace_eq: "replace p v s = put p v (del p s)"
begin

lemma ok_replace: "ok s \<Longrightarrow> ok (replace p v s)"
  by (simp add: replace_eq ok_put ok_del)

text \<open>Nothing of the old subtree survives, and nothing else changes.\<close>

lemma rd_replace:
  assumes "ok s" and "elems p \<noteq> []"
  shows "rd (replace p v s) q = (if q = elems p then v else if within (elems p) q then '''' else rd s q)"
  using assms by (simp add: replace_eq rd_put rd_del ok_del clear_texts_def)

lemma replace_idem:
  assumes "ok s" and "elems p \<noteq> []"
  shows "rd (replace p v (replace p w s)) = rd (replace p v s)"
  using assms by (auto simp: rd_replace ok_replace fun_eq_iff)

end

end
