(* ===== verification/Store_Props.thy ===== *)
theory Store_Props
  imports Store_Inv Text_Store "HOL-Library.Multiset"
begin

text \<open>
  What the store promises: reads return the leaves of the tree, puts and deletes change exactly
  the entries they should, bulk puts do not depend on their order, watching and cleaning lose no
  data, and no operation ever sends on a closed channel or drops a watched node.
\<close>

section \<open>Views of the abstract map\<close>

text \<open>The text of a leaf.\<close>

definition leaf :: "amap \<Rightarrow> string list \<Rightarrow> string option" where
  "leaf D p = (case D p of Some (Attr v False ws) \<Rightarrow> Some v | _ \<Rightarrow> None)"

text \<open>The text stored at a path: that of a leaf, or the one a directory has kept.\<close>

definition entry :: "amap \<Rightarrow> string list \<Rightarrow> string option" where
  "entry D p =
     (case D p of
        None \<Rightarrow> None
      | Some a \<Rightarrow> if adir a \<and> aval a = '''' then None else Some (aval a))"

section \<open>Reading\<close>

lemma GetValue_leaf: "\<not> IsDir n \<Longrightarrow> GetValue n = VStr (nValue n)"
  by (cases n) (simp add: IsDir_def)

lemma GetValue_dir:
  "IsDir n \<Longrightarrow> GetValue n =
    VMap (filter (\<lambda>kv. \<not> is_empty_map (snd kv)) (map (\<lambda>(k, c). (k, GetValue c)) (kids n)))"
  by (cases n) (auto simp: IsDir_def kids_def)

lemma map_of_GetValue:
  assumes "map_ok l"
  shows "map_of (filter (\<lambda>kv. \<not> is_empty_map (snd kv)) (map (\<lambda>(k, c). (k, GetValue c)) l)) x =
    (case map_of l x of
       None \<Rightarrow> None | Some c \<Rightarrow> if is_empty_map (GetValue c) then None else Some (GetValue c))"
  using assms
proof (induction l)
  case (Cons kc l)
  obtain k c where kc: "kc = (k, c)" by force
  show ?case
  proof (cases "x = k")
    case True
    then have "map_of l x = None" using Cons.prems kc by (simp add: map_of_eq_None_iff)
    with True Cons show ?thesis by (simp add: kc)
  next
    case False
    with Cons show ?thesis by (simp add: kc)
  qed
qed simp

lemma leaf_root: "leaf (flat n) [] = (if IsDir n then None else Some (nValue n))"
  by (simp add: leaf_def flat_def attr_of_def)

lemma leaf_Cons:
  "leaf (flat n) (x # q) = (case map_of (kids n) x of None \<Rightarrow> None | Some c \<Rightarrow> leaf (flat c) q)"
  by (simp add: leaf_def flat_def lookup_path_Cons split: option.splits)

lemma val_leaf_GetValue: "node_ok n \<Longrightarrow> val_leaf q (GetValue n) = leaf (flat n) q"
proof (induction q arbitrary: n)
  case Nil
  then show ?case by (cases "IsDir n") (simp_all add: GetValue_leaf GetValue_dir leaf_root)
next
  case (Cons x q)
  show ?case
  proof (cases "IsDir n")
    case False
    then show ?thesis by (simp add: GetValue_leaf leaf_Cons kids_leaf)
  next
    case True
    have "map_ok (kids n)" using Cons.prems by (subst (asm) node_ok_kids) blast
    moreover have "leaf (flat c) q = None" if "map_of (kids n) x = Some c" "is_empty_map (GetValue c)" for c
      using Cons.IH [of c] Cons.prems that node_ok_child [of n x c] by (simp add: is_empty_map_iff)
    ultimately show ?thesis
      using Cons.IH Cons.prems node_ok_child [of n x]
      by (auto simp: GetValue_dir [OF True] map_of_GetValue leaf_Cons split: option.splits)
  qed
qed

lemma GetValue_empty:
  assumes "node_ok n" and "\<And>q. leaf (flat n) q = None"
  shows "GetValue n = VMap []"
  using assms
proof (induction n rule: GetValue.induct)
  case (1 nm v cs ws)
  let ?n = "Node nm v cs ws"
  have d: "IsDir ?n" using "1.prems"(2) [of "[]"] by (simp add: leaf_root split: if_splits)
  then obtain l where l: "cs = Some l" by (auto simp: IsDir_def)
  have "GetValue c = VMap []" if "(k, c) \<in> set l" for k c
  proof -
    have "map_of (kids ?n) k = Some c"
      using that l "1.prems"(1) node_ok_kids [of ?n] by (auto simp: kids_def)
    then have "node_ok c" "\<And>q. leaf (flat c) q = None"
      using node_ok_child [OF "1.prems"(1)] "1.prems"(2) [of "k # _"] by (auto simp: leaf_Cons)
    with "1.IH" [OF l that refl] show ?thesis by simp
  qed
  then have "filter (\<lambda>kv. \<not> is_empty_map (snd kv)) (map (\<lambda>(k, c). (k, GetValue c)) l) = []"
    by (auto simp: filter_empty_conv)
  with l show ?case by simp
qed

lemma flat_lookup: "lookup_path p n = Some m \<Longrightarrow> flat m q = flat n (p @ q)"
  by (simp add: flat_def lookup_path_append)

lemma store_Get_value:
  assumes "store_ok s" and "\<not> rootNil s"
  shows "snd (store_Get p s) =
    (case lookup_path (path_elems p) (tree (nodes s)) of
       None \<Rightarrow> VNil
     | Some n \<Rightarrow> if GetValue n = VMap [] \<and> path_elems p \<noteq> [] then VNil else GetValue n)"
  using assms
  by (auto simp: store_Get_def clean_join_root internalGet_abs_path flat_None_iff deref_def
      is_empty_map_iff IsRoot_def Let_def split: option.splits)

lemma store_Get_leaves:
  assumes "store_ok s" and "\<not> rootNil s"
  shows "val_leaf q (snd (store_Get p s)) = leaf (amap (nodes s)) (path_elems p @ q)"
proof (cases "lookup_path (path_elems p) (tree (nodes s))")
  case None
  then have "amap (nodes s) (path_elems p @ q) = None"
    using flat_prefix_closed flat_None_iff by blast
  with None show ?thesis using assms by (simp add: store_Get_value leaf_def)
next
  case (Some n)
  have "node_ok n" using assms(1) Some node_ok_lookup by (auto simp: store_ok_def nodes_ok_def)
  then have "val_leaf q (GetValue n) = leaf (amap (nodes s)) (path_elems p @ q)"
    using flat_lookup [OF Some, of q] by (simp add: val_leaf_GetValue leaf_def)
  moreover from this have "GetValue n = VMap [] \<Longrightarrow> leaf (amap (nodes s)) (path_elems p @ q) = None"
    by simp
  ultimately show ?thesis using Some assms by (simp add: store_Get_value)
qed

lemma store_Get_nil:
  assumes "store_ok s" and "\<not> rootNil s"
  shows "snd (store_Get p s) = VNil \<longleftrightarrow>
    path_elems p \<noteq> [] \<and> (\<forall>q. leaf (amap (nodes s)) (path_elems p @ q) = None)"
proof (cases "lookup_path (path_elems p) (tree (nodes s))")
  case None
  then have "\<forall>q. leaf (amap (nodes s)) (path_elems p @ q) = None"
    using flat_prefix_closed flat_None_iff by (metis leaf_def option.case_eq_if)
  moreover have "path_elems p \<noteq> []" using None by auto
  ultimately show ?thesis using None assms by (simp add: store_Get_value)
next
  case (Some n)
  have ok: "node_ok n" using assms(1) Some node_ok_lookup by (auto simp: store_ok_def nodes_ok_def)
  have "leaf (flat n) q = leaf (amap (nodes s)) (path_elems p @ q)" for q
    using flat_lookup [OF Some, of q] by (simp add: leaf_def)
  moreover have "GetValue n = VMap [] \<longleftrightarrow> (\<forall>q. leaf (flat n) q = None)"
    using GetValue_empty [OF ok] val_leaf_GetValue [OF ok] by auto
  moreover have "GetValue n \<noteq> VNil" by (cases "IsDir n") (simp_all add: GetValue_leaf GetValue_dir)
  ultimately show ?thesis using Some assms by (simp add: store_Get_value)
qed

section \<open>Putting\<close>

lemma store_Put_string:
  assumes "\<not> rootNil s" and "path_elems p \<noteq> []"
  shows "\<exists>st'. store_Put p (VStr v) s = (Inr (), s\<lparr>version := version s + 1, nodes := st'\<rparr>) \<and>
    calm (nodes s) st' \<and> amap st' = put_abs (path_elems p) v (amap (nodes s))"
proof -
  have "put_target (abs_path (path_elems p)) = Some (path_elems p)"
    using assms(2) by (simp add: put_target_canon)
  then show ?thesis
    using internalPut_effect [OF assms(1), of "abs_path (path_elems p)" v]
    by (auto simp: store_Put_def clean_join_root)
qed

lemma entry_put_abs:
  assumes "p \<noteq> []"
  shows "entry (put_abs p v D) q =
    (if q = p then (if v = '''' \<and> (\<exists>a. D p = Some a \<and> adir a) \<and> \<not> childless D p then None else Some v)
     else if within q p \<and> entry D q = Some '''' then None else entry D q)"
  by (auto simp: entry_def put_abs_def as_dir_def split: option.splits)

lemma childless_put_abs:
  assumes "p \<noteq> q"
  shows "childless (put_abs q w D) p \<longleftrightarrow> childless D p \<and> \<not> within p q"
proof (cases "within p q")
  case True
  with assms obtain x where "within (p @ [x]) q" by (metis within_cases)
  then have "put_abs q w D (p @ [x]) \<noteq> None" by (simp add: put_abs_def split: option.splits)
  with True show ?thesis by (auto simp: childless_def)
next
  case False
  then have "put_abs q w D (p @ [x]) = D (p @ [x])" for x
    using within_snoc [of p x q] by (auto simp: put_abs_def)
  with False show ?thesis by (simp add: childless_def)
qed

text \<open>Puts at different paths commute.\<close>

lemma put_abs_commute:
  assumes "p \<noteq> q"
  shows "put_abs p v (put_abs q w D) = put_abs q w (put_abs p v D)"
proof
  fix r
  have c: "childless (put_abs q w D) p \<longleftrightarrow> childless D p \<and> \<not> within p q"
    "childless (put_abs p v D) q \<longleftrightarrow> childless D q \<and> \<not> within q p"
    using assms by (simp_all add: childless_put_abs)
  consider "r = p" | "r = q" | "r \<noteq> p" "r \<noteq> q" by blast
  then show "put_abs p v (put_abs q w D) r = put_abs q w (put_abs p v D) r"
  proof cases
    case 1
    then show ?thesis
      using assms c(1) by (auto simp: put_abs_def [of p v] put_abs_def [of q w] as_dir_def split: option.splits)
  next
    case 2
    then show ?thesis
      using assms c(2) by (auto simp: put_abs_def [of p v] put_abs_def [of q w] as_dir_def split: option.splits)
  next
    case 3
    then show ?thesis
      by (auto simp: put_abs_def [of p v] put_abs_def [of q w] as_dir_def split: option.splits)
  qed
qed

text \<open>A bulk put with non-blank keys, as a fold of abstract puts.\<close>

definition put_all :: "string \<Rightarrow> (string, string) gomap \<Rightarrow> amap \<Rightarrow> amap" where
  "put_all base kvs =
     fold (\<lambda>(k, v) D. if bulk_elems base k = [] then D else put_abs (bulk_elems base k) v D) kvs"

lemma put_abs_root: "p \<noteq> [] \<Longrightarrow> D [] \<noteq> None \<Longrightarrow> put_abs p v D [] \<noteq> None"
  by (auto simp: put_abs_def split: option.splits)

lemma put_str_fold:
  assumes "\<forall>kv\<in>set kvs. strings_TrimSpace (fst kv) \<noteq> ''''" and "D [] \<noteq> None"
  shows "fold (\<lambda>(k, v). put_str (AppendPathPrefix k base) v) kvs D = put_all base kvs D"
  using assms
proof (induction kvs arbitrary: D)
  case (Cons kv kvs)
  obtain k v where kv: "kv = (k, v)" by force
  have "put_str (AppendPathPrefix k base) v D =
      (if bulk_elems base k = [] then D else put_abs (bulk_elems base k) v D)"
    using Cons.prems kv by (simp add: AppendPathPrefix_abs put_str_abs_path bulk_elems_canon)
  with Cons put_abs_root show ?case by (simp add: kv put_all_def)
qed (simp add: put_all_def)

lemma put_all_perm:
  assumes "mset kvs = mset kvs'" and "distinct (map (\<lambda>kv. bulk_elems base (fst kv)) kvs)"
  shows "put_all base kvs = put_all base kvs'"
  unfolding put_all_def
proof (rule fold_multiset_equiv [OF _ assms(1)])
  fix x y
  assume xy: "x \<in> set kvs" "y \<in> set kvs"
  show "(case x of (k, v) \<Rightarrow> \<lambda>D. if bulk_elems base k = [] then D else put_abs (bulk_elems base k) v D) \<circ>
      (case y of (k, v) \<Rightarrow> \<lambda>D. if bulk_elems base k = [] then D else put_abs (bulk_elems base k) v D) =
    (case y of (k, v) \<Rightarrow> \<lambda>D. if bulk_elems base k = [] then D else put_abs (bulk_elems base k) v D) \<circ>
      (case x of (k, v) \<Rightarrow> \<lambda>D. if bulk_elems base k = [] then D else put_abs (bulk_elems base k) v D)"
  proof (cases "x = y")
    case False
    then have "bulk_elems base (fst x) \<noteq> bulk_elems base (fst y)"
      using xy assms(2) by (auto simp: distinct_map inj_on_def)
    then show ?thesis
      using put_abs_commute by (auto simp: fun_eq_iff split: prod.splits)
  qed simp
qed

lemma internalPutBulk_put_all:
  assumes "\<not> rootNil s" and "\<forall>kv\<in>set kvs. strings_TrimSpace (fst kv) \<noteq> ''''"
  shows "\<exists>st'. internalPutBulk p kvs s =
      (Inr (), s\<lparr>version := version s + of_nat (length kvs), nodes := st'\<rparr>) \<and>
    calm (nodes s) st' \<and> amap st' = put_all p kvs (amap (nodes s))"
  using internalPutBulk_effect [OF assms(1), of p kvs] put_str_fold [OF assms(2), of "amap (nodes s)" p]
  by auto

section \<open>Deleting, cleaning, watching\<close>

lemma entry_clean: "clean_rel (D q) (D' q) \<Longrightarrow> entry D' q = entry D q"
  by (auto simp: clean_rel_def entry_def)

lemma entry_purge: "purge_rel (D q) (D' q) \<Longrightarrow> entry D' q = None"
  by (auto simp: purge_rel_def entry_def)

lemma leaf_purge: "purge_rel (D q) (D' q) \<Longrightarrow> leaf D' q = None"
  by (auto simp: purge_rel_def leaf_def)

lemma store_Delete_entry:
  assumes "store_ok s" and "\<not> rootNil s"
  shows "entry (amap (nodes (store_Delete p s))) q =
    (if within (path_elems p) q then None else entry (amap (nodes s)) q)"
proof (cases "amap (nodes s) (path_elems p) = None")
  case True
  have "within (path_elems p) q \<Longrightarrow> amap (nodes s) q = None" using True flat_within by blast
  with True show ?thesis using assms(2) by (simp add: store_Delete_missing entry_def)
next
  case False
  obtain st' where "store_Delete p s = s\<lparr>version := version s + 1, nodes := st'\<rparr>"
    "purged (rev (path_elems p)) (nodes s) st'"
    using store_Delete_effect [OF assms(2) False] assms(1) by (auto simp: store_ok_def nodes_ok_def)
  then show ?thesis by (auto simp: purged_def intro: entry_purge entry_clean)
qed

lemma store_Delete_rootNil [simp]: "rootNil (store_Delete p s) = rootNil s"
  by (auto simp: store_Delete_def Let_def split: option.splits)

lemma store_Delete_no_leaf:
  assumes "store_ok s" and "\<not> rootNil s"
  shows "leaf (amap (nodes (store_Delete p s))) (path_elems p @ q) = None"
proof (cases "amap (nodes s) (path_elems p) = None")
  case True
  then have "amap (nodes s) (path_elems p @ q) = None" using flat_prefix_closed by blast
  with True show ?thesis using assms(2) by (simp add: store_Delete_missing leaf_def)
next
  case False
  obtain st' where "store_Delete p s = s\<lparr>version := version s + 1, nodes := st'\<rparr>"
    "purged (rev (path_elems p)) (nodes s) st'"
    using store_Delete_effect [OF assms(2) False] assms(1) by (auto simp: store_ok_def nodes_ok_def)
  moreover from this(2) have "purge_rel (amap (nodes s) (path_elems p @ q)) (amap st' (path_elems p @ q))"
    unfolding purged_def by simp
  ultimately show ?thesis by (simp add: leaf_purge)
qed

lemma clean_step_entry:
  assumes "clean_step s = Some s'"
  shows "entry (amap (nodes s')) q = entry (amap (nodes s)) q"
  using clean_step_effect [OF assms] by (auto simp: cleaned_def intro: entry_clean)

lemma entry_mkdir_abs:
  "entry (mkdir_abs p D) q =
    (if within q p \<and> q \<noteq> p \<and> entry D q = Some '''' then None else entry D q)"
  by (auto simp: entry_def mkdir_abs_def as_dir_def split: option.splits)

lemma entry_node_Watch:
  "deref r st = Some n \<Longrightarrow> entry (amap (snd (node_Watch r len st))) q = entry (amap st) q"
  using node_Watch_effect(1) [of r st n len] deref_amap [of r st n]
  by (simp add: entry_def attr_of_def)

lemma store_Watch_entry:
  assumes "\<not> rootNil s" and "p = ''/'' \<and> d = [] \<or> p \<noteq> ''/'' \<and> put_target p = Some d"
  shows "entry (amap (nodes (snd (store_Watch p buf s)))) q =
    (if within q d \<and> q \<noteq> d \<and> entry (amap (nodes s)) q = Some '''' then None
     else entry (amap (nodes s)) q)"
proof -
  from store_Watch_effect [OF assms, of buf] obtain st1 n where
    "amap st1 = mkdir_abs d (amap (nodes s))" "deref (rev d) st1 = Some n"
    "snd (store_Watch p buf s) = s\<lparr>nodes := snd (node_Watch (rev d) buf st1)\<rparr>"
    by auto
  then show ?thesis by (simp add: entry_node_Watch entry_mkdir_abs)
qed

text \<open>Watching below a leaf turns the leaf into a directory: its text is no longer readable.\<close>

lemma leaf_watch_below:
  assumes "\<not> rootNil s" and "put_target p = Some d" and "p \<noteq> ''/''" and "within q d" and "q \<noteq> d"
  shows "leaf (amap (nodes (snd (store_Watch p buf s)))) q = None"
proof -
  from store_Watch_effect [OF assms(1), of p d buf] assms(2,3) obtain st1 n where
    st1: "amap st1 = mkdir_abs d (amap (nodes s))" "deref (rev d) st1 = Some n"
    "snd (store_Watch p buf s) = s\<lparr>nodes := snd (node_Watch (rev d) buf st1)\<rparr>"
    by auto
  then have "amap (nodes (snd (store_Watch p buf s))) q = mkdir_abs d (amap (nodes s)) q"
    using node_Watch_effect(1) [OF st1(2), of buf] assms(5) by simp
  with assms(4,5) show ?thesis by (simp add: leaf_def mkdir_abs_def as_dir_def split: option.splits)
qed


section \<open>Texts\<close>

text \<open>The store as a total map of texts: a path that has none reads as the empty text.\<close>

definition texts_of :: "amap \<Rightarrow> texts" where
  "texts_of D q = (case D q of None \<Rightarrow> '''' | Some a \<Rightarrow> aval a)"

abbreviation store_texts :: "store \<Rightarrow> texts" where
  "store_texts s \<equiv> texts_of (amap (nodes s))"

abbreviation live :: "store \<Rightarrow> bool" where
  "live s \<equiv> store_ok s \<and> \<not> rootNil s"

lemma texts_put_abs: "texts_of (put_abs p v D) = (texts_of D)(p := v)"
  by (auto simp: texts_of_def put_abs_def as_dir_def fun_eq_iff split: option.splits)

lemma texts_mkdir_abs: "texts_of (mkdir_abs p D) = texts_of D"
  by (auto simp: texts_of_def mkdir_abs_def as_dir_def fun_eq_iff split: option.splits)

text \<open>The texts after an assignment to a path string, as the bulk operations make it.\<close>

definition assign :: "string \<Rightarrow> string \<Rightarrow> texts \<Rightarrow> texts" where
  "assign p v T = (case put_target p of None \<Rightarrow> T | Some q \<Rightarrow> T(q := v))"

lemma texts_put_str: "texts_of (put_str p v D) = assign p v (texts_of D)"
  by (simp add: put_str_def assign_def texts_put_abs texts_mkdir_abs split: option.splits)

definition assign_all :: "string \<Rightarrow> (string, string) gomap \<Rightarrow> texts \<Rightarrow> texts" where
  "assign_all base = fold (\<lambda>(k, v). assign (AppendPathPrefix k base) v)"

lemma texts_put_str_fold:
  "texts_of (fold (\<lambda>(k, v). put_str (AppendPathPrefix k base) v) kvs D) = assign_all base kvs (texts_of D)"
  by (induction kvs arbitrary: D) (auto simp: assign_all_def texts_put_str)

lemma texts_clean_rel: "\<forall>q. clean_rel (D q) (D' q) \<Longrightarrow> texts_of D' = texts_of D"
proof
  fix q
  assume "\<forall>q. clean_rel (D q) (D' q)"
  then have "clean_rel (D q) (D' q)" ..
  then show "texts_of D' q = texts_of D q" by (auto simp: texts_of_def clean_rel_def)
qed

lemma texts_upd: "texts_of (D(p := a)) = (texts_of D)(p := case a of None \<Rightarrow> [] | Some b \<Rightarrow> aval b)"
  by (auto simp: texts_of_def)

lemma texts_internalPut:
  "\<not> rootNil s \<Longrightarrow> store_texts (snd (internalPut p v s)) = assign p v (store_texts s)"
  using internalPut_effect [of s p v] texts_put_str [of p v "amap (nodes s)"]
  by (auto simp: put_str_def)

lemma texts_internalPutBulk:
  "\<not> rootNil s \<Longrightarrow> store_texts (snd (internalPutBulk p kvs s)) = assign_all p kvs (store_texts s)"
  using internalPutBulk_effect [of s p kvs] by (auto simp: texts_put_str_fold)

lemma assign_clean:
  "assign (abs_path (path_elems p)) v T = (if path_elems p = [] then T else T(path_elems p := v))"
  using path_Split_append [of "''''" "''''"] by (simp add: assign_def put_target_canon) (simp add: put_target_def)

text \<open>The effect of \<^verbatim>\<open>Store.Put\<close> on the texts: a string is assigned, a container is flattened.\<close>

definition put_texts :: "string \<Rightarrow> goval \<Rightarrow> texts \<Rightarrow> texts" where
  "put_texts p val T =
     (case val of
        VStr v \<Rightarrow> (if path_elems p = [] then T else T(path_elems p := v))
      | _ \<Rightarrow> (case Flatten val of Inl e \<Rightarrow> T | Inr kvs \<Rightarrow> assign_all (abs_path (path_elems p)) kvs T))"

lemma texts_store_Put:
  assumes "\<not> rootNil s"
  shows "store_texts (snd (store_Put p val s)) = put_texts p val (store_texts s)"
proof (cases val)
  case (VStr v)
  have "store_texts (snd (store_Put p val s)) =
      store_texts (snd (internalPut (abs_path (path_elems p)) v s))"
    by (auto simp: store_Put_def VStr clean_join_root split: prod.splits sum.splits)
  with assms show ?thesis by (simp add: VStr texts_internalPut assign_clean put_texts_def)
qed (use assms in \<open>simp_all add: store_Put_def put_texts_def Flatten_def texts_internalPutBulk clean_join_root\<close>)

lemma texts_store_Delete:
  assumes "store_ok s" and "\<not> rootNil s"
  shows "store_texts (store_Delete p s) = clear_texts (path_elems p) (store_texts s)"
proof
  fix q
  have t: "texts_of D r = (case entry D r of None \<Rightarrow> '''' | Some v \<Rightarrow> v)" for D r
    by (auto simp: texts_of_def entry_def split: option.splits)
  show "store_texts (store_Delete p s) q = clear_texts (path_elems p) (store_texts s) q"
    unfolding t clear_texts_def store_Delete_entry [OF assms] by simp
qed

lemma texts_node_Watch:
  assumes "deref r st = Some n"
  shows "texts_of (amap (snd (node_Watch r buf st))) = texts_of (amap st)"
proof -
  have "texts_of (amap st) (rev r) = nValue n"
    using deref_amap [OF assms] by (simp add: texts_of_def attr_of_def)
  then show ?thesis
    unfolding node_Watch_effect(1) [OF assms, of buf] texts_upd
    by (simp add: fun_upd_idem_iff attr_of_def)
qed

lemma texts_store_Watch:
  assumes "store_ok s"
  shows "store_texts (snd (store_Watch p buf s)) = store_texts s"
proof -
  consider "rootNil s" | d where "\<not> rootNil s" "p = ''/'' \<and> d = [] \<or> p \<noteq> ''/'' \<and> put_target p = Some d"
    | "\<not> rootNil s" "p \<noteq> ''/''" "put_target p = None"
    by (cases "rootNil s"; cases "p = ''/''"; cases "put_target p") auto
  then show ?thesis
  proof cases
    case 1
    then show ?thesis by (simp add: store_Watch_nil)
  next
    case (2 d)
    from store_Watch_effect [OF 2, of buf] obtain st1 n where
      "amap st1 = mkdir_abs d (amap (nodes s))" "deref (rev d) st1 = Some n"
      "snd (store_Watch p buf s) = s\<lparr>nodes := snd (node_Watch (rev d) buf st1)\<rparr>"
      by auto
    then show ?thesis by (simp add: texts_node_Watch texts_mkdir_abs)
  next
    case 3
    have "node_ok (tree (nodes s))" using assms by (simp add: store_ok_def nodes_ok_def)
    with store_Watch_panic [OF 3, of buf] show ?thesis by (auto simp: texts_mkdir_abs)
  qed
qed

lemma texts_clean_step: "clean_step s = Some s' \<Longrightarrow> store_texts s' = store_texts s"
  using clean_step_effect [of s s'] texts_clean_rel by (auto simp: cleaned_def)

lemma texts_watcher_Remove:
  assumes "store_ok s"
  shows "store_texts (snd (watcher_Remove i s)) = store_texts s"
proof (cases "length (wtab (nodes s)) \<le> i \<or> closed (wtab (nodes s) ! i)")
  case True
  then show ?thesis by (simp add: watcher_Remove_closed)
next
  case False
  have "texts_of (amap (unregister i st)) = texts_of (amap st)" for st
    unfolding amap_unregister texts_upd
    by (simp add: fun_upd_idem_iff) (simp add: texts_of_def split: option.splits)
  with False show ?thesis using watcher_Remove_open [of s i] assms by (auto simp: store_ok_def)
qed

text \<open>The abstract effect of a labelled step.\<close>

fun op_texts :: "store_op \<Rightarrow> texts \<Rightarrow> texts" where
  "op_texts (OpPut p v) T = put_texts p v T"
| "op_texts (OpPutBulk p kvs) T = assign_all p kvs T"
| "op_texts (OpDelete p) T = clear_texts (path_elems p) T"
| "op_texts _ T = T"

lemma store_step_texts:
  assumes "store_step s op s'" and "store_ok s" and "\<not> rootNil s"
  shows "store_texts s' = op_texts op (store_texts s)"
  using assms
proof cases
  case (Recv i e)
  then show ?thesis by (auto simp: watcher_recv_def split: if_splits option.splits)
next
  case (Clean p)
  then show ?thesis using store_Clean_effect [of p s] by auto
next
  case Destroy
  then show ?thesis by (simp add: store_Destroy_def)
qed (use assms(2,3) in \<open>simp_all add: texts_store_Put store_PutBulk_def texts_internalPutBulk
  texts_store_Delete texts_store_Watch texts_watcher_Remove texts_clean_step\<close>)

lemma rootNil_internalPut [simp]: "rootNil (snd (internalPut p v s)) = rootNil s"
  by (auto simp: internalPut_def Let_def split: prod.splits sum.splits option.splits)

lemma rootNil_internalPut': "internalPut p v s = (x, s') \<Longrightarrow> rootNil s' = rootNil s"
  using rootNil_internalPut [of p v s] by simp

lemma rootNil_internalPutBulk [simp]: "rootNil (snd (internalPutBulk p kvs s)) = rootNil s"
proof (induction p kvs s rule: internalPutBulk.induct)
  case (2 p k v kvs s)
  then show ?case
    by (auto dest: rootNil_internalPut' split: prod.splits sum.splits)
qed simp

lemma rootNil_store_Put [simp]: "rootNil (snd (store_Put p val s)) = rootNil s"
  by (auto simp: store_Put_def Let_def dest: rootNil_internalPut' split: goval.splits prod.splits sum.splits)

interpretation st: text_store "\<lambda>s. live s" path_elems store_texts
  "\<lambda>p v s. snd (store_Put p (VStr v) s)" store_Delete
proof unfold_locales
  fix s p v
  assume "live s"
  then show "live (snd (store_Put p (VStr v) s))" by (simp add: store_ok_store_Put)
qed (simp_all add: texts_store_Put put_texts_def texts_store_Delete store_ok_store_Delete)

end
