(* ===== verification/Access_Props.thy ===== *)
theory Access_Props
  imports Access
begin

text \<open>
  What the compiled rules mean: the mode of a path in the tree is the mode of the last rule for it,
  listing the rules of a tree gives them back, and the store of trees is a map of hosts.
\<close>

section \<open>Following names in an access tree\<close>

fun alookup :: "string list \<Rightarrow> accessNode \<Rightarrow> accessNode option" where
  "alookup [] n = Some n"
| "alookup (x # xs) n =
     (case access_GetChild n x True of None \<Rightarrow> None | Some c \<Rightarrow> alookup xs c)"

definition mode_at :: "accessNode \<Rightarrow> string list \<Rightarrow> AccessMode option" where
  "mode_at t q = map_option aMode (alookup q t)"

fun access_ok :: "accessNode \<Rightarrow> bool" where
  "access_ok (ANode nm m cs) \<longleftrightarrow>
     distinct (map aName cs) \<and> (\<forall>c\<in>set cs. canon (aName c) \<and> access_ok c)"

lemma GetChild_loop_strict:
  "GetChild_loop x True w cs = (case find (\<lambda>c. aName c = x) cs of None \<Rightarrow> w | Some c \<Rightarrow> Some c)"
  by (induction cs arbitrary: w) auto

lemma GetChild_strict: "access_GetChild n x True = find (\<lambda>c. aName c = x) (aChildren n)"
  by (simp add: access_GetChild_def GetChild_loop_strict split: option.splits)

lemma GetChild_loop_wild:
  assumes "distinct (map aName cs)"
  shows "GetChild_loop x False w cs =
    (case find (\<lambda>c. aName c = x) cs of
       Some c \<Rightarrow> Some c
     | None \<Rightarrow> (case find (\<lambda>c. aName c = ''*'') cs of None \<Rightarrow> w | Some c \<Rightarrow> Some c))"
  using assms
proof (induction cs arbitrary: w)
  case (Cons c cs)
  have "aName c = ''*'' \<Longrightarrow> find (\<lambda>c. aName c = ''*'') cs = None"
    using Cons.prems by (force simp: find_None_iff)
  with Cons show ?case by (auto split: option.splits)
qed simp

text \<open>The lookup a traveller uses prefers the exact name over the wildcard.\<close>

lemma GetChild_wildcard:
  assumes "access_ok n"
  shows "access_GetChild n x False =
    (case access_GetChild n x True of Some c \<Rightarrow> Some c | None \<Rightarrow> access_GetChild n ''*'' True)"
  using assms
  by (cases n) (auto simp: GetChild_strict access_GetChild_def [of _ _ False] GetChild_loop_wild
      split: option.splits)

lemma find_replace:
  "find (\<lambda>d. aName d = x) (replace_child c ds) =
    (if x = aName c \<and> find (\<lambda>d. aName d = x) ds \<noteq> None then Some c else find (\<lambda>d. aName d = x) ds)"
  by (induction ds) auto

lemma find_append_single:
  "find P (xs @ [x]) = (case find P xs of Some y \<Rightarrow> Some y | None \<Rightarrow> if P x then Some x else None)"
  by (induction xs) auto

lemma aName_add_components [simp]: "aName (add_components cs mode n) = aName n"
  by (induction cs mode n rule: add_components.induct) (auto split: option.splits)

lemma mode_at_Nil [simp]: "mode_at n [] = Some (aMode n)"
  by (simp add: mode_at_def)

lemma mode_at_Cons:
  "mode_at n (x # q) = Option.bind (find (\<lambda>c. aName c = x) (aChildren n)) (\<lambda>c. mode_at c q)"
  by (simp add: mode_at_def GetChild_strict split: option.splits)

lemma aMode_add_components:
  "aMode (add_components cs mode n) = (if filter (\<lambda>w. w \<noteq> '''') cs = [] then mode else aMode n)"
  by (induction cs mode n rule: add_components.induct) (auto split: option.splits)

lemma mode_at_fresh: "mode_at (ANode nm m []) q = (if q = [] then Some m else None)"
  by (cases q) (simp_all add: mode_at_Cons)

text \<open>The effect of one rule on the modes.\<close>

lemma mode_at_add_components:
  "mode_at (add_components cs mode n) q =
    (if q = filter (\<lambda>w. w \<noteq> '''') cs then Some mode
     else if prefix q (filter (\<lambda>w. w \<noteq> '''') cs) \<and> mode_at n q = None then Some AccessModeNil
     else mode_at n q)"
proof (induction cs arbitrary: n q)
  case Nil
  show ?case by (cases q) (simp_all add: mode_at_Cons)
next
  case (Cons c cs)
  show ?case
  proof (cases "c = ''''")
    case True
    with Cons show ?thesis by simp
  next
    case False
    let ?f = "find (\<lambda>d. aName d = c) (aChildren n)"
    show ?thesis
    proof (cases q)
      case Nil
      with False show ?thesis by (auto simp: GetChild_strict split: option.splits)
    next
      case q: (Cons x q')
      have found: "aName d = c" if "?f = Some d" for d using that by (auto simp: find_Some_iff)
      show ?thesis
      proof (cases ?f)
        case None
        with False q show ?thesis
          by (auto simp: GetChild_strict mode_at_Cons find_append_single Cons.IH mode_at_fresh
              split: option.splits)
      next
        case (Some d)
        with False q found [OF Some] show ?thesis
          by (auto simp: GetChild_strict mode_at_Cons find_replace Cons.IH split: option.splits)
      qed
    qed
  qed
qed

section \<open>Rules and modes\<close>

text \<open>The components of a rule's path, and the mode of the last rule for a path.\<close>

abbreviation rule_elems :: "AccessRule \<Rightarrow> string list" where
  "rule_elems r \<equiv> segs (rPath r)"

definition last_rule :: "AccessRule list \<Rightarrow> string list \<Rightarrow> AccessMode option" where
  "last_rule rules q = fold (\<lambda>r acc. if rule_elems r = q then Some (rMode r) else acc) rules None"

lemma last_rule_snoc:
  "last_rule (rs @ [r]) q = (if rule_elems r = q then Some (rMode r) else last_rule rs q)"
  by (simp add: last_rule_def)

lemma last_rule_Some: "last_rule rs q = Some m \<Longrightarrow> \<exists>r\<in>set rs. rule_elems r = q \<and> rMode r = m"
  by (induction rs rule: rev_induct) (auto simp: last_rule_snoc last_rule_def split: if_splits)

lemma last_rule_None: "last_rule rs q = None \<longleftrightarrow> (\<forall>r\<in>set rs. rule_elems r \<noteq> q)"
  by (induction rs rule: rev_induct) (auto simp: last_rule_snoc, auto simp: last_rule_def)

lemma mode_at_add_rule:
  "mode_at (add_rule r n) q =
    (if q = rule_elems r then Some (rMode r)
     else if prefix q (rule_elems r) \<and> mode_at n q = None then Some AccessModeNil
     else mode_at n q)"
proof (cases "rPath r = ''/''")
  case True
  have "mode_at (ANode (aName n) (rMode r) (aChildren n)) q = (if q = [] then Some (rMode r) else mode_at n q)"
    by (cases q) (simp_all add: mode_at_Cons)
  with True show ?thesis by (simp add: add_rule_def segs_def)
next
  case False
  then show ?thesis by (simp add: add_rule_def segs_def mode_at_add_components)
qed

lemma mode_at_NewAccessTree:
  "mode_at (NewAccessTree rules) q =
    (case last_rule rules q of
       Some m \<Rightarrow> Some m
     | None \<Rightarrow> if q = [] \<or> (\<exists>r\<in>set rules. prefix q (rule_elems r)) then Some AccessModeNil else None)"
proof (induction rules rule: rev_induct)
  case Nil
  then show ?case by (simp add: NewAccessTree_def mode_at_fresh last_rule_def)
next
  case (snoc r rs)
  have "NewAccessTree (rs @ [r]) = add_rule r (NewAccessTree rs)" by (simp add: NewAccessTree_def)
  with snoc show ?case by (auto simp: mode_at_add_rule last_rule_snoc split: option.splits)
qed

section \<open>Well-formedness\<close>

lemma aName_replace_child: "map aName (replace_child c ds) = map aName ds"
  by (induction ds) auto

lemma set_replace_child: "set (replace_child c ds) \<subseteq> insert c (set ds)"
  by (induction ds) auto

lemma access_ok_add_components:
  "access_ok n \<Longrightarrow> \<forall>c\<in>set cs. c \<noteq> '''' \<longrightarrow> canon c \<Longrightarrow> access_ok (add_components cs mode n)"
proof (induction cs arbitrary: n)
  case Nil
  then show ?case by (cases n) simp
next
  case (Cons c cs)
  obtain nm m ds where n: "n = ANode nm m ds" by (cases n)
  show ?case
  proof (cases "c = ''''")
    case True
    with Cons show ?thesis by simp
  next
    case False
    show ?thesis
    proof (cases "find (\<lambda>d. aName d = c) ds")
      case None
      then have "c \<notin> aName ` set ds" by (auto simp: find_None_iff)
      moreover have "access_ok (add_components cs mode (ANode c AccessModeNil []))"
        using Cons by simp
      ultimately show ?thesis using Cons.prems False None n by (auto simp: GetChild_strict)
    next
      case (Some d)
      then have "d \<in> set ds" "aName d = c" by (auto simp: find_Some_iff)
      then have "access_ok (add_components cs mode d)" using Cons n by auto
      then show ?thesis
        using Cons.prems False Some n \<open>aName d = c\<close> set_replace_child [of "add_components cs mode d" ds]
        by (auto simp: GetChild_strict aName_replace_child)
    qed
  qed
qed

text \<open>Rules whose paths have canonical components, and the trees they give.\<close>

definition rules_ok :: "AccessRule list \<Rightarrow> bool" where
  "rules_ok rules \<longleftrightarrow> (\<forall>r\<in>set rules. \<forall>c\<in>set (rule_elems r). canon c)"

lemma access_ok_NewAccessTree: "rules_ok rules \<Longrightarrow> access_ok (NewAccessTree rules)"
proof (induction rules rule: rev_induct)
  case (snoc r rs)
  have "access_ok (NewAccessTree rs)" using snoc by (simp add: rules_ok_def)
  moreover have "access_ok (ANode nm m cs)" if "access_ok (ANode nm' m' cs)" for nm m cs nm' m'
    using that by simp
  ultimately show ?case
    using snoc.prems access_ok_add_components [of "NewAccessTree rs" "strings_Split (rPath r)" "rMode r"]
    by (cases "NewAccessTree rs") (auto simp: NewAccessTree_def add_rule_def rules_ok_def segs_def)
qed (simp add: NewAccessTree_def)


section \<open>Listing the rules\<close>

text \<open>The rules of a subtree at \<open>es\<close>, with paths as component lists.\<close>

fun arules :: "string list \<Rightarrow> accessNode \<Rightarrow> (string list \<times> AccessMode) list" where
  "arules es (ANode nm m cs) =
     (if m \<noteq> AccessModeNil then [(es, m)] else []) @
     concat (map (\<lambda>c. arules (es @ [aName c]) c) cs)"

abbreviation as_rule :: "string list \<times> AccessMode \<Rightarrow> AccessRule" where
  "as_rule \<equiv> (\<lambda>(q, m). \<lparr>rPath = abs_path q, rMode = m\<rparr>)"

lemma fold_append_concat:
  "(\<And>x a. x \<in> set xs \<Longrightarrow> f x a = a @ g x) \<Longrightarrow> fold f xs a = a @ concat (map g xs)"
  by (induction xs arbitrary: a) auto

lemma toAccessRule_arules:
  "access_ok n \<Longrightarrow> \<forall>e\<in>set es. canon e \<Longrightarrow>
    toAccessRule (abs_path es) n rules = rules @ map as_rule (arules es n)"
proof (induction n arbitrary: es rules)
  case (ANode nm m cs)
  have j: "path_Join [abs_path es, aName c] = abs_path (es @ [aName c])" if "c \<in> set cs" for c
    using path_Join_abs_canon [of es "[aName c]"] ANode.prems that by simp
  have "fold (\<lambda>child. toAccessRule (path_Join [abs_path es, aName child]) child) cs rs =
      rs @ concat (map (\<lambda>c. map as_rule (arules (es @ [aName c]) c)) cs)" for rs
  proof (rule fold_append_concat)
    fix c a
    assume c: "c \<in> set cs"
    with ANode.prems have "access_ok c" "\<forall>e\<in>set (es @ [aName c]). canon e" by auto
    then show "toAccessRule (path_Join [abs_path es, aName c]) c a = a @ map as_rule (arules (es @ [aName c]) c)"
      using ANode.IH [OF c] j [OF c] by simp
  qed
  then show ?case by (simp add: map_concat comp_def Let_def)
qed

lemma find_distinct_names:
  "distinct (map aName cs) \<Longrightarrow> find (\<lambda>d. aName d = x) cs = Some c \<longleftrightarrow> c \<in> set cs \<and> aName c = x"
  by (induction cs) (force simp: image_iff)+

lemma arules_modes:
  "access_ok n \<Longrightarrow> (p, m) \<in> set (arules es n) \<longleftrightarrow>
    (\<exists>q. p = es @ q \<and> mode_at n q = Some m \<and> m \<noteq> AccessModeNil)"
proof (induction n arbitrary: es)
  case (ANode nm m' cs)
  have d: "distinct (map aName cs)" using ANode.prems by simp
  have "(p, m) \<in> set (arules es (ANode nm m' cs)) \<longleftrightarrow>
      p = es \<and> m = m' \<and> m' \<noteq> AccessModeNil \<or>
      (\<exists>c\<in>set cs. \<exists>q. p = (es @ [aName c]) @ q \<and> mode_at c q = Some m \<and> m \<noteq> AccessModeNil)"
    using ANode.IH ANode.prems by auto
  also have "\<dots> \<longleftrightarrow> (\<exists>q. p = es @ q \<and> mode_at (ANode nm m' cs) q = Some m \<and> m \<noteq> AccessModeNil)"
  proof
    assume "p = es \<and> m = m' \<and> m' \<noteq> AccessModeNil \<or>
      (\<exists>c\<in>set cs. \<exists>q. p = (es @ [aName c]) @ q \<and> mode_at c q = Some m \<and> m \<noteq> AccessModeNil)"
    then show "\<exists>q. p = es @ q \<and> mode_at (ANode nm m' cs) q = Some m \<and> m \<noteq> AccessModeNil"
    proof (elim disjE bexE exE)
      fix c q
      assume c: "c \<in> set cs" and p: "p = (es @ [aName c]) @ q \<and> mode_at c q = Some m \<and> m \<noteq> AccessModeNil"
      have "find (\<lambda>d. aName d = aName c) cs = Some c" using c find_distinct_names [OF d] by blast
      with p show ?thesis by (intro exI [of _ "aName c # q"]) (simp add: mode_at_Cons)
    qed (intro exI [of _ "[]"], simp)
  next
    assume "\<exists>q. p = es @ q \<and> mode_at (ANode nm m' cs) q = Some m \<and> m \<noteq> AccessModeNil"
    then obtain q where q: "p = es @ q" "mode_at (ANode nm m' cs) q = Some m" "m \<noteq> AccessModeNil" by blast
    show "p = es \<and> m = m' \<and> m' \<noteq> AccessModeNil \<or>
      (\<exists>c\<in>set cs. \<exists>q. p = (es @ [aName c]) @ q \<and> mode_at c q = Some m \<and> m \<noteq> AccessModeNil)"
    proof (cases q)
      case Nil
      with q show ?thesis by simp
    next
      case (Cons x r)
      with q(2) obtain c where c: "find (\<lambda>d. aName d = x) cs = Some c" "mode_at c r = Some m"
        by (auto simp: mode_at_Cons bind_eq_Some_conv)
      then have "c \<in> set cs" "aName c = x" using find_distinct_names [OF d] by simp_all
      with c(2) q(1,3) Cons show ?thesis by auto
    qed
  qed
  finally show ?case .
qed

lemma aName_NewAccessTree: "aName (NewAccessTree rules) = ''/''"
proof (induction rules rule: rev_induct)
  case (snoc r rs)
  then show ?case by (auto simp: NewAccessTree_def add_rule_def)
qed (simp add: NewAccessTree_def)

lemma ToAccessRule_set:
  assumes "access_ok t" and "aName t = ''/''"
  shows "set (ToAccessRule t) =
    {\<lparr>rPath = abs_path q, rMode = m\<rparr> | q m. mode_at t q = Some m \<and> m \<noteq> AccessModeNil}"
proof -
  have "ToAccessRule t = map as_rule (arules [] t)"
    using toAccessRule_arules [OF assms(1), of "[]" "[]"] assms(2) by (simp add: ToAccessRule_def)
  moreover have "(q, m) \<in> set (arules [] t) \<longleftrightarrow> mode_at t q = Some m \<and> m \<noteq> AccessModeNil" for q m
    using arules_modes [OF assms(1), of q m "[]"] by auto
  ultimately show ?thesis by (force simp: image_iff)
qed

lemma mode_at_canon: "access_ok t \<Longrightarrow> mode_at t q \<noteq> None \<Longrightarrow> \<forall>e\<in>set q. canon e"
proof (induction q arbitrary: t)
  case (Cons x q)
  then obtain c where c: "find (\<lambda>d. aName d = x) (aChildren t) = Some c" "mode_at c q \<noteq> None"
    by (auto simp: mode_at_Cons bind_eq_None_conv)
  then have "c \<in> set (aChildren t)" "aName c = x" by (auto simp: find_Some_iff)
  with Cons c(2) show ?case by (cases t) auto
qed simp

lemma last_rule_ToAccessRule:
  assumes "access_ok t" and "aName t = ''/''"
  shows "last_rule (ToAccessRule t) q =
    (case mode_at t q of None \<Rightarrow> None | Some m \<Rightarrow> if m = AccessModeNil then None else Some m)"
proof -
  have seg: "segs (abs_path q) = q" if "mode_at t q = Some m" for q m
    using that mode_at_canon [OF assms(1), of q] by (intro segs_abs_path) auto
  then have sub: "mode_at t (rule_elems r) = Some (rMode r)" "rMode r \<noteq> AccessModeNil"
    if "r \<in> set (ToAccessRule t)" for r
    using that ToAccessRule_set [OF assms] by auto
  show ?thesis
  proof (cases "last_rule (ToAccessRule t) q")
    case None
    then have "\<forall>r\<in>set (ToAccessRule t). rule_elems r \<noteq> q" by (simp add: last_rule_None)
    moreover have "\<lparr>rPath = abs_path q, rMode = m\<rparr> \<in> set (ToAccessRule t) \<and> segs (abs_path q) = q"
      if "mode_at t q = Some m" "m \<noteq> AccessModeNil" for m
      using that ToAccessRule_set [OF assms] seg by auto
    ultimately show ?thesis using None by (fastforce split: option.splits)
  next
    case (Some m)
    then obtain r where "r \<in> set (ToAccessRule t)" "rule_elems r = q" "rMode r = m"
      using last_rule_Some by blast
    with sub Some show ?thesis by auto
  qed
qed


section \<open>A map of hosts\<close>

text \<open>
  The contract of a keyed store of compiled rules, and what its clients get from it: after a
  sequence of puts and deletes the last one for a host decides.
\<close>

datatype 'r host_op = HPut string 'r | HDelete string

fun hop_host :: "'r host_op \<Rightarrow> string" where
  "hop_host (HPut h r) = h"
| "hop_host (HDelete h) = h"

fun hop_result :: "('r \<Rightarrow> 't) \<Rightarrow> 'r host_op \<Rightarrow> 't option" where
  "hop_result compile (HPut h r) = Some (compile r)"
| "hop_result compile (HDelete h) = None"

locale host_map =
  fixes look :: "string \<Rightarrow> 's \<Rightarrow> 't option"
    and put :: "string \<Rightarrow> 'r \<Rightarrow> 's \<Rightarrow> 's"
    and del :: "string \<Rightarrow> 's \<Rightarrow> 's"
    and compile :: "'r \<Rightarrow> 't"
  assumes look_put: "look h (put k r s) = (if h = k then Some (compile r) else look h s)"
    and look_del: "look h (del k s) = (if h = k then None else look h s)"
begin

fun hexec :: "'r host_op \<Rightarrow> 's \<Rightarrow> 's" where
  "hexec (HPut h r) s = put h r s"
| "hexec (HDelete h) s = del h s"

lemma look_hexec: "look h (hexec op s) = (if h = hop_host op then hop_result compile op else look h s)"
  by (cases op) (simp_all add: look_put look_del)

lemma look_run_untouched:
  "\<forall>op\<in>set ops. hop_host op \<noteq> h \<Longrightarrow> look h (fold hexec ops s) = look h s"
  by (induction ops arbitrary: s) (auto simp: look_hexec)

lemma look_run_last:
  assumes "\<forall>op'\<in>set ops'. hop_host op' \<noteq> hop_host op"
  shows "look (hop_host op) (fold hexec (ops @ op # ops') s) = hop_result compile op"
  using look_run_untouched [OF assms] by (simp add: look_hexec)

text \<open>Several puts with different hosts.\<close>

lemma look_puts:
  "distinct (map fst rs) \<Longrightarrow> look h (fold (\<lambda>(k, r). put k r) rs s) =
    (case map_of rs h of Some r \<Rightarrow> Some (compile r) | None \<Rightarrow> look h s)"
proof (induction rs arbitrary: s)
  case (Cons kr rs)
  then have "map_of rs (fst kr) = None" by (auto simp: map_of_eq_None_iff)
  with Cons show ?case by (cases kr) (auto simp: look_put split: option.splits)
qed simp

end

interpretation hosts: host_map accessStore_Get accessStore_Put accessStore_Delete NewAccessTree
  by unfold_locales (simp_all add: accessStore_Get_def accessStore_Put_def accessStore_Delete_def)

lemma accessStore_Puts_eq: "accessStore_Puts rules s = fold (\<lambda>(k, r). accessStore_Put k r) rules s"
  unfolding accessStore_Puts_def by (rule fold_cong) (auto simp: accessStore_Put_def fun_eq_iff)

lemma map_of_fold_update:
  "map_ok m \<Longrightarrow> map_of (fold (\<lambda>(k, v). AList.update k (f v)) m acc) h =
    (case map_of m h of Some v \<Rightarrow> Some (f v) | None \<Rightarrow> map_of acc h)"
proof (induction m arbitrary: acc)
  case (Cons kv m)
  then have "map_of m (fst kv) = None" by (auto simp: map_of_eq_None_iff)
  with Cons show ?case by (cases kv) (auto split: option.splits)
qed simp

lemma GetAccessRule_hosts:
  "map_of (fold (\<lambda>host result. if host = '''' then result
      else case map_of s host of None \<Rightarrow> result
           | Some t \<Rightarrow> AList.update host (ToAccessRule t) result) hosts acc) h =
    (if h \<in> set hosts \<and> h \<noteq> '''' \<and> map_of s h \<noteq> None
     then map_option ToAccessRule (map_of s h) else map_of acc h)"
  by (induction hosts arbitrary: acc) (auto split: option.splits)

lemma map_of_GetAccessRule:
  assumes "map_ok s"
  shows "map_of (accessStore_GetAccessRule hosts s) h =
    (if hosts = [] \<or> h \<in> set hosts \<and> h \<noteq> '''' then map_option ToAccessRule (accessStore_Get h s) else None)"
  using map_of_fold_update [OF assms, of ToAccessRule "[]" h] GetAccessRule_hosts [of s hosts "[]" h]
  by (auto simp: accessStore_GetAccessRule_def accessStore_Get_def split: option.splits)

section \<open>Properties\<close>

text \<open>C22: Compiling rules: the mode of a path in the tree is the mode of the last rule for that path; a
  path that has no rule of its own but lies above one that has carries \<^verbatim>\<open>AccessModeNil\<close>; any other path
  is not in the tree.\<close>

theorem NewAccessTree_modes:
  "map_option aMode (alookup q (NewAccessTree rules)) =
    (case last_rule rules q of
       Some m \<Rightarrow> Some m
     | None \<Rightarrow> if q = [] \<or> (\<exists>r\<in>set rules. prefix q (segs (rPath r))) then Some AccessModeNil else None)"
  using mode_at_NewAccessTree [of rules q] by (simp add: mode_at_def)

definition sample_rules :: "AccessRule list" where
  "sample_rules = [\<lparr>rPath = ''/'', rMode = 0\<rparr>, \<lparr>rPath = ''/a/b'', rMode = 1\<rparr>, \<lparr>rPath = ''/a/*'', rMode = 0\<rparr>]"

lemma rules_ok_sample: "rules_ok sample_rules"
  by code_simp

text \<open>Listing the rules of a compiled tree gives the rules back: for every path, the last rule listed
  is the last rule compiled, \<^verbatim>\<open>AccessModeNil\<close> rules excepted.\<close>

theorem ToAccessRule_roundtrip:
  assumes "rules_ok rules"
  shows "last_rule (ToAccessRule (NewAccessTree rules)) q =
    (case last_rule rules q of None \<Rightarrow> None | Some m \<Rightarrow> if m = AccessModeNil then None else Some m)"
  unfolding last_rule_ToAccessRule [OF access_ok_NewAccessTree [OF assms] aName_NewAccessTree]
    mode_at_NewAccessTree
  by (simp split: option.splits)

theorem ToAccessRule_roundtrip_witness:
  "last_rule (ToAccessRule (NewAccessTree sample_rules)) [''a'', ''b''] = Some 1"
proof -
  have "last_rule sample_rules [''a'', ''b''] = Some 1" by code_simp
  then show ?thesis
    using ToAccessRule_roundtrip [OF rules_ok_sample, of "[''a'', ''b'']"]
    by (simp add: AccessModeNil_def)
qed

text \<open>The store of access trees: after a bulk put, a host in the request has the tree compiled from
  its rules and any other host the tree it had; the rules reported for a list of hosts are those of
  the listed hosts that have a tree (of all hosts for an empty list).\<close>

theorem accessStore_Puts_GetAccessRule:
  assumes "map_ok s" and "map_ok rules"
  shows "map_of (accessStore_GetAccessRule hosts (accessStore_Puts rules s)) h =
    (if hosts = [] \<or> h \<in> set hosts \<and> h \<noteq> ''''
     then map_option ToAccessRule
       (case map_of rules h of Some r \<Rightarrow> Some (NewAccessTree r) | None \<Rightarrow> accessStore_Get h s)
     else None)"
proof -
  have "map_ok (accessStore_Puts rules s)"
    unfolding accessStore_Puts_def
    by (rule fold_invariant [where P = map_ok]) (auto simp: assms(1))
  moreover have "accessStore_Get h (accessStore_Puts rules s) =
      (case map_of rules h of Some r \<Rightarrow> Some (NewAccessTree r) | None \<Rightarrow> accessStore_Get h s)"
    unfolding accessStore_Puts_eq by (rule hosts.look_puts [OF assms(2)])
  ultimately show ?thesis by (simp add: map_of_GetAccessRule)
qed

theorem accessStore_Puts_GetAccessRule_witness:
  "map_of (accessStore_GetAccessRule [''h''] (accessStore_Puts [(''h'', sample_rules)] NewAccessStore)) ''h'' =
    Some (ToAccessRule (NewAccessTree sample_rules))"
  using accessStore_Puts_GetAccessRule [of NewAccessStore "[(''h'', sample_rules)]" "[''h'']" "''h''"]
  by (simp add: NewAccessStore_def)

text \<open>\<^verbatim>\<open>CheckAccessRules\<close> rejects a list exactly when some mode is outside -1..1; rules that repeat a
  path are never rejected.\<close>

theorem CheckAccessRules_modes_only:
  "CheckAccessRules rules =
    map_option (\<lambda>r. InvalidMode (rMode r)) (find (\<lambda>r. \<not> (- 1 \<le> rMode r \<and> rMode r \<le> 1)) rules)"
proof -
  have "CheckAccessRules_loop [] rules =
      map_option (\<lambda>r. InvalidMode (rMode r)) (find (\<lambda>r. \<not> (- 1 \<le> rMode r \<and> rMode r \<le> 1)) rules)"
    by (induction rules) (auto simp: CheckAccessMode_def access_mode_defs)
  then show ?thesis by (simp add: CheckAccessRules_def)
qed

end
