(* ===== verification/Traveller_Props.thy ===== *)
theory Traveller_Props
  imports Traveller Store_Props Access_Props
begin

text \<open>
  A traveller moves and reads exactly where the access rules admit it, and a failed move or a read
  leaves it where it was.
\<close>

section \<open>What the rules admit\<close>

text \<open>
  One step from an access node (or none) and an inherited mode to the name \<open>x\<close>: the new access node
  and mode, or \<open>None\<close> when the step is denied; and a sequence of steps.
\<close>

definition admit :: "accessNode option \<Rightarrow> AccessMode \<Rightarrow> string \<Rightarrow> (accessNode option \<times> AccessMode) option" where
  "admit an m x =
     (case Option.bind an (\<lambda>a. access_GetChild a x False) of
        Some a \<Rightarrow>
          if HasChild a \<or> aMode a \<ge> AccessModeRead
          then Some (Some a, if aMode a \<noteq> AccessModeNil then aMode a else m) else None
      | None \<Rightarrow> if m \<ge> AccessModeRead then Some (None, m) else None)"

fun admits :: "accessNode option \<Rightarrow> AccessMode \<Rightarrow> string list \<Rightarrow> (accessNode option \<times> AccessMode) option" where
  "admits an m [] = Some (an, m)"
| "admits an m (x # xs) = (case admit an m x of None \<Rightarrow> None | Some (an', m') \<Rightarrow> admits an' m' xs)"

abbreviation permitted :: "accessNode \<Rightarrow> string list \<Rightarrow> bool" where
  "permitted root es \<equiv> admits (Some root) (aMode root) es \<noteq> None"

section \<open>Moving\<close>

definition moved :: "string \<Rightarrow> accessNode option \<times> AccessMode \<Rightarrow> nodeTraveller \<Rightarrow> nodeTraveller" where
  "moved x am t =
     t\<lparr>stack := stack t @ [\<lparr>seNode = currAccessNode t, seMode = currMode t\<rparr>],
       currNode := map_option ((#) x) (currNode t), currAccessNode := fst am, currMode := snd am\<rparr>"

lemma moved_fields [simp]:
  "tOpen (moved x am t) = tOpen t" "access (moved x am t) = access t"
  "currNode (moved x am t) = map_option ((#) x) (currNode t)"
  "currAccessNode (moved x am t) = fst am" "currMode (moved x am t) = snd am"
  by (simp_all add: moved_def)

lemma enter1_eq:
  assumes "currNode t = Some r" and "x \<noteq> ''/''"
  shows "traveller_enter1 s x t =
    (if amap (nodes s) (rev r @ [x]) = None then Inr (False, t)
     else case admit (currAccessNode t) (currMode t) x of
       None \<Rightarrow> Inr (False, t) | Some am \<Rightarrow> Inr (True, moved x am t))"
proof -
  have "Option.bind (deref r (nodes s)) (\<lambda>n. node_GetChild n x) = lookup_path (rev r @ [x]) (tree (nodes s))"
    by (simp add: deref_def lookup_path_snoc node_GetChild_kids [abs_def])
  moreover have "(case currAccessNode t of None \<Rightarrow> None | Some a \<Rightarrow> access_GetChild a x False) =
      Option.bind (currAccessNode t) (\<lambda>a. access_GetChild a x False)"
    by (cases "currAccessNode t") simp_all
  ultimately show ?thesis
    using assms
    by (auto simp: traveller_enter1_def admit_def moved_def stack_Push_def flat_None_iff Let_def
        split: option.splits)
qed

lemma Back_moved:
  assumes "tOpen t" and "currNode t = Some r"
  shows "traveller_Back (moved x am t) = Inr t"
  using assms by (simp add: traveller_Back_def moved_def stack_Pop_def IsRoot_def)

text \<open>Following several names.\<close>

fun travel :: "string list \<Rightarrow> nodeTraveller \<Rightarrow> nodeTraveller option" where
  "travel [] t = Some t"
| "travel (x # xs) t =
     (case admit (currAccessNode t) (currMode t) x of None \<Rightarrow> None | Some am \<Rightarrow> travel xs (moved x am t))"

lemma travel_fields:
  "travel xs t = Some t' \<Longrightarrow> tOpen t' = tOpen t \<and> access t' = access t \<and>
    (\<forall>r. currNode t = Some r \<longrightarrow> currNode t' = Some (rev xs @ r)) \<and>
    admits (currAccessNode t) (currMode t) xs = Some (currAccessNode t', currMode t')"
proof (induction xs arbitrary: t)
  case (Cons x xs)
  then obtain am where am: "admit (currAccessNode t) (currMode t) x = Some am"
    "travel xs (moved x am t) = Some t'" by (auto split: option.splits)
  then show ?case using Cons.IH [OF am(2)] by (cases am) simp
qed auto

lemma travel_None: "travel xs t = None \<longleftrightarrow> admits (currAccessNode t) (currMode t) xs = None"
  by (induction xs arbitrary: t) (auto split: option.splits)

lemma BackStep_travel:
  assumes "travel xs t = Some t'" and "tOpen t" and "currNode t = Some r"
    and "traveller_BackStep k t = Inr t0"
  shows "traveller_BackStep (k + length xs) t' = Inr t0"
  using assms
proof (induction xs arbitrary: t r k)
  case (Cons x xs)
  obtain am where am: "admit (currAccessNode t) (currMode t) x = Some am" "travel xs (moved x am t) = Some t'"
    using Cons.prems(1) by (auto split: option.splits)
  have "traveller_BackStep (Suc k) (moved x am t) = Inr t0"
    using Cons.prems(2-4) Back_moved by simp
  then show ?case using Cons.IH [OF am(2), of "x # r" "Suc k"] Cons.prems(2,3) by simp
qed simp

lemma enter_loop_eq:
  assumes "tOpen t" and "currNode t = Some r" and "\<forall>c\<in>set cs. CHR ''/'' \<notin> set c"
    and "deref r (nodes s) \<noteq> None" and "traveller_BackStep k t = Inr t0"
  shows "enter_loop s cs k t =
    (let es = filter (\<lambda>c. c \<noteq> '''') cs
     in if amap (nodes s) (rev r @ es) = None then Inr (False, t0)
        else case travel es t of None \<Rightarrow> Inr (False, t0) | Some t' \<Rightarrow> Inr (True, t'))"
  using assms
proof (induction cs arbitrary: t r k)
  case Nil
  then have "amap (nodes s) (rev r) \<noteq> None" by (simp add: amap_deref)
  then show ?case by simp
next
  case (Cons c cs)
  show ?case
  proof (cases "c = ''''")
    case True
    with Cons show ?thesis by simp
  next
    case False
    have ns: "c \<noteq> ''/''" using Cons.prems(3) by auto
    let ?es = "filter (\<lambda>c. c \<noteq> '''') cs"
    note e1 = enter1_eq [OF Cons.prems(2) ns, of s]
    show ?thesis
    proof (cases "amap (nodes s) (rev r @ [c]) = None")
      case True
      then have "amap (nodes s) ((rev r @ [c]) @ ?es) = None" using flat_prefix_closed by blast
      with True False e1 Cons.prems(5) show ?thesis by simp
    next
      case node: False
      show ?thesis
      proof (cases "admit (currAccessNode t) (currMode t) c")
        case None
        with False e1 Cons.prems(5) node show ?thesis by (simp add: Let_def)
      next
        case (Some am)
        have "traveller_BackStep (Suc k) (moved c am t) = Inr t0"
          using Cons.prems(1,2,5) Back_moved by simp
        moreover have "deref (c # r) (nodes s) \<noteq> None" using node by (simp add: deref_def flat_None_iff)
        ultimately show ?thesis
          using Cons.IH [of "moved c am t" "c # r" "Suc k"] Cons.prems Some False e1 node
          by (simp add: Let_def)
      qed
    qed
  qed
qed

lemma traveller_Enter_eq:
  assumes "tOpen t" and "currNode t = Some r" and "deref r (nodes s) \<noteq> None"
  shows "traveller_Enter s p t =
    (if amap (nodes s) (rev r @ segs p) = None then Inr (False, t)
     else case travel (segs p) t of None \<Rightarrow> Inr (False, t) | Some t' \<Rightarrow> Inr (True, t'))"
proof (cases "p = ''/''")
  case True
  have "amap (nodes s) (rev r) \<noteq> None" using assms(3) by (simp add: amap_deref)
  with True assms show ?thesis by (simp add: traveller_Enter_def traveller_enter1_def segs_def)
next
  case False
  have "\<forall>c\<in>set (strings_Split p). CHR ''/'' \<notin> set c" using strings_Split_no_slash by blast
  with False show ?thesis
    using enter_loop_eq [OF assms(1,2) _ assms(3), of "strings_Split p" 0 t] assms(1)
    by (simp add: traveller_Enter_def segs_def Let_def)
qed


section \<open>Reading\<close>

lemma Enter_name:
  assumes "tOpen t" and "currNode t = Some r" and "deref r (nodes s) = Some n" and "map_of (kids n) x = Some c"
    and "seg x"
  shows "traveller_Enter s x t =
    (case admit (currAccessNode t) (currMode t) x of None \<Rightarrow> Inr (False, t) | Some am \<Rightarrow> Inr (True, moved x am t))"
proof -
  have "lookup_path (rev r @ [x]) (tree (nodes s)) = Some c"
    using assms(3,4) by (simp add: lookup_path_snoc deref_def)
  then have "amap (nodes s) (rev r @ [x]) \<noteq> None" by (simp add: flat_None_iff)
  then show ?thesis
    using traveller_Enter_eq [OF assms(1,2), of s x] assms(3) segs_single [OF assms(5)]
    by (auto split: option.splits)
qed

text \<open>What a read returns at the node \<open>n\<close>, as the strings in it.\<close>

definition seen :: "nodeTraveller \<Rightarrow> node \<Rightarrow> string list \<Rightarrow> string option" where
  "seen t n q = (if admits (currAccessNode t) (currMode t) q = None then None else leaf (flat n) q)"

definition reads :: "nodeTraveller \<Rightarrow> node \<Rightarrow> goval \<Rightarrow> bool" where
  "reads t n v \<longleftrightarrow> (\<forall>q. val_leaf q v = seen t n q)"

lemma GetValue_children_reads:
  assumes "tOpen t" and "currNode t = Some r" and "deref r (nodes s) = Some n" and "node_ok n"
    and "distinct (map fst ks)" and "\<forall>kn\<in>set ks. snd kn = fst kn \<and> map_of (kids n) (fst kn) \<noteq> None"
    and "\<forall>x\<in>fst ` set ks. map_of vals x = None"
    and IH: "\<And>x c am. map_of (kids n) x = Some c \<Longrightarrow>
      \<exists>v. GetValue_fuel fuel s (moved x am t) = Some (Inr (v, moved x am t)) \<and> reads (moved x am t) c v"
  shows "\<exists>vals'. GetValue_children fuel s ks vals t = Some (Inr (VMap vals', t)) \<and>
    (\<forall>x q. val_leaf (x # q) (VMap vals') =
      (if x \<in> fst ` set ks then seen t n (x # q) else val_leaf (x # q) (VMap vals)))"
  using assms(5-7)
proof (induction ks arbitrary: vals)
  case (Cons kn ks)
  obtain k c where k: "kn = (k, k)" "map_of (kids n) k = Some c" using Cons.prems(2) by (cases kn) auto
  have sk: "seg k" using node_ok_child [OF assms(4) k(2)] by blast
  note ent = Enter_name [OF assms(1-3) k(2) sk]
  have kn: "k \<notin> fst ` set ks" "map_of vals k = None" using Cons.prems k by auto
  have lf: "leaf (flat n) (k # q) = leaf (flat c) q" for q using k(2) by (simp add: leaf_Cons)
  show ?case
  proof (cases "admit (currAccessNode t) (currMode t) k")
    case None
    then have "GetValue_children fuel s (kn # ks) vals t = GetValue_children fuel s ks vals t"
      using ent k(1) by simp
    moreover obtain vals' where "GetValue_children fuel s ks vals t = Some (Inr (VMap vals', t))"
      "\<forall>x q. val_leaf (x # q) (VMap vals') =
        (if x \<in> fst ` set ks then seen t n (x # q) else val_leaf (x # q) (VMap vals))"
      using Cons.IH [of vals] Cons.prems by auto
    moreover have "seen t n (k # q) = None" "val_leaf (k # q) (VMap vals) = None" for q
      using None kn(2) by (simp_all add: seen_def)
    ultimately show ?thesis using kn(1) k(1) by (intro exI [of _ vals']) auto
  next
    case (Some am)
    obtain v where v: "GetValue_fuel fuel s (moved k am t) = Some (Inr (v, moved k am t))"
      "reads (moved k am t) c v" using IH [OF k(2)] by blast
    have vl: "val_leaf q v = seen t n (k # q)" for q
      using v(2) Some lf by (cases am) (simp add: reads_def seen_def)
    let ?vals = "if is_empty_map v then vals else AList.update k v vals"
    have "GetValue_children fuel s (kn # ks) vals t = GetValue_children fuel s ks ?vals t"
      using ent Some v(1) k(1) Back_moved [OF assms(1,2)] by simp
    moreover have "\<forall>x\<in>fst ` set ks. map_of ?vals x = None" using Cons.prems(3) kn(1) k(1) by auto
    moreover have "val_leaf (x # q) (VMap ?vals) = (if x = k then val_leaf q v else val_leaf (x # q) (VMap vals))" for x q
      using kn(2) by (auto simp: is_empty_map_iff)
    moreover obtain vals' where "GetValue_children fuel s ks ?vals t = Some (Inr (VMap vals', t))"
      "\<forall>x q. val_leaf (x # q) (VMap vals') =
        (if x \<in> fst ` set ks then seen t n (x # q) else val_leaf (x # q) (VMap ?vals))"
      using Cons.IH [of ?vals] Cons.prems(1,2) calculation(2) by auto
    ultimately show ?thesis
      using kn(1) k(1) vl by (intro exI [of _ vals'] conjI allI) (simp_all del: val_leaf.simps)
  qed
qed simp

lemma height_child: "map_of (kids n) x = Some c \<Longrightarrow> height c < height n"
proof -
  assume "map_of (kids n) x = Some c"
  then obtain nm v l ws where n: "n = Node nm v (Some l) ws" "(x, c) \<in> set l"
    by (cases n) (auto simp: kids_def dest: map_of_SomeD split: option.splits)
  have "(x, c) \<in> set l \<Longrightarrow> height c \<le> foldr (\<lambda>kc. max (height (snd kc))) l 0" for l
    by (induction l) auto
  with n show ?thesis by (auto simp: less_Suc_eq_le)
qed

lemma GetValue_fuel_reads:
  assumes "tOpen t" and "currNode t = Some r" and "deref r (nodes s) = Some n" and "node_ok n"
    and "height n < fuel"
  shows "\<exists>v. GetValue_fuel fuel s t = Some (Inr (v, t)) \<and> reads t n v"
  using assms
proof (induction fuel arbitrary: t r n)
  case (Suc fuel)
  show ?case
  proof (cases "nChildren n")
    case None
    have "reads t n (VStr (nValue n))"
      unfolding reads_def
    proof
      fix q
      show "val_leaf q (VStr (nValue n)) = seen t n q"
        using None by (cases q) (auto simp: seen_def leaf_root leaf_Cons IsDir_def kids_def)
    qed
    with None Suc.prems show ?thesis by auto
  next
    case (Some cs)
    let ?ks = "map (\<lambda>(k, c). (k, nName c)) cs"
    have cs: "cs = kids n" using Some by (simp add: kids_def)
    have nok: "map_ok cs" "\<forall>kc\<in>set cs. nName (snd kc) = fst kc"
      using Suc.prems(4) node_ok_kids [of n] cs by auto
    have ks: "map fst ?ks = keys cs" by (simp add: comp_def case_prod_beta)
    have kn: "\<forall>kn\<in>set ?ks. snd kn = fst kn \<and> map_of (kids n) (fst kn) \<noteq> None"
      using nok cs by (auto simp: map_of_eq_None_iff) (force+)
    have ki: "fst ` set ?ks = fst ` set cs" using arg_cong [OF ks, of set] by (simp only: set_map)
    have "\<exists>v. GetValue_fuel fuel s (moved x am t) = Some (Inr (v, moved x am t)) \<and> reads (moved x am t) c v"
      if "map_of (kids n) x = Some c" for x c am
    proof (rule Suc.IH [of _ "x # r"])
      show "deref (x # r) (nodes s) = Some c"
        using Suc.prems(3) that by (simp add: deref_def lookup_path_snoc)
      show "node_ok c" using node_ok_child [OF Suc.prems(4) that] by blast
      show "height c < fuel" using height_child [OF that] Suc.prems(5) by simp
    qed (use Suc.prems in simp_all)
    note IH = this
    have "\<exists>vals'. GetValue_children fuel s ?ks [] t = Some (Inr (VMap vals', t)) \<and>
      (\<forall>x q. val_leaf (x # q) (VMap vals') =
        (if x \<in> fst ` set ?ks then seen t n (x # q) else val_leaf (x # q) (VMap [])))"
      by (rule GetValue_children_reads [OF Suc.prems(1-4) _ kn _ IH])
        (simp_all only: ks nok(1) map_of.simps simp_thms ball_triv)
    then obtain vals' where vals': "GetValue_children fuel s ?ks [] t = Some (Inr (VMap vals', t))"
      "\<forall>x q. val_leaf (x # q) (VMap vals') =
        (if x \<in> fst ` set ?ks then seen t n (x # q) else val_leaf (x # q) (VMap []))"
      by blast
    have "reads t n (VMap vals')"
      unfolding reads_def
    proof
      fix q
      show "val_leaf q (VMap vals') = seen t n q"
      proof (cases q)
        case (Cons x q')
        have "x \<notin> fst ` set cs \<Longrightarrow> leaf (flat n) (x # q') = None"
          using cs by (simp add: leaf_Cons map_of_eq_None_iff [symmetric])
        with Cons vals'(2) ki show ?thesis by (simp add: seen_def del: val_leaf.simps)
      qed (use Some in \<open>simp add: seen_def leaf_root IsDir_def\<close>)
    qed
    with vals'(1) Some Suc.prems show ?thesis by auto
  qed
qed simp

lemma height_lookup: "lookup_path p n = Some m \<Longrightarrow> height m \<le> height n"
proof (induction p arbitrary: n)
  case (Cons x p)
  then obtain c where "map_of (kids n) x = Some c" "lookup_path p c = Some m"
    by (auto simp: lookup_path_Cons split: bind_splits)
  then show ?case using Cons.IH height_child by fastforce
qed simp

lemma traveller_GetValue_reads:
  assumes "tOpen t" and "currNode t = Some r" and "deref r (nodes s) = Some n" and "node_ok (tree (nodes s))"
  shows "\<exists>v. traveller_GetValue s t = Some (Inr (v, t)) \<and> reads t n v"
proof -
  have "lookup_path (rev r) (tree (nodes s)) = Some n" using assms(3) by (simp add: deref_def)
  then have "node_ok n" "height n < Suc (height (tree (nodes s)))"
    using assms(4) node_ok_lookup height_lookup by (blast, simp add: le_imp_less_Suc)
  then show ?thesis unfolding traveller_GetValue_def using GetValue_fuel_reads [OF assms(1-3)] by blast
qed


section \<open>Properties\<close>

text \<open>C17: \<^verbatim>\<open>Enter\<close> on an open traveller at an existing node never panics.  It succeeds exactly when the
  path exists below the current node and every step of it is admitted by the rules; then the
  traveller stands at the path's node with the access node and mode the rules give, and as many
  \<^verbatim>\<open>Back\<close>s as the path has components restore it.  Otherwise the traveller is unchanged.\<close>

theorem traveller_Enter_spec:
  assumes "tOpen t" and "currNode t = Some r" and "deref r (nodes s) \<noteq> None"
  shows "if lookup_path (rev r @ segs p) (tree (nodes s)) \<noteq> None \<and>
            admits (currAccessNode t) (currMode t) (segs p) \<noteq> None
    then \<exists>t'. traveller_Enter s p t = Inr (True, t') \<and> currNode t' = Some (rev (segs p) @ r) \<and>
      Some (currAccessNode t', currMode t') = admits (currAccessNode t) (currMode t) (segs p) \<and>
      traveller_BackStep (length (segs p)) t' = Inr t
    else traveller_Enter s p t = Inr (False, t)"
proof (cases "travel (segs p) t")
  case None
  then show ?thesis
    using traveller_Enter_eq [OF assms, of p] travel_None [of "segs p" t] by (auto simp: flat_None_iff)
next
  case (Some t')
  have "traveller_BackStep (0 + length (segs p)) t' = Inr t"
    by (rule BackStep_travel [OF Some assms(1,2)]) simp
  then show ?thesis
    using traveller_Enter_eq [OF assms, of p] travel_None [of "segs p" t] travel_fields [OF Some] Some assms(2)
    by (auto simp: flat_None_iff)
qed

definition sample_tree :: accessNode where
  "sample_tree = NewAccessTree [\<lparr>rPath = ''/a/*'', rMode = 1\<rparr>, \<lparr>rPath = ''/a/c'', rMode = 0\<rparr>]"

definition sample_data :: store where
  "sample_data = snd (store_Put ''/a/b'' (VStr ''1'') (snd (store_Put ''/a/c'' (VStr ''2'') newStore)))"

lemma live_sample_data: "live sample_data"
proof -
  have "reachable sample_data"
    unfolding sample_data_def
    by (rule reachable.step [OF reachable.step [OF reachable.init store_step.Put] store_step.Put])
  moreover have "\<not> rootNil sample_data" by (simp add: sample_data_def) (simp add: newStore_def)
  ultimately show ?thesis using reachable_store_ok by blast
qed

lemma newTraveller_fields [simp]:
  "tOpen (newTraveller s a)" "\<not> rootNil s \<Longrightarrow> currNode (newTraveller s a) = Some []"
  "currAccessNode (newTraveller s a) = Some a" "currMode (newTraveller s a) = aMode a"
  by (simp_all add: newTraveller_def)

theorem traveller_Enter_spec_witness:
  "traveller_Enter sample_data ''/a/c'' (newTraveller sample_data sample_tree) =
    Inr (False, newTraveller sample_data sample_tree)"
proof -
  have "admits (Some sample_tree) (aMode sample_tree) (segs ''/a/c'') = None" by code_simp
  then show ?thesis
    using traveller_Enter_spec [of "newTraveller sample_data sample_tree" "[]" sample_data "''/a/c''"]
      live_sample_data by simp
qed

text \<open>C16: \<^verbatim>\<open>GetValue\<close> on an open traveller at an existing node of a well-formed store returns (its
  recursion never exhausts the height of the tree, and it never panics), leaves the traveller where
  it was, and yields exactly the strings of the subtree whose path every step of the rules admits.\<close>

theorem traveller_GetValue_spec:
  assumes "live s" and "tOpen t" and "currNode t = Some r" and "deref r (nodes s) = Some n"
  shows "\<exists>v. traveller_GetValue s t = Some (Inr (v, t)) \<and>
    (\<forall>q. val_leaf q v =
      (if admits (currAccessNode t) (currMode t) q = None then None
       else leaf (amap (nodes s)) (rev r @ q)))"
proof -
  have "leaf (flat n) q = leaf (amap (nodes s)) (rev r @ q)" for q
    using assms(4) flat_lookup [of "rev r" "tree (nodes s)" n q] by (simp add: deref_def leaf_def)
  moreover have "node_ok (tree (nodes s))" using assms(1) by (simp add: store_ok_def nodes_ok_def)
  then obtain v where "traveller_GetValue s t = Some (Inr (v, t))" "reads t n v"
    using traveller_GetValue_reads [OF assms(2-4)] by blast
  ultimately show ?thesis by (intro exI [of _ v]) (simp add: reads_def seen_def)
qed

theorem traveller_GetValue_spec_witness:
  "\<exists>v. traveller_GetValue sample_data (newTraveller sample_data sample_tree) =
      Some (Inr (v, newTraveller sample_data sample_tree)) \<and>
    val_leaf [''a'', ''b''] v = Some ''1'' \<and> val_leaf [''a'', ''c''] v = None"
proof -
  have "admits (Some sample_tree) (aMode sample_tree) [''a'', ''c''] = None"
    "admits (Some sample_tree) (aMode sample_tree) [''a'', ''b''] \<noteq> None"
    "leaf (amap (nodes sample_data)) [''a'', ''b''] = Some ''1''"
    by code_simp+
  then show ?thesis
    using traveller_GetValue_spec [OF live_sample_data, of "newTraveller sample_data sample_tree" "[]"]
      live_sample_data by fastforce
qed

text \<open>The mode in force at a path: that of the deepest matching access node that has one.\<close>

fun mode_in_force :: "accessNode option \<Rightarrow> AccessMode \<Rightarrow> string list \<Rightarrow> AccessMode" where
  "mode_in_force an m [] = m"
| "mode_in_force an m (x # xs) =
     (let an' = Option.bind an (\<lambda>a. access_GetChild a x False)
      in mode_in_force an' (case an' of Some a \<Rightarrow> if aMode a \<noteq> AccessModeNil then aMode a else m | None \<Rightarrow> m) xs)"

lemma admits_snd: "admits an m es = Some (an', m') \<Longrightarrow> m' = mode_in_force an m es"
  by (induction es arbitrary: an m) (auto simp: admit_def split: option.splits if_splits)

lemma admits_last:
  "admits an m es = Some (an', m') \<Longrightarrow> es \<noteq> [] \<Longrightarrow> m' \<ge> AccessModeRead \<or> (\<exists>a. an' = Some a \<and> HasChild a)"
proof (induction es arbitrary: an m)
  case (Cons x es)
  show ?case
  proof (cases "es = []")
    case True
    with Cons.prems show ?thesis
      by (auto simp: admit_def access_mode_defs split: option.splits if_splits)
  next
    case False
    with Cons show ?thesis by (auto split: option.splits)
  qed
qed simp

text \<open>No string leaks past the rules: whatever \<^verbatim>\<open>GetValue\<close> returns to a traveller that starts at the
  root, each string in it lies at a path where the mode in force is \<^verbatim>\<open>AccessModeRead\<close> or at whose
  access node further rules hang.\<close>

theorem traveller_no_leak:
  assumes "live s" and "traveller_GetValue s (newTraveller s root) = Some (Inr (v, t))"
    and "val_leaf q v = Some x"
  shows "mode_in_force (Some root) (aMode root) q \<ge> AccessModeRead \<or>
    (\<exists>a m. admits (Some root) (aMode root) q = Some (Some a, m) \<and> HasChild a)"
proof -
  obtain n where n: "deref [] (nodes s) = Some n" by simp
  obtain v' where v': "traveller_GetValue s (newTraveller s root) = Some (Inr (v', newTraveller s root))"
    "reads (newTraveller s root) n v'"
    using traveller_GetValue_reads [of "newTraveller s root", OF _ _ n] assms(1)
    by (auto simp: store_ok_def nodes_ok_def)
  then have "admits (Some root) (aMode root) q \<noteq> None" and lf: "leaf (flat n) q = Some x"
    using assms(2,3) by (auto simp: reads_def seen_def split: if_splits)
  then obtain an m where am: "admits (Some root) (aMode root) q = Some (an, m)" by auto
  have "q \<noteq> []"
    using lf n assms(1) by (auto simp: leaf_root store_ok_def nodes_ok_def root_ok_def split: if_splits)
  then show ?thesis using admits_snd [OF am] admits_last [OF am] am by auto
qed

theorem traveller_no_leak_witness:
  "mode_in_force (Some sample_tree) (aMode sample_tree) [''a'', ''b''] \<ge> AccessModeRead \<or>
    (\<exists>a m. admits (Some sample_tree) (aMode sample_tree) [''a'', ''b''] = Some (Some a, m) \<and> HasChild a)"
proof -
  have "traveller_GetValue sample_data (newTraveller sample_data sample_tree) =
      Some (Inr (VMap [(''a'', VMap [(''b'', VStr ''1'')])], newTraveller sample_data sample_tree))"
    by code_simp
  then show ?thesis by (rule traveller_no_leak [OF live_sample_data]) simp
qed


lemma admits_open: "m \<ge> AccessModeRead \<Longrightarrow> admits None m q = Some (None, m)"
  by (induction q) (simp_all add: admit_def)

lemma admits_read_all:
  assumes "m \<ge> AccessModeRead"
  shows "admits (Some (ANode nm m [])) m q \<noteq> None"
  using assms by (cases q) (simp_all add: admit_def access_GetChild_def admits_open)

text \<open>C23: A traveller with the single rule that makes \<^verbatim>\<open>/\<close> readable reads the same strings as \<^verbatim>\<open>Store.Get\<close>, at
  every path it enters; \<^verbatim>\<open>Enter\<close> succeeds on every path that exists.\<close>

theorem traveller_full_access:
  assumes "live s" and "lookup_path (segs p) (tree (nodes s)) \<noteq> None"
    and "\<forall>c\<in>set (segs p). canon c"
  shows "\<exists>t v. traveller_Enter s p (newTraveller s (NewAccessTree [\<lparr>rPath = ''/'', rMode = AccessModeRead\<rparr>])) =
      Inr (True, t) \<and> traveller_GetValue s t = Some (Inr (v, t)) \<and>
    (\<forall>q. val_leaf q v = val_leaf q (snd (store_Get p s)))"
proof -
  let ?root = "ANode ''/'' AccessModeRead []"
  let ?t0 = "newTraveller s ?root"
  have root: "NewAccessTree [\<lparr>rPath = ''/'', rMode = AccessModeRead\<rparr>] = ?root"
    by (simp add: NewAccessTree_def add_rule_def)
  have t0: "tOpen ?t0" "currNode ?t0 = Some []" "deref [] (nodes s) \<noteq> None" using assms(1) by simp_all
  have all: "admits (Some ?root) AccessModeRead q \<noteq> None" for q using admits_read_all by simp
  obtain t where t: "travel (segs p) ?t0 = Some t" "traveller_Enter s p ?t0 = Inr (True, t)"
    using traveller_Enter_eq [OF t0, of p] travel_None [of "segs p" ?t0] all [of "segs p"] assms(2)
    by (fastforce simp: flat_None_iff split: option.splits)
  have f: "tOpen t" "currNode t = Some (rev (segs p))"
    "admits (Some ?root) AccessModeRead (segs p) = Some (currAccessNode t, currMode t)"
    using travel_fields [OF t(1)] t0 by simp_all
  obtain n where n: "deref (rev (segs p)) (nodes s) = Some n" using assms(2) by (auto simp: deref_def)
  obtain v where v: "traveller_GetValue s t = Some (Inr (v, t))" "reads t n v"
    using traveller_GetValue_reads [OF f(1,2) n] assms(1) by (auto simp: store_ok_def nodes_ok_def)
  have split: "admits an m (xs @ ys) = Option.bind (admits an m xs) (\<lambda>(an', m'). admits an' m' ys)" for an m xs ys
    by (induction xs arbitrary: an m) (auto split: option.splits)
  have "seen t n q = leaf (flat n) q" for q
    using all [of "segs p @ q"] f(3) by (auto simp: split seen_def)
  moreover have "leaf (flat n) q = leaf (amap (nodes s)) (segs p @ q)" for q
    using n flat_lookup [of "segs p" "tree (nodes s)" n q] by (simp add: deref_def leaf_def)
  moreover have "path_elems p = segs p"
    using assms(3) by (rule path_elems_canon_segs)
  ultimately have "val_leaf q v = val_leaf q (snd (store_Get p s))" for q
    using v(2) assms(1) by (simp add: reads_def store_Get_leaves)
  with v(1) t(2) root show ?thesis by auto
qed

text \<open>After \<^verbatim>\<open>Close\<close> every method of the traveller panics, \<^verbatim>\<open>Close\<close> included.\<close>

theorem traveller_closed:
  assumes "traveller_Close t = Inr t'"
  shows "traveller_Enter s p t' = Inl closed_panic \<and> traveller_Back t' = Inl closed_panic \<and>
    traveller_BackToRoot s t' = Inl closed_panic \<and> traveller_GetValue s t' = Some (Inl closed_panic) \<and>
    traveller_GetVersion s t' = Inl closed_panic \<and> traveller_Close t' = Inl closed_panic"
proof -
  have "\<not> tOpen t'" using assms by (auto simp: traveller_Close_def split: if_splits)
  then show ?thesis
    by (simp add: traveller_Enter_def traveller_Back_def traveller_BackToRoot_def
        traveller_GetValue_def traveller_GetVersion_def traveller_Close_def)
qed

theorem traveller_closed_witness:
  "\<exists>t'. traveller_Close (newTraveller newStore sample_tree) = Inr t' \<and> traveller_Close t' = Inl closed_panic"
proof -
  obtain t' where "traveller_Close (newTraveller newStore sample_tree) = Inr t'"
    by (simp add: traveller_Close_def)
  with traveller_closed [OF this] show ?thesis by blast
qed

text \<open>A leaf whose own rule is \<^verbatim>\<open>AccessModeForbidden\<close> is still readable when a rule hangs below it.\<close>

theorem traveller_forbidden_leaf_readable:
  "\<exists>s rules v t. live s \<and> CheckAccessRules rules = None \<and>
    last_rule rules [''a'', ''b''] = Some AccessModeForbidden \<and>
    traveller_GetValue s (newTraveller s (NewAccessTree rules)) = Some (Inr (v, t)) \<and>
    val_leaf [''a'', ''b''] v = Some ''1''"
proof -
  let ?rules = "[\<lparr>rPath = ''/a/b'', rMode = 0\<rparr>, \<lparr>rPath = ''/a/b/x'', rMode = 1\<rparr>]"
  let ?t = "newTraveller sample_data (NewAccessTree ?rules)"
  let ?v = "VMap [(''a'', VMap [(''b'', VStr ''1'')])]"
  have "CheckAccessRules ?rules = None" by code_simp
  moreover have "last_rule ?rules [''a'', ''b''] = Some AccessModeForbidden" by code_simp
  moreover have "traveller_GetValue sample_data ?t = Some (Inr (?v, ?t))" by code_simp
  moreover have "val_leaf [''a'', ''b''] ?v = Some ''1''" by code_simp
  ultimately show ?thesis using live_sample_data by blast
qed

theorem traveller_full_access_witness:
  "\<exists>t v. traveller_Enter sample_data ''/a'' (newTraveller sample_data (NewAccessTree [\<lparr>rPath = ''/'', rMode = AccessModeRead\<rparr>])) =
      Inr (True, t) \<and> traveller_GetValue sample_data t = Some (Inr (v, t)) \<and>
    val_leaf [''b''] v = val_leaf [''b''] (snd (store_Get ''/a'' sample_data))"
proof -
  have "lookup_path (segs ''/a'') (tree (nodes sample_data)) \<noteq> None" "\<forall>c\<in>set (segs ''/a''). canon c"
    by code_simp+
  from traveller_full_access [OF live_sample_data this] show ?thesis by blast
qed

end
