(* ===== verification/Notification.thy ===== *)
theory Notification
  imports Store_Inv
begin

text \<open>
  Who hears of a change: the events that \<^verbatim>\<open>node.Notify\<close> puts into the channels, and the events of
  \<^verbatim>\<open>Store.Put\<close>.
\<close>

section \<open>Delivery\<close>

text \<open>
  An event at the node \<open>er\<close>, raised from \<open>r\<close> upwards, reaches every open watcher whose node lies on
  the way from \<open>r\<close> to the root.
\<close>

definition deliver :: "string \<Rightarrow> noderef \<Rightarrow> string \<Rightarrow> noderef \<Rightarrow> watcher \<Rightarrow> watcher" where
  "deliver action er ev r w =
     (if \<not> closed w \<and> within (rev (wnode w)) (rev r)
      then chan_send (newEvent action (RelativePath er (wnode w)) ev) w else w)"

text \<open>Every open watcher is registered at exactly its own node, once.\<close>

definition registered :: "nstate \<Rightarrow> bool" where
  "registered st \<longleftrightarrow>
     (\<forall>p. distinct (wat st p)) \<and>
     (\<forall>i<length (wtab st). \<forall>p. i \<in> set (wat st p) \<longleftrightarrow> \<not> closed (wtab st ! i) \<and> wnode (wtab st ! i) = rev p)"

lemma nodes_ok_registered: "nodes_ok st \<Longrightarrow> registered st"
  unfolding nodes_ok_def registered_def wsafe_def reg_ok_def by (metis rev_swap)

lemma registered_calm:
  assumes "statics st' = statics st" and "wat st' = wat st" and "registered st"
  shows "registered st'"
  using assms statics_nth [OF assms(1)] statics_length [OF assms(1)] by (simp add: registered_def)

lemma length_fold_send [simp]: "length (wtab (fold (send e) is st)) = length (wtab st)"
  by (rule statics_length) simp

lemma fold_send_nth:
  assumes "distinct is" and "i < length (wtab st)"
  shows "wtab (fold (send e) is st) ! i =
    (if i \<in> set is \<and> \<not> closed (wtab st ! i) then chan_send e (wtab st ! i) else wtab st ! i)"
  using assms
proof (induction "is" arbitrary: st)
  case (Cons j js)
  have l: "length (wtab (send e j st)) = length (wtab st)" by (rule statics_length) simp
  have s: "wtab (send e j st) ! i = (if i = j \<and> \<not> closed (wtab st ! i) then chan_send e (wtab st ! i) else wtab st ! i)"
    using Cons.prems(2) by (auto simp: send_def)
  then show ?case using Cons.IH [of "send e j st"] Cons.prems l by auto
qed simp

text \<open>The sends to the watchers of one node.\<close>

lemma fold_send_wtab:
  assumes "registered st"
  shows "wtab (fold (send e) (wat st (rev r)) st) =
    map (\<lambda>w. if \<not> closed w \<and> wnode w = r then chan_send e w else w) (wtab st)"
proof (rule nth_equalityI)
  fix i
  assume "i < length (wtab (fold (send e) (wat st (rev r)) st))"
  then have i: "i < length (wtab st)" by simp
  then have "i \<in> set (wat st (rev r)) \<longleftrightarrow> \<not> closed (wtab st ! i) \<and> wnode (wtab st ! i) = r"
    using assms by (simp add: registered_def)
  moreover have "distinct (wat st (rev r))" using assms by (simp add: registered_def)
  ultimately show "wtab (fold (send e) (wat st (rev r)) st) ! i =
      map (\<lambda>w. if \<not> closed w \<and> wnode w = r then chan_send e w else w) (wtab st) ! i"
    using i by (simp add: fold_send_nth)
qed simp

lemma internalNotify_unfold:
  "internalNotify action er ev r st =
    (let st' = fold (send (newEvent action (RelativePath er r) ev)) (wat st (rev r)) st
     in case r of [] \<Rightarrow> st' | x # q \<Rightarrow> internalNotify action er ev q st')"
proof -
  have "(case deref r st of None \<Rightarrow> st
      | Some n \<Rightarrow> if HasWatcher n then fold (send e) (nWatchers n) st else st) =
    fold (send e) (wat st (rev r)) st" for e
    by (cases "deref r st") (auto simp: wat_def amap_deref HasWatcher_def attr_of_def)
  then show ?thesis by (subst internalNotify.simps) simp
qed

lemma within_rev_Cons: "within (rev w) (rev (x # q)) \<longleftrightarrow> w = x # q \<or> within (rev w) (rev q)"
  by (auto simp: prefix_snoc) (metis rev_rev_ident rev.simps(2))

lemma internalNotify_wtab:
  "registered st \<Longrightarrow> wtab (internalNotify action er ev r st) = map (deliver action er ev r) (wtab st)"
proof (induction r arbitrary: st)
  case Nil
  then show ?case
    using fold_send_wtab [OF Nil, of _ "[]"]
    by (subst internalNotify_unfold) (auto simp: deliver_def intro!: map_cong)
next
  case (Cons x q)
  let ?st = "fold (send (newEvent action (RelativePath er (x # q)) ev)) (wat st (rev (x # q))) st"
  have "wat ?st = wat st" by (rule wat_tree) simp
  then have "registered ?st" using Cons.prems registered_calm by simp
  then have "wtab (internalNotify action er ev q ?st) = map (deliver action er ev q) (wtab ?st)"
    by (rule Cons.IH)
  also have "\<dots> = map (deliver action er ev (x # q)) (wtab st)"
    unfolding fold_send_wtab [OF Cons.prems] map_map
  proof (rule map_cong [OF refl])
    fix w
    have "\<not> within (rev q @ [x]) (rev q)"
      by (metis append_Nil2 not_Cons_self2 prefix_order.antisym prefix_def same_append_eq)
    then show "(deliver action er ev q \<circ>
        (\<lambda>w. if \<not> closed w \<and> wnode w = x # q then chan_send (newEvent action (RelativePath er (x # q)) ev) w else w)) w =
      deliver action er ev (x # q) w"
      using within_rev_Cons [of "wnode w" x q] by (auto simp: deliver_def)
  qed
  finally show ?case by (subst internalNotify_unfold) simp
qed

lemma Notify_wtab:
  assumes "registered st" and "amap st (rev r) = Some a"
  shows "wtab (Notify action r st) = map (deliver action r (aval a) r) (wtab st)"
  using assms by (cases "deref r st") (auto simp: Notify_def internalNotify_wtab amap_deref attr_of_def)

text \<open>The path an event carries is the way from the watcher's node down to the changed node.\<close>

lemma RelativePath_below:
  "\<forall>x\<in>set d. canon x \<Longrightarrow> RelativePath (d @ r) r = abs_path (rev d)"
proof (induction d)
  case Nil
  then show ?case by (cases r) simp_all
next
  case (Cons x d)
  have "x # d @ r \<noteq> r" by (metis append_Cons append_self_conv2 list.distinct(1))
  with Cons show ?case using path_Join_abs_canon [of "rev d" "[x]"] by simp
qed

lemma RelativePath_within:
  assumes "within (rev r) p" and "\<forall>x\<in>set p. canon x"
  shows "RelativePath (rev p) r = abs_path (drop (length r) p)"
proof -
  obtain d where d: "p = rev r @ d" using assms(1) by (auto elim: prefixE)
  then show ?thesis using RelativePath_below [of "rev d" r] assms(2) by simp
qed

section \<open>The events of a put\<close>

text \<open>No node on the way to \<open>p\<close>, \<open>p\<close> included, is a leaf.\<close>

definition no_leaf_upto :: "amap \<Rightarrow> string list \<Rightarrow> bool" where
  "no_leaf_upto D p \<longleftrightarrow> (\<forall>q a. within q p \<longrightarrow> D q = Some a \<longrightarrow> adir a)"

lemma no_leaf_upto_mkdir: "no_leaf_upto D p \<Longrightarrow> no_leaf_upto (mkdir_abs p D) p"
  by (auto simp: no_leaf_upto_def mkdir_abs_def as_dir_def split: option.splits if_splits)

lemma wtab_node_Add:
  assumes "deref r st = Some n" and "IsDir n"
  shows "wtab (node_Add r c st) = wtab st"
  using assms by (simp add: node_Add_def)

lemma checkDir_silent:
  assumes "deref r st \<noteq> None" and "\<forall>w\<in>set ds. seg w" and "no_leaf_upto (amap st) (rev r @ ds)"
  shows "wtab (snd (walk_loop checkDir ds (Some r) st)) = wtab st"
  using assms
proof (induction ds arbitrary: r st)
  case (Cons x xs)
  from Cons.prems obtain n where n: "deref r st = Some n" by auto
  have sx: "seg x" "x \<noteq> ''''" using Cons.prems(2) by (auto simp: seg_def)
  show ?case
  proof (cases "map_of (kids n) x")
    case (Some c)
    then have "deref (x # r) st = Some c" using n by (simp add: deref_def lookup_path_snoc)
    with Some n sx Cons.prems show ?thesis
      using Cons.IH [of "x # r" st] by (simp add: checkDir_def node_GetChild_kids)
  next
    case None
    obtain st1 where st1: "newDir x r st = Inr (x # r, st1)"
      "amap st1 = (amap st)(rev r := map_option (\<lambda>a. Attr (aval a) True (awat a)) (amap st (rev r)),
        rev r @ [x] := Some (Attr '''' True []))"
      using newDir_effect [OF n None sx(1)] by blast
    have "amap st1 (rev (x # r)) \<noteq> None" using st1(2) by simp
    then have "deref (x # r) st1 \<noteq> None" by (simp only: amap_deref) simp
    moreover have "no_leaf_upto (amap st1) (rev (x # r) @ xs)"
      using Cons.prems(3) st1(2) by (auto simp: no_leaf_upto_def)
    ultimately have "wtab (snd (walk_loop checkDir xs (Some (x # r)) st1)) = wtab st1"
      using Cons.IH Cons.prems(2) by simp
    moreover have "within (rev r) (rev r @ x # xs)" by simp
    then have "adir (attr_of n)"
      using Cons.prems(3) deref_amap [OF n] unfolding no_leaf_upto_def by blast
    then have "IsDir n" by (simp add: attr_of_def)
    then have "wtab st1 = wtab st"
      using st1(1) n sx by (auto simp: newDir_def wtab_node_Add)
    moreover have "checkDir (Some r) x st = (Inr (Some (x # r)), st1)"
      using n None sx st1(1) by (simp add: checkDir_def node_GetChild_kids)
    ultimately show ?thesis using sx(2) by simp
  qed
qed simp

lemma wtab_node_Write:
  assumes "registered st" and "r \<noteq> []" and "deref r st = Some n"
  shows "wtab (node_Write r value st) =
    (if (if IsDir n then ChildrenCount n = 0 else nValue n \<noteq> value)
     then map (deliver Update r value r) (wtab st) else wtab st)"
proof -
  let ?st = "modify r (set_Value value) st"
  let ?leaf = "\<lambda>n. if IsDir n then set_Children None n else n"
  have reg: "registered ?st"
    by (rule registered_calm [OF _ _ assms(1)]) (use assms(2) calm_set_Value in \<open>auto simp: calm_def\<close>)
  have d: "deref r ?st = Some (set_Value value n)" using assms(3) by (simp add: deref_modify_same)
  have "wtab (Notify Update r ?st) = map (deliver Update r value r) (wtab ?st)"
    using Notify_wtab [OF reg deref_amap [OF d]] by (simp add: attr_of_def)
  moreover have "wtab (AsLeaf r ?st) = map (deliver Update r value r) (wtab st)" if "IsDir n" "ChildrenCount n = 0"
  proof -
    let ?st2 = "modify r ?leaf ?st"
    have "calm ?st (AsLeaf r ?st)"
      using that childless_deref [OF d] assms(2) by (intro calm_AsLeaf) (simp_all add: ChildrenCount_kids)
    moreover have "wat (AsLeaf r ?st) = wat ?st2" unfolding AsLeaf_def by (rule wat_tree) simp
    ultimately have "wat ?st2 = wat ?st" by (simp only: calm_def)
    then have "registered ?st2" by (intro registered_calm [OF _ _ reg]) (simp_all only: statics_def modify_fields)
    moreover have "deref r ?st2 = Some (?leaf (set_Value value n))"
      unfolding deref_modify_same [of r ?leaf] d by simp
    then have "amap ?st2 (rev r) = Some (attr_of (?leaf (set_Value value n)))" by (rule deref_amap)
    ultimately show ?thesis
      unfolding AsLeaf_def by (subst Notify_wtab) (auto simp: attr_of_def)
  qed
  ultimately show ?thesis using assms(2,3) by (simp add: node_Write_def IsRoot_def Let_def)
qed

lemma wtab_newKV:
  assumes "registered st" and "deref r st = Some n" and "map_of (kids n) x = None" and "seg x" and "IsDir n"
    and "newKV x v r st = Inr (r', st')"
  shows "wtab st' = map (deliver Update (x # r) v (x # r)) (wtab st)"
proof -
  let ?c = "Node x v None []"
  let ?st = "node_Add r ?c st"
  have k: "kids ?c = []" by (simp add: kids_def)
  have "calm st ?st" using calm_node_Add [OF assms(2), of ?c] assms(3,4) k by simp
  then have reg: "registered ?st" using registered_calm [OF _ _ assms(1)] by (simp add: calm_def)
  have "amap ?st (rev (x # r)) = Some (attr_of ?c)"
    using amap_node_Add [OF assms(2), of ?c] assms(3) k by simp
  moreover have "st' = Notify Update (x # r) ?st" using assms(4,6) by (auto simp: newKV_def seg_def)
  ultimately show ?thesis
    using Notify_wtab [OF reg] wtab_node_Add [OF assms(2,5), of ?c] by (simp add: attr_of_def)
qed

text \<open>
  A put of \<open>v\<close> at \<open>p\<close>, with no leaf strictly above \<open>p\<close>: when the text at \<open>p\<close> is new, every open watcher
  on the way gets one event; when \<open>p\<close> holds \<open>v\<close> already, or is a directory with children, nobody does.
\<close>

definition put_is_news :: "amap \<Rightarrow> string list \<Rightarrow> string \<Rightarrow> bool" where
  "put_is_news D p v \<longleftrightarrow>
     (case D p of
        None \<Rightarrow> True
      | Some a \<Rightarrow> if adir a then childless D p else aval a \<noteq> v)"

lemma wtab_internalPut:
  assumes "nodes_ok (nodes s)" and "\<not> rootNil s" and "put_target p = Some (ds @ [n])"
    and "no_leaf_upto (amap (nodes s)) ds"
  shows "wtab (nodes (snd (internalPut p v s))) =
    (if put_is_news (amap (nodes s)) (ds @ [n]) v
     then map (deliver Update (n # rev ds) v (n # rev ds)) (wtab (nodes s)) else wtab (nodes s))"
proof -
  let ?s = "s\<lparr>version := version s + 1\<rparr>"
  let ?r = "rev ds"
  obtain d where dn: "path_Split p = (d, n)" "walk_elems d = ds" "n \<noteq> ''''" "seg n"
    using assms(3) path_Split_snd_no_slash [of p]
    by (cases "path_Split p") (auto simp: put_target_def seg_def split: if_splits)
  have pr: "p \<noteq> ''/''" using assms(3) path_Split_append [of "''''" "''''"] by (auto simp: put_target_def)
  obtain st1 where w: "walk d checkDir ?s = (Inr (Some ?r), st1)"
    and c1: "calm (nodes s) st1" and a1: "amap st1 = mkdir_abs ds (amap (nodes s))"
    using walk_checkDir [of ?s d] assms(2) dn(2) by auto
  have "\<forall>w\<in>set ds. seg w" using walk_elems_seg dn(2) by blast
  then have w1: "wtab st1 = wtab (nodes s)"
    using w checkDir_silent [of "[]" "nodes s" ds] assms(2,4) dn(2) by (simp add: walk_eq)
  have reg: "registered st1"
    using nodes_ok_calm [OF c1 assms(1)] by (rule nodes_ok_registered)
  have "amap st1 (rev ?r) \<noteq> None" by (simp add: a1 mkdir_abs_def split: option.splits)
  then obtain m where m: "deref ?r st1 = Some m" unfolding amap_deref by auto
  have nd: "amap st1 (ds @ [n]) = amap (nodes s) (ds @ [n])"
    by (simp add: a1 mkdir_abs_def)
  show ?thesis
  proof (cases "map_of (kids m) n")
    case None
    obtain r' st2 where st2: "newKV n v ?r st1 = Inr (r', st2)"
      using newKV_effect [OF m None dn(4)] by blast
    have "amap (nodes s) (ds @ [n]) = None"
      using nd None m by (simp add: flat_def lookup_path_snoc deref_def)
    moreover have "IsDir m"
      using no_leaf_upto_mkdir [OF assms(4)] deref_amap [OF m]
      unfolding no_leaf_upto_def a1 [symmetric] attr_of_def by force
    ultimately show ?thesis
      using wtab_newKV [OF reg m None dn(4) _ st2] w1 st2 None pr dn w m
      by (simp add: internalPut_def AtomicLong_IncrementAndGet_def Let_def node_GetChild_kids put_is_news_def)
  next
    case (Some k)
    then have dk: "deref (n # ?r) st1 = Some k" using m by (simp add: deref_def lookup_path_snoc)
    have "amap (nodes s) (ds @ [n]) = Some (attr_of k)" using deref_amap [OF dk] nd by simp
    moreover have "childless (amap (nodes s)) (ds @ [n]) \<longleftrightarrow> ChildrenCount k = 0"
      using childless_deref [OF dk] by (simp add: childless_def a1 mkdir_abs_def ChildrenCount_kids)
    ultimately show ?thesis
      using wtab_node_Write [OF reg _ dk, of v] w1 Some pr dn w m
      by (simp add: internalPut_def AtomicLong_IncrementAndGet_def Let_def node_GetChild_kids
          put_is_news_def attr_of_def)
  qed
qed


text \<open>The channels after a put of a string, when no node strictly above the path is a leaf.\<close>

lemma wtab_store_Put:
  assumes "nodes_ok (nodes s)" and "\<not> rootNil s" and "path_elems p = ds @ [n]" and "no_leaf_upto (amap (nodes s)) ds"
  shows "wtab (nodes (snd (store_Put p (VStr v) s))) =
    map (\<lambda>w. if put_is_news (amap (nodes s)) (path_elems p) v \<and> \<not> closed w \<and> within (rev (wnode w)) (path_elems p)
             then chan_send (newEvent Update (abs_path (drop (length (wnode w)) (path_elems p))) v) w
             else w) (wtab (nodes s))"
proof -
  have c: "\<forall>x\<in>set (ds @ [n]). canon x" using assms(3) path_elems_canon by metis
  then have t: "put_target (abs_path (ds @ [n])) = Some (ds @ [n])" using put_target_canon by blast
  have "wtab (nodes (snd (store_Put p (VStr v) s))) = wtab (nodes (snd (internalPut (abs_path (ds @ [n])) v s)))"
    by (auto simp: store_Put_def clean_join_root assms(3) split: prod.splits sum.splits)
  also have "\<dots> = (if put_is_news (amap (nodes s)) (ds @ [n]) v
     then map (deliver Update (n # rev ds) v (n # rev ds)) (wtab (nodes s)) else wtab (nodes s))"
    using wtab_internalPut [OF assms(1,2) t assms(4)] .
  finally show ?thesis
    unfolding assms(3) using RelativePath_within [OF _ c] by (simp add: deliver_def)
qed

end
