(* ===== verification/LocalBackend.thy ===== *)
theory LocalBackend
  imports Store_Props Notification Access_Props
begin

text \<open>
  \<^verbatim>\<open>backends/local/client.go\<close>: the in-process backend.  It keeps its own data and mapping stores and its
  own rules, and mirrors them into the stores of the metadata repository.

  The access store the client writes through belongs to the repository; the operations on access
  rules take it as an argument and return it, and \<open>linked\<close> says that \<^verbatim>\<open>c.accessStore\<close> is not nil.
\<close>

section \<open>Definitions\<close>

record localClient =
  cData :: store
  cMapping :: store
  cRules :: "(string, AccessRule list) gomap"
  linked :: bool

definition NewLocalClient :: localClient where
  "NewLocalClient = \<lparr>cData = newStore, cMapping = newStore, cRules = [], linked = False\<rparr>"

definition get_or_default :: "goval \<Rightarrow> bool \<Rightarrow> goval" where
  "get_or_default r dir = (if r \<noteq> VNil then r else if dir then VMap [] else VStr '''')"

definition local_Get :: "string \<Rightarrow> bool \<Rightarrow> localClient \<Rightarrow> goval" where
  "local_Get nodePath dir c = get_or_default (snd (store_Get nodePath (cData c))) dir"

text \<open>\<^verbatim>\<open>Put\<close> returns a nil error or panics with the store.\<close>

definition local_Put :: "string \<Rightarrow> goval \<Rightarrow> bool \<Rightarrow> localClient \<Rightarrow> (panic + unit) \<times> localClient" where
  "local_Put nodePath value replace c =
     (let c1 = (if replace then c\<lparr>cData := store_Delete nodePath (cData c)\<rparr> else c);
          (res, d) = store_Put nodePath value (cData c1)
      in (res, c1\<lparr>cData := d\<rparr>))"

definition local_Delete :: "string \<Rightarrow> bool \<Rightarrow> localClient \<Rightarrow> localClient" where
  "local_Delete nodePath dir c = c\<lparr>cData := store_Delete nodePath (cData c)\<rparr>"

definition local_GetMapping :: "string \<Rightarrow> bool \<Rightarrow> localClient \<Rightarrow> goval" where
  "local_GetMapping nodePath dir c = get_or_default (snd (store_Get nodePath (cMapping c))) dir"

definition local_PutMapping :: "string \<Rightarrow> goval \<Rightarrow> bool \<Rightarrow> localClient \<Rightarrow> (panic + unit) \<times> localClient" where
  "local_PutMapping nodePath mapping replace c =
     (let c1 = (if replace then c\<lparr>cMapping := store_Delete nodePath (cMapping c)\<rparr> else c);
          (res, m) = store_Put nodePath mapping (cMapping c1)
      in (res, c1\<lparr>cMapping := m\<rparr>))"

definition local_DeleteMapping :: "string \<Rightarrow> bool \<Rightarrow> localClient \<Rightarrow> localClient" where
  "local_DeleteMapping nodePath dir c = c\<lparr>cMapping := store_Delete nodePath (cMapping c)\<rparr>"

definition local_GetAccessRule :: "localClient \<Rightarrow> (string, AccessRule list) gomap" where
  "local_GetAccessRule c = fold (\<lambda>(k, v). AList.update k v) (cRules c) []"

definition local_PutAccessRule ::
    "(string, AccessRule list) gomap \<Rightarrow> localClient \<times> accessStore \<Rightarrow> localClient \<times> accessStore" where
  "local_PutAccessRule rules ca =
     fold (\<lambda>(k, v) (c, acc).
       (c\<lparr>cRules := AList.update k v (cRules c)\<rparr>,
        if linked c then accessStore_Put k v acc else acc)) rules ca"

definition local_DeleteAccessRule ::
    "string list \<Rightarrow> localClient \<times> accessStore \<Rightarrow> localClient \<times> accessStore" where
  "local_DeleteAccessRule hosts ca =
     fold (\<lambda>host (c, acc).
       (c\<lparr>cRules := AList.delete host (cRules c)\<rparr>,
        if linked c then accessStore_Delete host acc else acc)) hosts ca"

text \<open>\<^verbatim>\<open>SyncAccessRule\<close>: the part that runs at once, and the goroutine that waits for the stop signal.\<close>

definition local_SyncAccessRule :: "localClient \<times> accessStore \<Rightarrow> localClient \<times> accessStore" where
  "local_SyncAccessRule ca =
     (case ca of (c, acc) \<Rightarrow>
        (c\<lparr>linked := True\<rparr>, fold (\<lambda>(k, v). accessStore_Put k v) (cRules c) acc))"

definition local_stopAccessRule :: "localClient \<Rightarrow> localClient" where
  "local_stopAccessRule c = c\<lparr>linked := False\<rparr>"

text \<open>
  \<^verbatim>\<open>internalSync\<close>: registration of a watcher at the root of \<open>from\<close> with a buffer of 5000, the initial
  copy, and then one step per event taken from the channel, or per stop signal.
\<close>

definition sync_init :: "store \<Rightarrow> store \<Rightarrow> (panic + nat) \<times> store \<times> store" where
  "sync_init from0 to0 =
     (case store_Watch ''/'' 5000 from0 of
        (Inl e, from1) \<Rightarrow> (Inl e, from1, to0)
      | (Inr w, from1) \<Rightarrow>
          let meta = snd (store_Get ''/'' from1)
          in if meta \<noteq> VNil
             then (case store_Put ''/'' meta to0 of
                     (Inl e, to1) \<Rightarrow> (Inl e, from1, to1)
                   | (Inr _, to1) \<Rightarrow> (Inr w, from1, to1))
             else (Inr w, from1, to0))"

definition processEvent :: "event \<Rightarrow> store \<Rightarrow> (panic + unit) \<times> store" where
  "processEvent e to0 =
     (if Action e = Delete then (Inr (), store_Delete (Path e) to0)
      else if Action e = Update then store_Put (Path e) (VStr (EvValue e)) to0
      else (Inr (), to0))"

definition sync_event :: "nat \<Rightarrow> store \<Rightarrow> store \<Rightarrow> (store \<times> (panic + unit) \<times> store) option" where
  "sync_event w from0 to0 =
     (case watcher_recv w from0 of
        None \<Rightarrow> None
      | Some (e, from1) \<Rightarrow> Some (from1, processEvent e to0))"

definition sync_stop :: "nat \<Rightarrow> store \<Rightarrow> (panic + unit) \<times> store" where
  "sync_stop w from0 = watcher_Remove w from0"

end
