(* ===== verification/NetIP.thy ===== *)
theory NetIP
  imports Util
begin

text \<open>
  \<^verbatim>\<open>net.ParseIP\<close> of the Go library, as the program uses it: only whether a string is accepted matters.
  An address is a dotted quad of decimal numbers up to 255, or up to eight groups of hexadecimal
  digits with at most one \<^verbatim>\<open>::\<close> and possibly a trailing dotted quad.
\<close>

definition is_xdigit :: "char \<Rightarrow> bool" where
  "is_xdigit c \<longleftrightarrow> is_digit c \<or>
     (97 \<le> (of_char c :: nat) \<and> (of_char c :: nat) \<le> 102) \<or>
     (65 \<le> (of_char c :: nat) \<and> (of_char c :: nat) \<le> 70)"

definition xdigit_val :: "char \<Rightarrow> int" where
  "xdigit_val c =
     (let n = of_char c in if n \<le> 57 then n - 48 else if n \<le> 70 then n - 55 else n - 87)"

text \<open>The number at the start of a string and the rest; \<open>None\<close> when there is none or it is too big.\<close>

definition dtoi :: "string \<Rightarrow> (int \<times> string) option" where
  "dtoi s =
     (let ds = takeWhile is_digit s; n = foldl (\<lambda>n c. 10 * n + xdigit_val c) 0 ds
      in if ds = [] \<or> n \<ge> 16777215 then None else Some (n, dropWhile is_digit s))"

definition xtoi :: "string \<Rightarrow> (int \<times> string) option" where
  "xtoi s =
     (let ds = takeWhile is_xdigit s; n = foldl (\<lambda>n c. 16 * n + xdigit_val c) 0 ds
      in if ds = [] \<or> n \<ge> 16777215 then None else Some (n, dropWhile is_xdigit s))"

text \<open>The loop over the octets; the first octet has no dot in front.\<close>

fun parseIPv4_loop :: "nat \<Rightarrow> bool \<Rightarrow> string \<Rightarrow> bool" where
  "parseIPv4_loop 0 first s \<longleftrightarrow> s = []"
| "parseIPv4_loop (Suc k) first s \<longleftrightarrow>
     s \<noteq> [] \<and> (first \<or> hd s = CHR ''.'') \<and>
     (case dtoi (if first then s else tl s) of
        None \<Rightarrow> False
      | Some (n, r) \<Rightarrow> n \<le> 255 \<and> parseIPv4_loop k False r)"

definition parseIPv4 :: "string \<Rightarrow> bool" where
  "parseIPv4 s = parseIPv4_loop 4 True s"

text \<open>
  The loop over the groups: \<open>k\<close> of the eight groups are still free, \<open>ell\<close> says that \<^verbatim>\<open>::\<close> has been seen.
  At the end the string is used up, and the groups are complete exactly when there is no \<^verbatim>\<open>::\<close>.
\<close>

fun parseIPv6_loop :: "nat \<Rightarrow> bool \<Rightarrow> string \<Rightarrow> bool" where
  "parseIPv6_loop 0 ell s \<longleftrightarrow> s = [] \<and> \<not> ell"
| "parseIPv6_loop (Suc k) ell s \<longleftrightarrow>
     (case xtoi s of
        None \<Rightarrow> False
      | Some (n, r) \<Rightarrow>
          n \<le> 65535 \<and>
          (if r \<noteq> [] \<and> hd r = CHR ''.'' then
             (ell \<or> k = 1) \<and> k \<ge> 1 \<and> parseIPv4 s \<and> (if k = 1 then \<not> ell else ell)
           else if r = [] then (if k = 0 then \<not> ell else ell)
           else if hd r \<noteq> CHR '':'' \<or> tl r = [] then False
           else if hd (tl r) = CHR '':'' then
             \<not> ell \<and> (if tl (tl r) = [] then k \<noteq> 0 else parseIPv6_loop k True (tl (tl r)))
           else parseIPv6_loop k ell (tl r)))"

definition parseIPv6 :: "string \<Rightarrow> bool" where
  "parseIPv6 s =
     (if take 2 s = ''::'' then drop 2 s = [] \<or> parseIPv6_loop 8 True (drop 2 s)
      else parseIPv6_loop 8 False s)"

definition net_ParseIP :: "string \<Rightarrow> bool" where
  "net_ParseIP s =
     (case find (\<lambda>c. c = CHR ''.'' \<or> c = CHR '':'') s of
        None \<Rightarrow> False
      | Some c \<Rightarrow> if c = CHR ''.'' then parseIPv4 s else parseIPv6 s)"

lemma ParseIP_examples:
  "net_ParseIP ''192.168.1.1''" "\<not> net_ParseIP ''192.168.1''" "\<not> net_ParseIP ''192.168.1.256''"
  "net_ParseIP ''::1''" "net_ParseIP ''fe80::1:2''" "\<not> net_ParseIP ''nodes''" "net_ParseIP ''::ffff:1.2.3.4''"
  by code_simp+

end
