(* ===== verification/MetaRepo.thy ===== *)
theory MetaRepo
  imports Traveller_Props LocalBackend NetIP
begin

text \<open>
  \<^verbatim>\<open>metadata/metarepo.go\<close>: the repository the HTTP handlers talk to.  It reads from its own stores,
  which the backend keeps up to date, and writes through the \<^verbatim>\<open>backends.StoreClient\<close> interface.
\<close>

section \<open>State and the client interface\<close>

record MetadataRepo =
  rMapping :: store
  rData :: store
  rAccess :: accessStore

definition newMetadataRepo :: MetadataRepo where
  "newMetadataRepo = \<lparr>rMapping = newStore, rData = newStore, rAccess = NewAccessStore\<rparr>"

definition DEFAULT_WATCH_BUF_LEN :: nat where
  "DEFAULT_WATCH_BUF_LEN = 100"

text \<open>
  The writing methods of \<^verbatim>\<open>StoreClient\<close>, on a client state \<open>'c\<close>.  A call ends in a panic, or returns an
  error or nil.
\<close>

type_synonym error = string
type_synonym 'c call = "'c \<Rightarrow> (panic + error option) \<times> 'c"

record 'c storeClient =
  cl_Put :: "string \<Rightarrow> goval \<Rightarrow> bool \<Rightarrow> 'c call"
  cl_Delete :: "string \<Rightarrow> bool \<Rightarrow> 'c call"
  cl_PutMapping :: "string \<Rightarrow> goval \<Rightarrow> bool \<Rightarrow> 'c call"
  cl_DeleteMapping :: "string \<Rightarrow> bool \<Rightarrow> 'c call"
  cl_PutAccessRule :: "(string, AccessRule list) gomap \<Rightarrow> 'c call"
  cl_DeleteAccessRule :: "string list \<Rightarrow> 'c call"

text \<open>The interface as \<^verbatim>\<open>backends/local\<close> implements it; its errors are always nil.\<close>

definition local_storeClient :: "(localClient \<times> accessStore) storeClient" where
  "local_storeClient =
     \<lparr>cl_Put = (\<lambda>p v rep (c, acc). let (r, c') = local_Put p v rep c in (map_sum id (\<lambda>_. None) r, (c', acc))),
      cl_Delete = (\<lambda>p dir (c, acc). (Inr None, (local_Delete p dir c, acc))),
      cl_PutMapping = (\<lambda>p v rep (c, acc). let (r, c') = local_PutMapping p v rep c in (map_sum id (\<lambda>_. None) r, (c', acc))),
      cl_DeleteMapping = (\<lambda>p dir (c, acc). (Inr None, (local_DeleteMapping p dir c, acc))),
      cl_PutAccessRule = (\<lambda>rules ca. (Inr None, local_PutAccessRule rules ca)),
      cl_DeleteAccessRule = (\<lambda>hosts ca. (Inr None, local_DeleteAccessRule hosts ca))\<rparr>"

section \<open>Checks on what is written\<close>

definition checkSubs :: "string list \<Rightarrow> error option" where
  "checkSubs subs =
     (if list_ex (\<lambda>sub. CHR ''/'' \<in> set sub) subs then Some ''Sub node must not a path.'' else None)"

definition checkMappingPath :: "goval \<Rightarrow> error option" where
  "checkMappingPath v =
     (case v of
        VStr vs \<Rightarrow> if vs = '''' \<or> vs ! 0 \<noteq> CHR ''/'' then Some ''mapping's value should be path .'' else None
      | _ \<Rightarrow> Some ''mapping's value should be path .'')"

fun checkMapping :: "goval \<Rightarrow> error option"
  and checkMapping_entries :: "(string \<times> goval) list \<Rightarrow> error option" where
  "checkMapping data =
     (case data of
        VMap m \<Rightarrow> checkMapping_entries m
      | _ \<Rightarrow> Some ''mapping data should be json object.'')"
| "checkMapping_entries [] = None"
| "checkMapping_entries ((k, v) # m) =
     (if CHR ''/'' \<in> set k then Some ''mapping key should not be path.''
      else case (if is_map v then checkMapping v else checkMappingPath v) of
        Some err \<Rightarrow> Some err
      | None \<Rightarrow> checkMapping_entries m)"

section \<open>Writing\<close>

definition PutData :: "'c storeClient \<Rightarrow> string \<Rightarrow> goval \<Rightarrow> bool \<Rightarrow> 'c call" where
  "PutData ops nodePath data replace c = cl_Put ops nodePath data replace c"

text \<open>The loop over the sub nodes; \<open>trim\<close> is what \<^verbatim>\<open>DeleteMapping\<close> does to a sub node first.\<close>

fun delete_subs :: "(string \<Rightarrow> bool \<Rightarrow> 'c call) \<Rightarrow> store \<Rightarrow> string \<Rightarrow> string list \<Rightarrow> 'c call" where
  "delete_subs del s nodePath [] c = (Inr None, c)"
| "delete_subs del s nodePath (sub # subs) c =
     (let subPath = path_Join [nodePath, sub]; v = snd (store_Get subPath s)
      in if v \<noteq> VNil
         then (case del subPath (is_map v) c of
                 (Inl e, c') \<Rightarrow> (Inl e, c')
               | (Inr (Some err), c') \<Rightarrow> (Inr (Some err), c')
               | (Inr None, c') \<Rightarrow> delete_subs del s nodePath subs c')
         else delete_subs del s nodePath subs c)"

definition delete_one :: "(string \<Rightarrow> bool \<Rightarrow> 'c call) \<Rightarrow> store \<Rightarrow> string \<Rightarrow> 'c call" where
  "delete_one del s nodePath c =
     (let v = snd (store_Get nodePath s)
      in if v \<noteq> VNil then del nodePath (is_map v) c else (Inr None, c))"

definition DeleteData :: "'c storeClient \<Rightarrow> MetadataRepo \<Rightarrow> string \<Rightarrow> string list \<Rightarrow> 'c call" where
  "DeleteData ops r nodePath subs c =
     (case checkSubs subs of
        Some err \<Rightarrow> (Inr (Some err), c)
      | None \<Rightarrow>
          if length subs > 0 then delete_subs (cl_Delete ops) (rData r) nodePath subs c
          else delete_one (cl_Delete ops) (rData r) nodePath c)"

text \<open>The validation of \<^verbatim>\<open>PutMapping\<close>, on the cleaned path.\<close>

definition mapping_error :: "string \<Rightarrow> goval \<Rightarrow> error option" where
  "mapping_error nodePath data =
     (if nodePath = ''/'' then
        (case data of
           VMap m \<Rightarrow>
             foldr (\<lambda>(k, v) rest.
               if \<not> net_ParseIP k then Some ''mapping's first level key should be ip .''
               else case checkMapping v of Some err \<Rightarrow> Some err | None \<Rightarrow> rest) m None
         | _ \<Rightarrow> Some ''mapping data should be json object.'')
      else
        let parts = strings_Split nodePath
        in if \<not> net_ParseIP (parts ! 1) then Some ''mapping's first level key should be ip .''
           else if length parts = 2 then checkMapping data
           else if is_map data then checkMapping data
           else checkMappingPath data)"

definition PutMapping :: "'c storeClient \<Rightarrow> string \<Rightarrow> goval \<Rightarrow> bool \<Rightarrow> 'c call" where
  "PutMapping ops nodePath0 data replace c =
     (let nodePath = path_Join [''/'', nodePath0]
      in case mapping_error nodePath data of
           Some err \<Rightarrow> (Inr (Some err), c)
         | None \<Rightarrow> cl_PutMapping ops nodePath data replace c)"

definition DeleteMapping :: "'c storeClient \<Rightarrow> MetadataRepo \<Rightarrow> string \<Rightarrow> string list \<Rightarrow> 'c call" where
  "DeleteMapping ops r nodePath subs c =
     (case checkSubs subs of
        Some err \<Rightarrow> (Inr (Some err), c)
      | None \<Rightarrow>
          if length subs > 0
          then delete_subs (cl_DeleteMapping ops) (rMapping r) nodePath
                 (filter (\<lambda>sub. sub \<noteq> '''') (map strings_TrimSpace subs)) c
          else delete_one (cl_DeleteMapping ops) (rMapping r) nodePath c)"

text \<open>\<^verbatim>\<open>CheckAccessRules\<close> reports its error as text; which text is not modelled further.\<close>

fun access_error_text :: "access_error \<Rightarrow> error" where
  "access_error_text (InvalidMode m) = ''Invalid AccessMode ['' @ show_int m @ '']''"
| "access_error_text (PathRepeat p) = ''AccessRule path ['' @ p @ ''] repeat define.''"

definition PutAccessRule :: "'c storeClient \<Rightarrow> (string, AccessRule list) gomap \<Rightarrow> 'c call" where
  "PutAccessRule ops rulesMap c =
     (case find (\<lambda>kv. CheckAccessRules (snd kv) \<noteq> None) rulesMap of
        Some kv \<Rightarrow> (Inr (map_option access_error_text (CheckAccessRules (snd kv))), c)
      | None \<Rightarrow> cl_PutAccessRule ops rulesMap c)"

definition DeleteAccessRule :: "'c storeClient \<Rightarrow> string list \<Rightarrow> 'c call" where
  "DeleteAccessRule ops hosts c =
     (if length hosts = 0 then (Inr None, c) else cl_DeleteAccessRule ops hosts c)"

section \<open>Reading\<close>

definition GetData :: "MetadataRepo \<Rightarrow> string \<Rightarrow> goval" where
  "GetData r nodePath = snd (store_Get nodePath (rData r))"

definition GetMapping :: "MetadataRepo \<Rightarrow> string \<Rightarrow> goval" where
  "GetMapping r nodePath = snd (store_Get nodePath (rMapping r))"

definition DataVersion :: "MetadataRepo \<Rightarrow> int64" where
  "DataVersion r = store_Version (rData r)"

definition GetAccessRule :: "MetadataRepo \<Rightarrow> string list \<Rightarrow> (string, AccessRule list) gomap" where
  "GetAccessRule r hosts = accessStore_GetAccessRule hosts (rAccess r)"

text \<open>The result is \<open>None\<close> for a nil tree.\<close>

definition getAccessTree :: "MetadataRepo \<Rightarrow> string \<Rightarrow> accessNode option" where
  "getAccessTree r clientIP =
     (case accessStore_Get clientIP (rAccess r) of
        Some accessTree \<Rightarrow> Some accessTree
      | None \<Rightarrow>
          (case GetMapping r (path_Join [''/'', clientIP]) of
             VMap mapping \<Rightarrow>
               Some (NewAccessTree (map (\<lambda>(k, dataPath). \<lparr>rPath = dataPath, rMode = AccessModeRead\<rparr>)
                       (Flatten_entries mapping)))
           | _ \<Rightarrow> None))"

text \<open>\<^verbatim>\<open>fmt.Sprintf("%v", v)\<close>.\<close>


fun sprint_v :: "goval \<Rightarrow> string" where
  "sprint_v VNil = ''<nil>''"
| "sprint_v (VBool b) = (if b then ''true'' else ''false'')"
| "sprint_v (VInt i) = show_int i"
| "sprint_v (VFloat f) = fmt_v f"
| "sprint_v (VStr s) = s"
| "sprint_v (VSlice vs) = ''['' @ join_with '' '' (map sprint_v vs) @ '']''"
| "sprint_v (VMap m) = ''map['' @ join_with '' '' (map (\<lambda>(k, v). k @ '':'' @ sprint_v v) m) @ '']''"


text \<open>
  A read of the traveller.  The fuel of the model always suffices for a traveller on a node of the
  store (\<open>traveller_GetValue_reads\<close>), so the extra panic stands for no behaviour of the program.
\<close>

definition read_value :: "store \<Rightarrow> nodeTraveller \<Rightarrow> panic + goval \<times> nodeTraveller" where
  "read_value s t =
     (case traveller_GetValue s t of Some res \<Rightarrow> res | None \<Rightarrow> Inl (Panic ''fuel exhausted''))"

definition getMappingData :: "store \<Rightarrow> string \<Rightarrow> string \<Rightarrow> nodeTraveller \<Rightarrow> panic + goval \<times> nodeTraveller" where
  "getMappingData s nodePath0 link t =
     (let nodePath = path_Join [link, nodePath0]
      in case traveller_Enter s nodePath t of
           Inl e \<Rightarrow> Inl e
         | Inr (False, t1) \<Rightarrow> Inr (VNil, t1)
         | Inr (True, t1) \<Rightarrow>
             (case read_value s t1 of
                Inl e \<Rightarrow> Inl e
              | Inr (val, t2) \<Rightarrow>
                  (case traveller_BackToRoot s t2 of
                     Inl e \<Rightarrow> Inl e
                   | Inr t3 \<Rightarrow> Inr (val, t3))))"

text \<open>\<open>mapping_loop\<close> is the \<^verbatim>\<open>range\<close> loop over the mapping, with the map \<^verbatim>\<open>meta\<close> built so far.\<close>

function getMappingDatas ::
    "store \<Rightarrow> string \<Rightarrow> (string \<times> goval) list \<Rightarrow> nodeTraveller \<Rightarrow> panic + goval \<times> nodeTraveller"
  and mapping_loop ::
    "store \<Rightarrow> (string \<times> goval) list \<Rightarrow> (string \<times> goval) list \<Rightarrow> nodeTraveller \<Rightarrow> panic + goval \<times> nodeTraveller"
  where
  "getMappingDatas s nodePath0 mapping t =
     (let nodePath = path_Join [''/'', nodePath0]; paths = tl (strings_Split nodePath)
      in if paths ! 0 = '''' then mapping_loop s mapping [] t
         else case map_of mapping (paths ! 0) of
           None \<Rightarrow> Inr (VNil, t)
         | Some elemValue \<Rightarrow>
             (case elemValue of
                VMap submapping \<Rightarrow> getMappingDatas s (path_Join (tl paths)) submapping t
              | _ \<Rightarrow> getMappingData s (path_Join (tl paths)) (sprint_v elemValue) t))"
| "mapping_loop s [] meta t = Inr (VMap meta, t)"
| "mapping_loop s ((k, v) # m) meta t =
     (case (case v of
              VMap submapping \<Rightarrow> getMappingDatas s ''/'' submapping t
            | _ \<Rightarrow> getMappingData s ''/'' (sprint_v v) t) of
        Inl e \<Rightarrow> Inl e
      | Inr (val, t1) \<Rightarrow> mapping_loop s m (if val \<noteq> VNil then AList.update k val meta else meta) t1)"
  by pat_completeness auto
termination
proof (relation "measure (case_sum (\<lambda>(s, p, m, t). Suc (2 * size_list (size_prod (\<lambda>_. 0) size) m))
    (\<lambda>(s, m, meta, t). 2 * size_list (size_prod (\<lambda>_. 0) size) m))", goal_cases)
  case (3 s nodePath0 mapping t nodePath paths elemValue submapping)
  then have "(paths ! 0, VMap submapping) \<in> set mapping" by (auto dest: map_of_SomeD)
  from size_list_estimation' [OF this, of "size (VMap submapping)" "size_prod (\<lambda>_. 0) size"]
  show ?case by simp
qed auto

declare getMappingDatas.simps [simp del]

definition self :: "MetadataRepo \<Rightarrow> string \<Rightarrow> string \<Rightarrow> nodeTraveller \<Rightarrow> panic + goval \<times> nodeTraveller" where
  "self r clientIP nodePath t =
     (case GetMapping r (path_Join [''/'', clientIP]) of
        VMap mapping \<Rightarrow> getMappingDatas (rData r) nodePath mapping t
      | _ \<Rightarrow> Inr (VNil, t))"

definition empty_ip :: panic where
  "empty_ip = Panic ''clientIP must not be empty.''"

text \<open>\<^verbatim>\<open>traveller.Close()\<close> is deferred and always applies to an open traveller.\<close>

definition Root :: "MetadataRepo \<Rightarrow> string \<Rightarrow> string \<Rightarrow> panic + int64 \<times> goval" where
  "Root r clientIP nodePath0 =
     (if clientIP = '''' then Inl empty_ip
      else
        let nodePath = path_Join [''/'', nodePath0]
        in case getAccessTree r clientIP of
             None \<Rightarrow> Inr (0, VNil)
           | Some accessTree \<Rightarrow>
               (case traveller_Enter (rData r) nodePath (newTraveller (rData r) accessTree) of
                  Inl e \<Rightarrow> Inl e
                | Inr (False, _) \<Rightarrow> Inr (0, VNil)
                | Inr (True, t1) \<Rightarrow>
                    (case traveller_GetVersion (rData r) t1 of
                       Inl e \<Rightarrow> Inl e
                     | Inr currentVersion \<Rightarrow>
                         (case read_value (rData r) t1 of
                            Inl e \<Rightarrow> Inl e
                          | Inr (val, t2) \<Rightarrow>
                              if val \<noteq> VNil \<and> nodePath = ''/'' then
                                (case self r clientIP ''/'' t2 of
                                   Inl e \<Rightarrow> Inl e
                                 | Inr (selfVal, _) \<Rightarrow>
                                     Inr (currentVersion,
                                       if selfVal \<noteq> VNil
                                       then (case val of VMap m \<Rightarrow> VMap (AList.update ''self'' selfVal m) | _ \<Rightarrow> val)
                                       else val))
                              else Inr (currentVersion, val)))))"

definition Self :: "MetadataRepo \<Rightarrow> string \<Rightarrow> string \<Rightarrow> panic + goval" where
  "Self r clientIP nodePath0 =
     (if clientIP = '''' then Inl empty_ip
      else
        let nodePath = path_Join [''/'', nodePath0]
        in case getAccessTree r clientIP of
             None \<Rightarrow> Inr VNil
           | Some accessTree \<Rightarrow>
               (case self r clientIP nodePath (newTraveller (rData r) accessTree) of
                  Inl e \<Rightarrow> Inl e
                | Inr (val, _) \<Rightarrow> Inr val))"

end
