(* ===== verification/TimerPool.thy ===== *)
theory TimerPool
  imports Atomic
begin

text \<open>
  \<^verbatim>\<open>util/timerpool.go\<close>: a pool of timers that is shared by the requests waiting for changes.  A timer is
  a position in a table; it is \<open>armed\<close> while it runs, and \<open>tick\<close> says that its channel holds the time
  of an expiry nobody has received.  \<^verbatim>\<open>sync.Pool\<close> may hand out any timer put into it, or forget it and
  call \<^verbatim>\<open>New\<close>; its choice is the argument \<open>pick\<close>.
\<close>

section \<open>Definitions\<close>

record timer =
  armed :: bool
  tick :: bool

text \<open>
  \<open>newCount\<close> is the local variable \<^verbatim>\<open>totalNew\<close> of \<^verbatim>\<open>NewTimerPool\<close>, which the closure \<^verbatim>\<open>pool.New\<close> counts in; the
  field \<^verbatim>\<open>TotalNew\<close> is initialised with a copy of it.
\<close>

record TimerPool =
  timers :: "timer list"
  pool :: "nat list"
  newCount :: int32
  TotalNew :: int32
  TotalGet :: int32

definition NewTimerPool :: TimerPool where
  "NewTimerPool = \<lparr>timers = [], pool = [], newCount = 0, TotalNew = 0, TotalGet = 0\<rparr>"

text \<open>The methods of \<^verbatim>\<open>time.Timer\<close>: expiry, \<^verbatim>\<open>Reset\<close>, \<^verbatim>\<open>Stop\<close> (which tells whether the timer was running).\<close>

definition timer_expire :: "timer \<Rightarrow> timer" where
  "timer_expire t = (if armed t then \<lparr>armed = False, tick = True\<rparr> else t)"

definition timer_Reset :: "timer \<Rightarrow> timer" where
  "timer_Reset t = t\<lparr>armed := True\<rparr>"

definition timer_Stop :: "timer \<Rightarrow> bool \<times> timer" where
  "timer_Stop t = (armed t, t\<lparr>armed := False\<rparr>)"

definition pool_Get :: "(nat list \<Rightarrow> nat option) \<Rightarrow> TimerPool \<Rightarrow> nat \<times> TimerPool" where
  "pool_Get pick tp =
     (let new = (length (timers tp),
                 tp\<lparr>timers := timers tp @ [\<lparr>armed = True, tick = False\<rparr>],
                    newCount := fst (AtomicInteger_IncrementAndGet (newCount tp))\<rparr>)
      in case pick (pool tp) of
           None \<Rightarrow> new
         | Some t \<Rightarrow> if t \<in> set (pool tp) then (t, tp\<lparr>pool := remove1 t (pool tp)\<rparr>) else new)"

definition AcquireTimer :: "(nat list \<Rightarrow> nat option) \<Rightarrow> TimerPool \<Rightarrow> nat \<times> TimerPool" where
  "AcquireTimer pick tp =
     (let (t, tp1) = pool_Get pick tp
      in (t, tp1\<lparr>timers := (timers tp1)[t := timer_Reset (timers tp1 ! t)],
                 TotalGet := fst (AtomicInteger_IncrementAndGet (TotalGet tp1))\<rparr>))"

definition ReleaseTimer :: "nat \<Rightarrow> TimerPool \<Rightarrow> TimerPool" where
  "ReleaseTimer t tp =
     (let (running, tm) = timer_Stop (timers tp ! t);
          tm' = (if \<not> running then tm\<lparr>tick := False\<rparr> else tm)
      in tp\<lparr>timers := (timers tp)[t := tm'], pool := t # pool tp\<rparr>)"

text \<open>A receive from \<^verbatim>\<open>t.C\<close>; \<open>None\<close> while it would block.\<close>

definition timer_recv :: "nat \<Rightarrow> TimerPool \<Rightarrow> TimerPool option" where
  "timer_recv t tp =
     (if tick (timers tp ! t)
      then Some (tp\<lparr>timers := (timers tp)[t := (timers tp ! t)\<lparr>tick := False\<rparr>]\<rparr>) else None)"

section \<open>The pool in use\<close>

text \<open>
  The pool with the list of timers its users hold.  A user may also drop a timer without releasing
  it, as \<^verbatim>\<open>changeToResult\<close> does when it returns the value of a leaf, and the runtime may clear the pool.
\<close>

inductive pool_step :: "TimerPool \<times> nat list \<Rightarrow> TimerPool \<times> nat list \<Rightarrow> bool" where
  acquire: "AcquireTimer pick tp = (t, tp') \<Longrightarrow> pool_step (tp, held) (tp', t # held)"
| release: "t \<in> set held \<Longrightarrow> pool_step (tp, held) (ReleaseTimer t tp, remove1 t held)"
| expire: "t < length (timers tp) \<Longrightarrow>
    pool_step (tp, held) (tp\<lparr>timers := (timers tp)[t := timer_expire (timers tp ! t)]\<rparr>, held)"
| receive: "t \<in> set held \<Longrightarrow> timer_recv t tp = Some tp' \<Longrightarrow> pool_step (tp, held) (tp', held)"
| abandon: "t \<in> set held \<Longrightarrow> pool_step (tp, held) (tp, remove1 t held)"
| forget: "pool_step (tp, held) (tp\<lparr>pool := remove1 t (pool tp)\<rparr>, held)"

inductive pool_reachable :: "TimerPool \<times> nat list \<Rightarrow> bool" where
  init: "pool_reachable (NewTimerPool, [])"
| step: "pool_reachable s \<Longrightarrow> pool_step s s' \<Longrightarrow> pool_reachable s'"

text \<open>
  No timer is held twice, or held and pooled; a pooled timer is neither running nor has a tick
  waiting in its channel; no timer runs while a tick waits in its channel.
\<close>

definition pool_inv :: "TimerPool \<times> nat list \<Rightarrow> bool" where
  "pool_inv s \<longleftrightarrow> (case s of (tp, held) \<Rightarrow>
     distinct (pool tp @ held)
     \<and> (\<forall>t\<in>set (pool tp @ held). t < length (timers tp))
     \<and> (\<forall>t\<in>set (pool tp). \<not> armed (timers tp ! t) \<and> \<not> tick (timers tp ! t))
     \<and> (\<forall>t<length (timers tp). \<not> (armed (timers tp ! t) \<and> tick (timers tp ! t))))"

section \<open>Lemmas\<close>

lemma pool_Get_cases:
  assumes "pool_inv (tp, held)" and "pool_Get pick tp = (t, tp1)"
  shows "pool_inv (tp1, t # held) \<and> \<not> tick (timers tp1 ! t)
    \<and> TotalNew tp1 = TotalNew tp \<and> TotalGet tp1 = TotalGet tp"
proof (cases "pick (pool tp)")
  case None
  then show ?thesis using assms by (auto simp: pool_Get_def pool_inv_def nth_append Let_def less_Suc_eq)
next
  case (Some u)
  then show ?thesis
    using assms
    by (auto simp: pool_Get_def pool_inv_def nth_append Let_def less_Suc_eq split: if_splits dest: notin_set_remove1)
qed

lemma AcquireTimer_inv:
  assumes "pool_inv (tp, held)" and "AcquireTimer pick tp = (t, tp')"
  shows "pool_inv (tp', t # held)" "armed (timers tp' ! t)" "\<not> tick (timers tp' ! t)"
    "TotalNew tp' = TotalNew tp" "TotalGet tp' = TotalGet tp + 1"
proof -
  obtain tp1 where g: "pool_Get pick tp = (t, tp1)" and
    tp': "tp' = tp1\<lparr>timers := (timers tp1)[t := timer_Reset (timers tp1 ! t)],
                 TotalGet := fst (AtomicInteger_IncrementAndGet (TotalGet tp1))\<rparr>"
    using assms(2) by (auto simp: AcquireTimer_def split: prod.splits)
  note g' = pool_Get_cases [OF assms(1) g]
  show "pool_inv (tp', t # held)" "armed (timers tp' ! t)" "\<not> tick (timers tp' ! t)"
    "TotalNew tp' = TotalNew tp" "TotalGet tp' = TotalGet tp + 1"
    using g' by (auto simp: tp' pool_inv_def timer_Reset_def nth_list_update AtomicInteger_IncrementAndGet_def)
qed

lemma ReleaseTimer_inv:
  "pool_inv (tp, held) \<Longrightarrow> t \<in> set held \<Longrightarrow> pool_inv (ReleaseTimer t tp, remove1 t held)"
  by (auto simp: pool_inv_def ReleaseTimer_def timer_Stop_def nth_list_update dest: notin_set_remove1)


lemma pool_step_inv: "pool_step s s' \<Longrightarrow> pool_inv s \<Longrightarrow> pool_inv s'"
proof (induction rule: pool_step.induct)
  case (acquire pick tp t tp' held)
  then show ?case using AcquireTimer_inv(1) by blast
next
  case (release t held tp)
  then show ?case using ReleaseTimer_inv by blast
next
  case (expire t tp held)
  then show ?case by (auto simp: pool_inv_def timer_expire_def nth_list_update)
next
  case (receive t held tp tp')
  then show ?case by (auto simp: pool_inv_def timer_recv_def nth_list_update split: if_splits)
next
  case (abandon t held tp)
  then show ?case by (auto simp: pool_inv_def dest: notin_set_remove1)
next
  case (forget tp held t)
  then show ?case by (auto simp: pool_inv_def dest: notin_set_remove1)
qed

lemma pool_reachable_inv: "pool_reachable s \<Longrightarrow> pool_inv s"
proof (induction rule: pool_reachable.induct)
  case init
  then show ?case by (simp add: pool_inv_def NewTimerPool_def)
next
  case (step s s')
  then show ?case by (blast intro: pool_step_inv)
qed

lemma pool_step_TotalNew: "pool_step s s' \<Longrightarrow> TotalNew (fst s') = TotalNew (fst s)"
proof (induction rule: pool_step.induct)
  case (acquire pick tp t tp' held)
  have "TotalNew (snd (pool_Get pick tp)) = TotalNew tp"
    by (cases "pick (pool tp)") (simp_all add: pool_Get_def Let_def)
  with acquire show ?case by (auto simp: AcquireTimer_def split: prod.splits)
qed (auto simp: ReleaseTimer_def timer_Stop_def timer_recv_def split: if_splits)

section \<open>Claims\<close>


text \<open>A pool whose only timer expired, was received from and released.\<close>

definition sample_pool :: TimerPool where
  "sample_pool = \<lparr>timers = [\<lparr>armed = False, tick = False\<rparr>], pool = [0], newCount = 1, TotalNew = 0, TotalGet = 1\<rparr>"

lemma sample_pool_reachable: "pool_reachable (sample_pool, [])"
proof -
  let ?tp = "\<lparr>timers = [\<lparr>armed = True, tick = False\<rparr>], pool = [], newCount = 1, TotalNew = 0, TotalGet = 1\<rparr>"
  have "AcquireTimer (\<lambda>_. None) NewTimerPool = (0, ?tp)"
    by (simp add: AcquireTimer_def pool_Get_def NewTimerPool_def timer_Reset_def AtomicInteger_IncrementAndGet_def)
  then have 1: "pool_reachable (?tp, [0])" by (rule step [OF init acquire])
  from step [OF 1 expire [of 0]] have 2: "pool_reachable (?tp\<lparr>timers := [\<lparr>armed = False, tick = True\<rparr>]\<rparr>, [0])"
    by (simp add: timer_expire_def)
  from step [OF 2 release [of 0]] show ?thesis
    by (simp add: ReleaseTimer_def timer_Stop_def sample_pool_def)
qed


text \<open>The exported counter \<^verbatim>\<open>TotalNew\<close> is a copy taken before any timer exists and stays 0, however many timers
  the pool creates.\<close>

theorem TotalNew_stays_zero:
  assumes "pool_reachable s"
  shows "TotalNew (fst s) = 0"
  using assms by (induction rule: pool_reachable.induct) (simp_all add: NewTimerPool_def pool_step_TotalNew)

theorem TotalNew_stays_zero_witness: "TotalNew sample_pool = 0 \<and> newCount sample_pool = 1"
  using TotalNew_stays_zero [OF sample_pool_reachable] by (simp add: sample_pool_def)

end
