(* ===== verification/Flatmap_Props.thy ===== *)
theory Flatmap_Props
  imports Util
begin

text \<open>
  What \<^verbatim>\<open>Flatten\<close> and \<^verbatim>\<open>Expand\<close> do to values whose keys are path elements, and the laws of the path and
  number helpers.
\<close>

section \<open>Printed numbers\<close>

lemma of_char_digit: "d < 10 \<Longrightarrow> (of_char (char_of (48 + d) :: char) :: nat) = 48 + d"
  by simp

lemma digits_val_snoc: "digits_val (ds @ [c]) = 10 * digits_val ds + (int (of_char c) - 48)"
  by (simp add: digits_val_def)

lemma show_nat_val: "digits_val (show_nat n) = int n \<and> list_all is_digit (show_nat n) \<and> show_nat n \<noteq> []"
proof (induction n rule: show_nat.induct)
  case (1 n)
  show ?case
  proof (cases "n < 10")
    case True
    then show ?thesis
      by (subst (1 2 3) show_nat.simps) (simp add: digits_val_def is_digit_def del: of_char_of add: of_char_digit)
  next
    case False
    then have "digits_val (show_nat (n div 10)) = int (n div 10)" "list_all is_digit (show_nat (n div 10))"
      using 1 by simp_all
    moreover have "(of_char (char_of (48 + n mod 10) :: char) :: nat) = 48 + n mod 10" by simp
    moreover have "int n = 10 * int (n div 10) + int (n mod 10)" by (metis mult_div_mod_eq of_nat_add of_nat_mult of_nat_numeral)
    ultimately show ?thesis
      using False by (subst (1 2 3) show_nat.simps) (simp add: digits_val_snoc is_digit_def del: of_char_of)
  qed
qed

lemma show_nat_inj: "show_nat a = show_nat b \<longleftrightarrow> a = b"
  using show_nat_val [of a] show_nat_val [of b] by (metis of_nat_eq_iff)

lemma digit_plain: "list_all is_digit w \<Longrightarrow> CHR ''/'' \<notin> set w \<and> CHR ''-'' \<notin> set w \<and> CHR ''+'' \<notin> set w \<and> CHR ''.'' \<notin> set w"
  by (induction w) (auto simp: is_digit_def)

lemma canon_show_nat: "canon (show_nat n)"
  using show_nat_val [of n] digit_plain [of "show_nat n"] by (auto simp: canon_def seg_def)

section \<open>Values as maps of paths\<close>

text \<open>The entries of a container: those of a map, or of a slice under the printed index.\<close>

fun entries :: "goval \<Rightarrow> (string \<times> goval) list" where
  "entries (VMap m) = m"
| "entries (VSlice vs) = zip (map show_nat [0..<length vs]) vs"
| "entries _ = []"

text \<open>The printed scalar found by following a path of keys.\<close>

fun flat_at :: "string list \<Rightarrow> goval \<Rightarrow> string option" where
  "flat_at [] v = scalar v"
| "flat_at (k # ks) v = Option.bind (map_of (entries v) k) (flat_at ks)"

text \<open>Every map in the value has distinct canonical path elements as keys.\<close>

fun keys_ok :: "goval \<Rightarrow> bool" where
  "keys_ok (VMap m) \<longleftrightarrow> map_ok m \<and> (\<forall>kv\<in>set m. canon (fst kv) \<and> keys_ok (snd kv))"
| "keys_ok (VSlice vs) \<longleftrightarrow> (\<forall>v\<in>set vs. keys_ok v)"
| "keys_ok _ \<longleftrightarrow> True"

lemma flattenSlice_entries:
  "flattenSlice res pfx i vs = flattenMap res pfx (zip (map show_nat [i..<i + length vs]) vs)"
proof (induction vs arbitrary: res i)
  case (Cons v vs)
  have "[i..<i + length (v # vs)] = i # [Suc i..<Suc i + length vs]" by (simp add: upt_conv_Cons del: upt_Suc)
  with Cons show ?case by (simp del: upt_Suc)
qed simp

lemma flatten_unfold:
  "pfx \<noteq> '''' \<Longrightarrow> flatten res pfx v =
    (case scalar v of
       Some x \<Rightarrow> AList.update (rooted pfx) x res
     | None \<Rightarrow> flattenMap res (rooted pfx) (entries v))"
  using flattenSlice_entries [of res "rooted pfx" 0] by (cases v) simp_all

declare flatten.simps [simp del]

text \<open>The string of a path below the root, empty for the root itself.\<close>

definition pre :: "string list \<Rightarrow> string" where
  "pre es = concat (map (\<lambda>e. CHR ''/'' # e) es)"

lemma pre_Nil [simp]: "pre [] = ''''"
  by (simp add: pre_def)

lemma pre_snoc: "pre (es @ [k]) = pre es @ CHR ''/'' # k"
  by (simp add: pre_def)

lemma pre_abs_path: "es \<noteq> [] \<Longrightarrow> pre es = abs_path es"
  by (induction es rule: strings_Join.induct) (simp_all add: pre_def abs_path_def)

lemma rooted_pre: "es \<noteq> [] \<Longrightarrow> rooted (pre es) = pre es \<and> pre es \<noteq> ''''"
  by (simp add: pre_abs_path rooted_def abs_path_def)

lemma pre_inj: "\<forall>e\<in>set es. seg e \<Longrightarrow> \<forall>e\<in>set fs. seg e \<Longrightarrow> pre es = pre fs \<longleftrightarrow> es = fs"
  by (metis abs_path_not_Nil pre_Nil pre_abs_path segs_abs_path)

lemma map_ok_entries: "keys_ok v \<Longrightarrow> map_ok (entries v)"
  by (cases v) (auto simp: distinct_map inj_on_def show_nat_inj)

lemma entries_ok: "keys_ok v \<Longrightarrow> (k, w) \<in> set (entries v) \<Longrightarrow> canon k \<and> keys_ok w"
  using set_zip_leftD [of k w _ "case v of VSlice vs \<Rightarrow> vs | _ \<Rightarrow> []"]
    set_zip_rightD [of k w _ "case v of VSlice vs \<Rightarrow> vs | _ \<Rightarrow> []"]
  by (cases v) (fastforce simp: canon_show_nat)+

lemma size_entries: "(k, w) \<in> set (entries v) \<Longrightarrow> size w < size v"
proof (cases v)
  case (VMap m)
  assume "(k, w) \<in> set (entries v)"
  with VMap show ?thesis by (induction m arbitrary: v) auto
next
  case (VSlice vs)
  assume "(k, w) \<in> set (entries v)"
  then have "w \<in> set vs" using VSlice by (auto dest: set_zip_rightD)
  then have "size w \<le> size_list size vs" by (simp add: size_list_estimation')
  with VSlice show ?thesis by simp
qed auto


section \<open>Flatten\<close>

text \<open>Flattening \<open>v\<close> under the path \<open>es\<close> adds exactly the scalars of \<open>v\<close>, each at its own path.\<close>

definition flattened :: "string list \<Rightarrow> goval \<Rightarrow> ((string, string) gomap \<Rightarrow> (string, string) gomap) \<Rightarrow> bool" where
  "flattened es v f \<longleftrightarrow>
     (\<forall>res q. (\<forall>e\<in>set q. seg e) \<longrightarrow> map_of (f res) (pre q) =
        (if prefix es q then (case flat_at (drop (length es) q) v of Some x \<Rightarrow> Some x | None \<Rightarrow> map_of res (pre q))
         else map_of res (pre q)))"

lemma flattenMap_step:
  assumes "map_ok m" and "\<forall>kv\<in>set m. canon (fst kv) \<and> flattened (es @ [fst kv]) (snd kv) (\<lambda>res. flatten res (pre (es @ [fst kv])) (snd kv))"
    and "\<forall>e\<in>set q. seg e"
  shows "map_of (flattenMap res (pre es) m) (pre q) =
    (if prefix es q \<and> q \<noteq> es
     then (case Option.bind (map_of m (q ! length es)) (flat_at (drop (Suc (length es)) q)) of
             Some x \<Rightarrow> Some x | None \<Rightarrow> map_of res (pre q))
     else map_of res (pre q))"
  using assms(1,2)
proof (induction m arbitrary: res)
  case Nil
  then show ?case by simp
next
  case (Cons kv m)
  obtain k v where kv: "kv = (k, v)" by force
  have fl: "map_of (flatten res (pre (es @ [k])) v) (pre q) =
      (if prefix (es @ [k]) q then (case flat_at (drop (Suc (length es)) q) v of Some x \<Rightarrow> Some x | None \<Rightarrow> map_of res (pre q))
       else map_of res (pre q))" for res
    using Cons.prems(2) kv assms(3) by (simp add: flattened_def)
  have pk: "prefix (es @ [k]) q \<longleftrightarrow> prefix es q \<and> q \<noteq> es \<and> q ! length es = k"
  proof
    assume "prefix es q \<and> q \<noteq> es \<and> q ! length es = k"
    then obtain zs where zs: "q = es @ zs" "zs \<noteq> []" "q ! length es = k" by (auto simp: prefix_def)
    then show "prefix (es @ [k]) q" by (cases zs) (auto simp: prefix_def nth_append)
  qed (auto simp: prefix_def nth_append)
  have mk: "map_of m k = None" using Cons.prems(1) kv by (simp add: map_of_eq_None_iff)
  have step: "flattenMap res (pre es) (kv # m) = flattenMap (flatten res (pre (es @ [k])) v) (pre es) m"
    by (simp add: kv pre_snoc)
  note IH = Cons.IH [of "flatten res (pre (es @ [k])) v"]
  show ?case
  proof (cases "prefix es q \<and> q \<noteq> es \<and> q ! length es = k")
    case True
    then show ?thesis using IH Cons.prems kv fl pk mk unfolding step by (simp del: flattenMap.simps)
  next
    case False
    then have "map_of (flatten res (pre (es @ [k])) v) (pre q) = map_of res (pre q)" using fl pk by metis
    moreover have "prefix es q \<and> q \<noteq> es \<Longrightarrow> map_of (kv # m) (q ! length es) = map_of m (q ! length es)"
      using False kv by auto
    ultimately show ?thesis
      using IH Cons.prems unfolding step by (auto simp del: flattenMap.simps split: option.splits)
  qed
qed

lemma flattened_flatten:
  "keys_ok v \<Longrightarrow> \<forall>e\<in>set es. seg e \<Longrightarrow> es \<noteq> [] \<Longrightarrow> flattened es v (\<lambda>res. flatten res (pre es) v)"
proof (induction v arbitrary: es rule: measure_induct_rule [of size])
  case (less v)
  show ?case
    unfolding flattened_def
  proof (intro allI impI)
    fix res q
    assume q: "\<forall>e\<in>set q. seg e"
    show "map_of (flatten res (pre es) v) (pre q) =
        (if prefix es q then (case flat_at (drop (length es) q) v of Some x \<Rightarrow> Some x | None \<Rightarrow> map_of res (pre q))
         else map_of res (pre q))"
    proof (cases "scalar v")
      case (Some x)
      then have e: "entries v = []" by (cases v) auto
      have "prefix es q \<Longrightarrow> flat_at (drop (length es) q) v = (if q = es then Some x else None)"
        using Some e by (cases "drop (length es) q") (auto simp: prefix_def)
      with Some show ?thesis
        using rooted_pre [OF less.prems(3)] pre_inj [OF less.prems(2) q] by (auto simp: flatten_unfold)
    next
      case None
      have "canon (fst kw) \<and> flattened (es @ [fst kw]) (snd kw) (\<lambda>res. flatten res (pre (es @ [fst kw])) (snd kw))"
        if "kw \<in> set (entries v)" for kw
      proof -
        have "(fst kw, snd kw) \<in> set (entries v)" using that by simp
        note kw = entries_ok [OF less.prems(1) this] size_entries [OF this]
        then show ?thesis using less.IH [of "snd kw" "es @ [fst kw]"] less.prems(2) by auto
      qed
      then have "map_of (flattenMap res (pre es) (entries v)) (pre q) =
        (if prefix es q \<and> q \<noteq> es
         then (case Option.bind (map_of (entries v) (q ! length es)) (flat_at (drop (Suc (length es)) q)) of
                 Some x \<Rightarrow> Some x | None \<Rightarrow> map_of res (pre q))
         else map_of res (pre q))"
        using flattenMap_step [OF map_ok_entries [OF less.prems(1)] _ q] by blast
      moreover have "prefix es q \<Longrightarrow> flat_at (drop (length es) q) v =
          (if q = es then None else Option.bind (map_of (entries v) (q ! length es)) (flat_at (drop (Suc (length es)) q)))"
        using None by (cases "drop (length es) q") (auto simp: prefix_def nth_append)
      moreover have "flatten res (pre es) v = flattenMap res (pre es) (entries v)"
        using None rooted_pre [OF less.prems(3)] by (simp add: flatten_unfold)
      ultimately show ?thesis by auto
    qed
  qed
qed

lemma Flatten_entries_eq:
  assumes "\<forall>kv\<in>set m. seg (fst kv)"
  shows "Flatten_entries m = flattenMap [] '''' m"
proof -
  have "fold (\<lambda>(k, raw) res. flatten res k raw) m res = flattenMap res '''' m" for res
    using assms
  proof (induction m arbitrary: res)
    case (Cons kv m)
    obtain k v where kv: "kv = (k, v)" by force
    have "seg k" using Cons.prems kv by simp
    then have "rooted k = CHR ''/'' # k" "k \<noteq> ''''" by (auto simp: rooted_def seg_def dest: hd_in_set)
    then have "flatten res k v = flatten res (CHR ''/'' # k) v"
      by (cases "scalar v") (simp_all add: flatten_unfold rooted_def [of "CHR ''/'' # k"])
    with Cons kv show ?case by simp
  qed simp
  then show ?thesis by (simp add: Flatten_entries_def)
qed

lemma Flatten_at:
  assumes "keys_ok (VMap m)" and "\<forall>e\<in>set q. seg e" and "q \<noteq> []"
  shows "map_of (Flatten_entries m) (abs_path q) = flat_at q (VMap m)"
proof -
  have "\<forall>kv\<in>set m. canon (fst kv) \<and> flattened ([] @ [fst kv]) (snd kv) (\<lambda>res. flatten res (pre ([] @ [fst kv])) (snd kv))"
    using assms(1) flattened_flatten by auto
  from flattenMap_step [OF _ this assms(2), of "[]"] assms
  have "map_of (flattenMap [] '''' m) (pre q) = flat_at q (VMap m)"
    by (cases q) (auto split: option.splits)
  moreover have "\<forall>kv\<in>set m. seg (fst kv)" using assms(1) by auto
  ultimately show ?thesis using assms(3) by (simp add: Flatten_entries_eq pre_abs_path)
qed


text \<open>The keys of a flattened value: distinct, canonical paths, none of them below another.\<close>

definition path_keys :: "(string, string) gomap \<Rightarrow> bool" where
  "path_keys fm \<longleftrightarrow> map_ok fm \<and> (\<forall>k\<in>set (keys fm). \<exists>q. q \<noteq> [] \<and> (\<forall>e\<in>set q. canon e) \<and> k = pre q)"

definition prefix_free :: "(string, string) gomap \<Rightarrow> bool" where
  "prefix_free fm \<longleftrightarrow>
     (\<forall>q q'. (\<forall>e\<in>set q'. seg e) \<longrightarrow> map_of fm (pre q) \<noteq> None \<longrightarrow> map_of fm (pre q') \<noteq> None \<longrightarrow> prefix q q' \<longrightarrow> q = q')"

lemma path_keys_update:
  assumes "path_keys fm" and "q \<noteq> []" and "\<forall>e\<in>set q. canon e"
  shows "path_keys (AList.update (pre q) x fm)"
  unfolding path_keys_def
proof (intro conjI ballI)
  show "map_ok (AList.update (pre q) x fm)" using assms(1) by (simp add: path_keys_def)
  fix k
  assume "k \<in> set (keys (AList.update (pre q) x fm))"
  then have "k = pre q \<or> k \<in> set (keys fm)" using set_update_subset [of "pre q" x fm] by auto
  then show "\<exists>q. q \<noteq> [] \<and> (\<forall>e\<in>set q. canon e) \<and> k = pre q" using assms by (auto simp: path_keys_def)
qed

lemma path_keys_flatten:
  "keys_ok v \<Longrightarrow> \<forall>e\<in>set es. canon e \<Longrightarrow> es \<noteq> [] \<Longrightarrow> path_keys res \<Longrightarrow> path_keys (flatten res (pre es) v)"
proof (induction v arbitrary: es res rule: measure_induct_rule [of size])
  case (less v)
  note r = rooted_pre [OF less.prems(3)]
  show ?case
  proof (cases "scalar v")
    case (Some x)
    then show ?thesis using r less.prems path_keys_update by (simp add: flatten_unfold)
  next
    case None
    have "path_keys (flattenMap res (pre es) m)" if "set m \<subseteq> set (entries v)" "path_keys res" for m res
      using that
    proof (induction m arbitrary: res)
      case (Cons kw m)
      obtain k w where kw: "kw = (k, w)" by force
      then have "(k, w) \<in> set (entries v)" using Cons.prems by simp
      note e = entries_ok [OF less.prems(1) this] size_entries [OF this]
      have "path_keys (flatten res (pre (es @ [k])) w)"
        using less.IH [OF e(2), of "es @ [k]" res] e(1) less.prems(2) Cons.prems(2) by auto
      with Cons kw show ?case by (simp add: pre_snoc)
    qed simp
    with None r less.prems(4) show ?thesis by (simp add: flatten_unfold)
  qed
qed

lemma path_keys_Flatten:
  assumes "keys_ok (VMap m)"
  shows "path_keys (Flatten_entries m)"
proof -
  have seg: "\<forall>kv\<in>set m. seg (fst kv)" using assms by auto
  have "path_keys (flattenMap res '''' m')" if "set m' \<subseteq> set m" "path_keys res" for m' res
    using that
  proof (induction m' arbitrary: res)
    case (Cons kw m')
    obtain k w where kw: "kw = (k, w)" by force
    have "path_keys (flatten res (pre [k]) w)"
      using Cons.prems kw assms by (intro path_keys_flatten) auto
    with Cons kw show ?case by (simp add: pre_def)
  qed simp
  from this [of m "[]"] show ?thesis by (simp add: Flatten_entries_eq [OF seg] path_keys_def)
qed

lemma flat_at_prefix: "flat_at q v \<noteq> None \<Longrightarrow> flat_at (q @ r) v \<noteq> None \<Longrightarrow> r = []"
proof (induction q arbitrary: v)
  case Nil
  then have "entries v = []" by (cases v) auto
  with Nil show ?case by (cases r) auto
next
  case (Cons k q)
  then show ?case by (auto split: bind_splits)
qed

lemma prefix_free_Flatten:
  assumes "keys_ok (VMap m)"
  shows "prefix_free (Flatten_entries m)"
  unfolding prefix_free_def
proof (intro allI impI)
  fix q q'
  assume s: "\<forall>e\<in>set q'. seg e" and k: "map_of (Flatten_entries m) (pre q) \<noteq> None"
    "map_of (Flatten_entries m) (pre q') \<noteq> None" and p: "prefix q q'"
  obtain r where r: "q' = q @ r" using p by (auto simp: prefix_def)
  have ne: "map_of (Flatten_entries m) '''' = None"
    using path_keys_Flatten [OF assms] rooted_pre by (auto simp: path_keys_def map_of_eq_None_iff) (metis imageI fst_conv)
  then have "q \<noteq> []" "q' \<noteq> []" using k by auto
  then have "flat_at q (VMap m) \<noteq> None" "flat_at q' (VMap m) \<noteq> None"
    using k s r Flatten_at [OF assms, of q] Flatten_at [OF assms, of q'] by (auto simp: pre_abs_path)
  then show "q = q'" using flat_at_prefix r by blast
qed


section \<open>Expand\<close>

lemma pre_append: "pre (es @ fs) = pre es @ pre fs"
  by (simp add: pre_def)

lemma pre_Cons: "pre (e # es) = CHR ''/'' # e @ pre es"
  by (simp add: pre_def)

lemma segs_pre: "\<forall>e\<in>set q. seg e \<Longrightarrow> segs (pre q) = q"
  by (cases "q = []") (simp_all add: pre_abs_path segs_abs_path)

lemma HasPrefix_iff: "strings_HasPrefix s p \<longleftrightarrow> (\<exists>z. s = p @ z)"
  unfolding strings_HasPrefix_def by (metis append_eq_conv_conj append_take_drop_id)

text \<open>A key lies below \<open>es\<close> exactly when it has the prefix string; the next component is its head.\<close>

lemma key_below:
  assumes "\<forall>e\<in>set q. seg e" and "\<forall>e\<in>set es. seg e"
  shows "strings_HasPrefix (pre q) (pre es @ ''/'') \<longleftrightarrow> (\<exists>x ys. q = es @ x # ys)"
proof
  assume "strings_HasPrefix (pre q) (pre es @ ''/'')"
  then obtain z where z: "pre q = pre es @ CHR ''/'' # z" by (auto simp: HasPrefix_iff)
  then have "q = es @ segs z" using segs_pre [OF assms(1)] segs_pre [OF assms(2)] segs_append_slash [of "pre es" z] by simp
  moreover have "segs z \<noteq> []"
  proof
    assume "segs z = []"
    with \<open>q = es @ segs z\<close> z show False by simp
  qed
  ultimately show "\<exists>x ys. q = es @ x # ys" by (metis list.exhaust)
qed (auto simp: HasPrefix_iff pre_append pre_Cons)

lemma takeWhile_key:
  assumes "seg x"
  shows "takeWhile (\<lambda>c. c \<noteq> CHR ''/'') (x @ pre ys) = x"
proof -
  have "\<forall>c\<in>set x. c \<noteq> CHR ''/''" using assms by (auto simp: seg_def)
  moreover have "takeWhile (\<lambda>c. c \<noteq> CHR ''/'') (pre ys) = []" by (cases ys) (simp_all add: pre_def)
  ultimately show ?thesis by (simp add: takeWhile_append2)
qed

text \<open>A loop that adds, for every element that yields a key, the value of the key, unless it is there.\<close>

lemma foldM_collect:
  assumes "\<And>x. \<exists>k\<in>set xs. f k = Some x \<Longrightarrow> \<exists>v. g x = Inr v"
    and "\<And>k r. k \<in> set xs \<Longrightarrow> b k r = (case f k of None \<Rightarrow> Inr r
        | Some x \<Rightarrow> if x \<in> set (keys r) then Inr r else (case g x of Inl e \<Rightarrow> Inl e | Inr v \<Rightarrow> Inr (AList.update x v r)))"
    and "\<And>x v. map_of r0 x = Some v \<Longrightarrow> g x = Inr v"
  shows "\<exists>r. foldM b xs r0 = Inr r \<and>
    (\<forall>x. map_of r x = (if (\<exists>k\<in>set xs. f k = Some x) \<or> map_of r0 x \<noteq> None
      then (case g x of Inr v \<Rightarrow> Some v | Inl _ \<Rightarrow> None) else None))"
  using assms
proof (induction xs arbitrary: r0)
  case Nil
  then show ?case by (force simp: option.case_eq_if split: sum.splits)
next
  case (Cons k xs)
  show ?case
  proof (cases "f k")
    case None
    then have "foldM b (k # xs) r0 = foldM b xs r0" using Cons.prems(2) by simp
    with Cons.IH [of r0] Cons.prems None show ?thesis by auto
  next
    case (Some x)
    obtain v where v: "g x = Inr v" using Cons.prems(1) [of x] Some by auto
    let ?r = "if x \<in> set (keys r0) then r0 else AList.update x v r0"
    have "foldM b (k # xs) r0 = foldM b xs ?r" using Cons.prems(2) Some v by simp
    moreover have "\<exists>r. foldM b xs ?r = Inr r \<and>
      (\<forall>y. map_of r y = (if (\<exists>k\<in>set xs. f k = Some y) \<or> map_of ?r y \<noteq> None
        then (case g y of Inr v \<Rightarrow> Some v | Inl _ \<Rightarrow> None) else None))"
    proof (rule Cons.IH)
      show "\<exists>v. g y = Inr v" if "\<exists>k\<in>set xs. f k = Some y" for y using Cons.prems(1) [of y] that by auto
      show "g y = Inr w" if "map_of ?r y = Some w" for y w
        using that Cons.prems(3) v by (auto split: if_splits)
    qed (use Cons.prems(2) in simp)
    moreover have "map_of ?r y \<noteq> None \<longleftrightarrow> y = x \<or> map_of r0 y \<noteq> None" for y
    proof (cases "x \<in> set (keys r0)")
      case True
      then have "map_of r0 x \<noteq> None" by (simp add: map_of_eq_None_iff)
      with True show ?thesis by auto
    qed simp
    then have "(\<exists>k'\<in>set xs. f k' = Some y) \<or> map_of ?r y \<noteq> None \<longleftrightarrow>
        (\<exists>k'\<in>set (k # xs). f k' = Some y) \<or> map_of r0 y \<noteq> None" for y
      using Some by auto
    ultimately show ?thesis by (simp only:)
  qed
qed


text \<open>The next component of a key below \<open>es\<close>.\<close>

definition next_elem :: "string list \<Rightarrow> string \<times> string \<Rightarrow> string option" where
  "next_elem es kv =
     (if strings_HasPrefix (fst kv) (pre es @ ''/'') then Some (segs (fst kv) ! length es) else None)"

lemma expandMap_body:
  assumes "path_keys fm" and "(k, w) \<in> set fm" and "\<forall>e\<in>set es. seg e"
  shows "(if pre es @ ''/'' \<noteq> ''/'' \<and> \<not> strings_HasPrefix k (pre es @ ''/'') then Inr result
     else if length k < length (pre es @ ''/'') then Inl (Panic ''slice bounds out of range'')
     else let key = takeWhile (\<lambda>c. c \<noteq> CHR ''/'') (drop (length (pre es @ ''/'')) k)
          in if key \<in> set (keys result) then Inr result
             else (case expand fm (take (length (pre es @ ''/'') + length key) k) of
                     Inl e \<Rightarrow> Inl e | Inr v \<Rightarrow> Inr (AList.update key v result))) =
    (case next_elem es (k, w) of
       None \<Rightarrow> Inr result
     | Some x \<Rightarrow> if x \<in> set (keys result) then Inr result
                 else (case expand fm (pre (es @ [x])) of Inl e \<Rightarrow> Inl e | Inr v \<Rightarrow> Inr (AList.update x v result)))"
proof -
  obtain q where q: "q \<noteq> []" "\<forall>e\<in>set q. canon e" "k = pre q"
    using assms(1,2) by (force simp: path_keys_def)
  have qs: "\<forall>e\<in>set q. seg e" using q(2) by auto
  show ?thesis
  proof (cases "strings_HasPrefix k (pre es @ ''/'')")
    case True
    then obtain x ys where x: "q = es @ x # ys" using key_below [OF qs assms(3)] q(3) by blast
    have sx: "seg x" using qs x by simp
    have k: "k = (pre es @ ''/'') @ x @ pre ys" using q(3) x by (simp add: pre_append pre_Cons)
    have key: "takeWhile (\<lambda>c. c \<noteq> CHR ''/'') (drop (length (pre es @ ''/'')) k) = x"
      unfolding k using takeWhile_key [OF sx] by simp
    moreover have "take (length (pre es @ ''/'') + length x) k = pre (es @ [x])"
      unfolding k by (simp add: pre_append pre_Cons)
    moreover have "next_elem es (k, w) = Some x"
      using True segs_pre [OF qs] q(3) x by (simp add: next_elem_def nth_append)
    moreover have "\<not> length k < length (pre es @ ''/'')" unfolding k by simp
    ultimately show ?thesis using True by (simp only: Let_def option.case simp_thms if_False if_True)
  next
    case False
    moreover have "pre es @ ''/'' \<noteq> ''/''"
    proof
      assume "pre es @ ''/'' = ''/''"
      then have "es = []" by (cases es) (simp_all add: pre_Cons)
      with False q show False by (cases q) (simp_all add: pre_Cons HasPrefix_iff)
    qed
    ultimately show ?thesis by (simp add: next_elem_def)
  qed
qed

lemma next_elem_below:
  assumes "path_keys fm" and "kv \<in> set fm" and "\<forall>e\<in>set es. seg e"
  shows "next_elem es kv = Some x \<longleftrightarrow> (\<exists>ys. segs (fst kv) = es @ x # ys \<and> fst kv = pre (es @ x # ys) \<and> (\<forall>e\<in>set ys. seg e) \<and> seg x)"
proof -
  obtain q where q: "q \<noteq> []" "\<forall>e\<in>set q. canon e" "fst kv = pre q"
    using assms(1,2) by (force simp: path_keys_def)
  have qs: "\<forall>e\<in>set q. seg e" using q(2) by auto
  show ?thesis
    using key_below [OF qs assms(3)] segs_pre [OF qs] q(3) qs by (auto simp: next_elem_def nth_append)
qed


text \<open>
  What expanding the part of a flat map below \<open>es\<close> gives: the string of each key, unless the flat
  map has a shorter key on the way to it.
\<close>

definition shadowed :: "(string, string) gomap \<Rightarrow> string list \<Rightarrow> string list \<Rightarrow> bool" where
  "shadowed fm es ks \<longleftrightarrow> (\<exists>ks'. strict_prefix ks' ks \<and> map_of fm (pre (es @ ks')) \<noteq> None)"

definition expands :: "(string, string) gomap \<Rightarrow> string list \<Rightarrow> goval \<Rightarrow> bool" where
  "expands fm es v \<longleftrightarrow> (\<forall>ks. (\<forall>e\<in>set ks. seg e) \<longrightarrow>
     val_leaf ks v = (if shadowed fm es ks then None else map_of fm (pre (es @ ks))))"

lemma shadowed_Nil [simp]: "\<not> shadowed fm es []"
  by (simp add: shadowed_def)

lemma shadowed_Cons: "map_of fm (pre es) = None \<Longrightarrow> shadowed fm es (x # ys) \<longleftrightarrow> shadowed fm (es @ [x]) ys"
proof
  assume n: "map_of fm (pre es) = None"
  assume "shadowed fm es (x # ys)"
  then obtain ks' where ks: "strict_prefix ks' (x # ys)" "map_of fm (pre (es @ ks')) \<noteq> None" by (auto simp: shadowed_def)
  with n obtain zs where "ks' = x # zs" "strict_prefix zs ys" by (cases ks') (auto simp: strict_prefix_def)
  with ks show "shadowed fm (es @ [x]) ys" by (auto simp: shadowed_def)
next
  assume "shadowed fm (es @ [x]) ys"
  then obtain zs where zs: "strict_prefix zs ys" "map_of fm (pre (es @ [x] @ zs)) \<noteq> None" by (auto simp: shadowed_def)
  then show "shadowed fm es (x # ys)" unfolding shadowed_def by (intro exI [of _ "x # zs"]) (simp add: strict_prefix_def)
qed

lemma shadowed_prefix_free:
  assumes "prefix_free fm" and "\<forall>e\<in>set (es @ ks). seg e" and "shadowed fm es ks"
  shows "map_of fm (pre (es @ ks)) = None"
proof (rule ccontr)
  assume k: "map_of fm (pre (es @ ks)) \<noteq> None"
  from assms(3) obtain ks' where s: "strict_prefix ks' ks" "map_of fm (pre (es @ ks')) \<noteq> None" by (auto simp: shadowed_def)
  then have "prefix (es @ ks') (es @ ks)" by (simp add: strict_prefix_def)
  with assms(1,2) k s(2) have "es @ ks' = es @ ks" unfolding prefix_free_def by blast
  with s(1) show False by simp
qed

lemma expandMap_expands:
  assumes "path_keys fm" and "\<forall>e\<in>set es. seg e" and "map_of fm (pre es) = None"
    and IH: "\<And>x. \<exists>kv\<in>set fm. next_elem es kv = Some x \<Longrightarrow> \<exists>v. expand fm (pre (es @ [x])) = Inr v \<and> expands fm (es @ [x]) v"
  shows "\<exists>r. expandMap fm (pre es @ ''/'') = Inr r \<and> expands fm es (VMap r)"
proof -
  define body where "body = (\<lambda>(k, _ :: string) result.
       if pre es @ ''/'' \<noteq> ''/'' \<and> \<not> strings_HasPrefix k (pre es @ ''/'') then Inr result
       else if length k < length (pre es @ ''/'') then Inl (Panic ''slice bounds out of range'')
       else
         let key = takeWhile (\<lambda>c. c \<noteq> CHR ''/'') (drop (length (pre es @ ''/'')) k)
         in if key \<in> set (keys result) then Inr result
            else (case expand fm (take (length (pre es @ ''/'') + length key) k) of
                    Inl e \<Rightarrow> Inl e
                  | Inr v \<Rightarrow> Inr (AList.update key v result)))"
  have b: "body kv r = (case next_elem es kv of None \<Rightarrow> Inr r
      | Some x \<Rightarrow> if x \<in> set (keys r) then Inr r
          else (case expand fm (pre (es @ [x])) of Inl e \<Rightarrow> Inl e | Inr v \<Rightarrow> Inr (AList.update x v r)))"
    if "kv \<in> set fm" for kv r
    using expandMap_body [OF assms(1) _ assms(2), of "fst kv" "snd kv" r] that
    by (cases kv) (simp only: body_def prod.case fst_conv snd_conv)
  have g: "\<exists>v. expand fm (pre (es @ [x])) = Inr v" if "\<exists>kv\<in>set fm. next_elem es kv = Some x" for x
    using IH [OF that] by blast
  obtain r where r: "foldM body fm [] = Inr r"
    "\<And>x. map_of r x = (if \<exists>kv\<in>set fm. next_elem es kv = Some x
       then (case expand fm (pre (es @ [x])) of Inr v \<Rightarrow> Some v | Inl _ \<Rightarrow> None) else None)"
    using foldM_collect [of fm "next_elem es" "\<lambda>x. expand fm (pre (es @ [x]))" body "[]", OF g b] by auto
  have "expandMap fm (pre es @ ''/'') = Inr r" using r(1) by (simp add: expandMap.simps body_def)
  moreover have "expands fm es (VMap r)"
    unfolding expands_def
  proof (intro allI impI)
    fix ks
    assume ks: "\<forall>e\<in>set ks. seg e"
    show "val_leaf ks (VMap r) = (if shadowed fm es ks then None else map_of fm (pre (es @ ks)))"
    proof (cases ks)
      case (Cons x ys)
      show ?thesis
      proof (cases "\<exists>kv\<in>set fm. next_elem es kv = Some x")
        case True
        from IH [OF this] obtain v where v: "expand fm (pre (es @ [x])) = Inr v" "expands fm (es @ [x]) v" by blast
        then have "map_of r x = Some v" using r(2) [of x] True by simp
        with Cons v(2) ks show ?thesis by (simp add: expands_def shadowed_Cons [OF assms(3)])
      next
        case False
        have "pre (es @ ks) \<notin> set (keys fm)"
        proof
          assume "pre (es @ ks) \<in> set (keys fm)"
          then obtain w where w: "(pre (es @ ks), w) \<in> set fm" by auto
          have "next_elem es (pre (es @ ks), w) = Some x"
            unfolding next_elem_below [OF assms(1) w assms(2)]
            using segs_pre [of "es @ ks"] ks assms(2) Cons by auto
          with False w show False by blast
        qed
        then have "map_of fm (pre (es @ ks)) = None" by (simp add: map_of_eq_None_iff)
        moreover have "map_of r x = None" using r(2) [of x] False by simp
        ultimately show ?thesis using Cons by simp
      qed
    qed (use assms(3) in simp)
  qed
  ultimately show ?thesis by blast
qed

lemma expand_leaf:
  assumes "map_of fm (pre es) = Some x"
  shows "expand fm (pre es) = Inr (VStr x) \<and> expands fm es (VStr x)"
proof -
  have "shadowed fm es ks" if "ks \<noteq> []" for ks
    using that assms unfolding shadowed_def by (intro exI [of _ "[]"]) (simp add: strict_prefix_def)
  moreover have "ks \<noteq> [] \<Longrightarrow> val_leaf ks (VStr x) = None" for ks by (cases ks) simp_all
  ultimately have "expands fm es (VStr x)"
    using assms unfolding expands_def by (metis append_Nil2 shadowed_Nil val_leaf.simps(1))
  then show ?thesis using assms by (simp add: expand.simps [of fm "pre es"])
qed

lemma expand_expands:
  assumes "path_keys fm"
  shows "\<forall>e\<in>set es. seg e \<Longrightarrow> es \<noteq> [] \<Longrightarrow> length (pre es) \<le> max_len fm \<Longrightarrow>
    \<exists>v. expand fm (pre es) = Inr v \<and> expands fm es v"
proof (induction es rule: measure_induct_rule [of "\<lambda>es. max_len fm - length (pre es)"])
  case (less es)
  show ?case
  proof (cases "map_of fm (pre es)")
    case (Some x)
    then show ?thesis using expand_leaf by blast
  next
    case None
    have "\<exists>v. expand fm (pre (es @ [x])) = Inr v \<and> expands fm (es @ [x]) v"
      if x: "\<exists>kv\<in>set fm. next_elem es kv = Some x" for x
    proof -
      from x obtain kv ys where kv: "kv \<in> set fm" "fst kv = pre (es @ x # ys)" "seg x"
        using next_elem_below [OF assms _ less.prems(1)] by blast
      have "length (fst kv) \<le> max_len fm" using max_len_ge [of "fst kv" "snd kv" fm] kv(1) by simp
      then have "length (pre (es @ [x])) \<le> max_len fm" using kv(2) by (simp add: pre_append pre_Cons)
      moreover have "length (pre es) < length (pre (es @ [x]))" by (simp add: pre_snoc)
      ultimately show ?thesis using less.IH [of "es @ [x]"] less.prems(1) kv(3) by auto
    qed
    from expandMap_expands [OF assms less.prems(1) None this] obtain r
      where "expandMap fm (pre es @ ''/'') = Inr r" "expands fm es (VMap r)" by blast
    with None show ?thesis by (intro exI [of _ "VMap r"]) (simp add: expand.simps [of fm "pre es"])
  qed
qed

lemma Expand_expands:
  assumes "path_keys fm" and "path_elems p = []"
  shows "\<exists>r. Expand fm p = Inr r \<and> expands fm [] (VMap r)"
proof -
  have "map_of fm (pre []) = None"
    using assms(1) rooted_pre by (auto simp: path_keys_def map_of_eq_None_iff) (metis imageI fst_conv)
  moreover have "\<exists>v. expand fm (pre ([] @ [x])) = Inr v \<and> expands fm ([] @ [x]) v"
    if x: "\<exists>kv\<in>set fm. next_elem [] kv = Some x" for x
  proof -
    from x obtain kv ys where kv: "kv \<in> set fm" "fst kv = pre ([] @ x # ys)" "seg x"
      using next_elem_below [OF assms(1), of _ "[]"] by (auto 0 3)
    have "length (fst kv) \<le> max_len fm" using max_len_ge [of "fst kv" "snd kv" fm] kv(1) by simp
    then have "length (pre [x]) \<le> max_len fm" using kv(2) by (simp add: pre_Cons)
    then show ?thesis using expand_expands [OF assms(1), of "[x]"] kv(3) by simp
  qed
  ultimately obtain r where "expandMap fm ''/'' = Inr r" "expands fm [] (VMap r)"
    using expandMap_expands [OF assms(1), of "[]"] by auto
  moreover have "path_Clean (path_Join [''/'', p]) = ''/''"
    using assms(2) path_Clean_abs_path [of "[]"] by (simp add: path_Join_root)
  ultimately show ?thesis by (simp add: Expand_def Let_def)
qed


text \<open>
  Expanding below any path, for a flat map without a key above another: exactly the keys strictly
  below the path.
\<close>

lemma expandMap_none_below:
  assumes "path_keys fm" and "\<forall>e\<in>set es. seg e" and "\<forall>kv\<in>set fm. next_elem es kv = None"
  shows "expandMap fm (pre es @ ''/'') = Inr []"
proof -
  have "foldM b fm [] = Inr []" if "\<forall>kv\<in>set fm. \<forall>r. b kv r = Inr r" for b
    using that by (induction fm) auto
  moreover have "\<forall>kv\<in>set fm. \<forall>r. (case kv of (k, _) \<Rightarrow> \<lambda>result.
       if pre es @ ''/'' \<noteq> ''/'' \<and> \<not> strings_HasPrefix k (pre es @ ''/'') then Inr result
       else if length k < length (pre es @ ''/'') then Inl (Panic ''slice bounds out of range'')
       else let key = takeWhile (\<lambda>c. c \<noteq> CHR ''/'') (drop (length (pre es @ ''/'')) k)
         in if key \<in> set (keys result) then Inr result
            else (case expand fm (take (length (pre es @ ''/'') + length key) k) of
                    Inl e \<Rightarrow> Inl e | Inr v \<Rightarrow> Inr (AList.update key v result))) r = Inr r"
    using expandMap_body [OF assms(1) _ assms(2)] assms(3) by (auto split: prod.splits simp only: prod.case) simp
  ultimately show ?thesis by (simp add: expandMap.simps)
qed

lemma Expand_at:
  assumes "path_keys fm" and "prefix_free fm"
  shows "\<exists>r. Expand fm p = Inr r \<and>
    (\<forall>ks. ks \<noteq> [] \<longrightarrow> (\<forall>e\<in>set ks. seg e) \<longrightarrow> val_leaf ks (VMap r) = map_of fm (pre (path_elems p @ ks)))"
proof -
  let ?es = "path_elems p"
  have s: "\<forall>e\<in>set ?es. seg e" by auto
  have l: "?es \<noteq> [] \<Longrightarrow> last (abs_path ?es) \<noteq> CHR ''/''"
  proof -
    assume "?es \<noteq> []"
    then obtain ds n where n: "?es = ds @ [n]" by (metis append_butlast_last_id)
    then have "seg n" using s by simp
    then have "last n \<noteq> CHR ''/''" "n \<noteq> []" using last_in_set by (force simp: seg_def)+
    then show ?thesis using n by (cases "ds = []") (simp_all add: abs_path_def strings_Join_append)
  qed
  have E: "Expand fm p = expandMap fm (pre ?es @ ''/'')"
    using l pre_abs_path [of ?es] path_Clean_abs_path [of ?es]
    by (cases "?es = []") (simp_all add: Expand_def Let_def path_Join_root)
  show ?thesis
  proof (cases "map_of fm (pre ?es)")
    case None
    have "\<exists>v. expand fm (pre (?es @ [x])) = Inr v \<and> expands fm (?es @ [x]) v"
      if x: "\<exists>kv\<in>set fm. next_elem ?es kv = Some x" for x
    proof -
      from x obtain kv ys where kv: "kv \<in> set fm" "fst kv = pre (?es @ x # ys)" "seg x"
        using next_elem_below [OF assms(1) _ s] by blast
      have "length (fst kv) \<le> max_len fm" using max_len_ge [of "fst kv" "snd kv" fm] kv(1) by simp
      then have "length (pre (?es @ [x])) \<le> max_len fm" using kv(2) by (simp add: pre_append pre_Cons)
      then show ?thesis using expand_expands [OF assms(1), of "?es @ [x]"] kv(3) s by auto
    qed
    from expandMap_expands [OF assms(1) s None this] obtain r
      where r: "expandMap fm (pre ?es @ ''/'') = Inr r" "expands fm ?es (VMap r)" by blast
    have "val_leaf ks (VMap r) = map_of fm (pre (?es @ ks))" if ks: "\<forall>e\<in>set ks. seg e" for ks
    proof -
      have "\<forall>e\<in>set (?es @ ks). seg e" using s ks by auto
      then show ?thesis using r(2) ks shadowed_prefix_free [OF assms(2), of ?es ks] unfolding expands_def by metis
    qed
    with r(1) E show ?thesis by auto
  next
    case (Some w)
    have none: "map_of fm (pre (?es @ ks)) = None" if "ks \<noteq> []" "\<forall>e\<in>set ks. seg e" for ks
    proof (rule ccontr)
      assume "map_of fm (pre (?es @ ks)) \<noteq> None"
      then have "?es = ?es @ ks"
        using assms(2) Some s that(2) unfolding prefix_free_def
        by (metis UnE option.distinct(1) prefixI set_append)
      with that(1) show False by simp
    qed
    have "next_elem ?es kv = None" if kv: "kv \<in> set fm" for kv
    proof (rule ccontr)
      assume "next_elem ?es kv \<noteq> None"
      then obtain x ys where x: "fst kv = pre (?es @ x # ys)" "\<forall>e\<in>set ys. seg e" "seg x"
        using next_elem_below [OF assms(1) kv s] by auto
      then have "pre (?es @ x # ys) \<notin> set (keys fm)" using none [of "x # ys"] by (simp add: map_of_eq_None_iff)
      with x(1) kv show False by (metis image_eqI list.set_map)
    qed
    then have "expandMap fm (pre ?es @ ''/'') = Inr []" using expandMap_none_below [OF assms(1) s] by blast
    with E none show ?thesis by auto
  qed
qed

section \<open>Claims\<close>

lemma pre_keys_abs: "path_keys fm \<Longrightarrow> k \<in> set (keys fm) \<Longrightarrow> \<exists>q. q \<noteq> [] \<and> (\<forall>e\<in>set q. canon e) \<and> k = abs_path q"
  unfolding path_keys_def by (metis pre_abs_path)

definition sample_value :: goval where
  "sample_value = VMap [(''nodes'', VSlice [VStr ''a'', VMap [(''up'', VBool True)]]), (''n'', VInt (- 12))]"

lemma sample_flat:
  "flat_at [''nodes'', ''1'', ''up''] sample_value = Some ''true''" "flat_at [''nodes'', ''0''] sample_value = Some ''a''"
  by code_simp+

text \<open>For a map whose keys are canonical path elements, distinct in each map, \<^verbatim>\<open>Flatten\<close> returns a flat map with one entry
  per scalar: following a path through nested maps and slices (elements of a slice stand under
  their printed index) finds a scalar exactly when the flat map has the path as a key, with the
  printed scalar as its value; every key is such a path.\<close>

theorem Flatten_spec:
  assumes "keys_ok (VMap m)"
  shows "\<exists>fm. Flatten (VMap m) = Inr fm \<and> distinct (keys fm)
    \<and> (\<forall>q. q \<noteq> [] \<longrightarrow> (\<forall>e\<in>set q. seg e) \<longrightarrow> map_of fm (abs_path q) = flat_at q (VMap m))
    \<and> (\<forall>k\<in>set (keys fm). \<exists>q. q \<noteq> [] \<and> (\<forall>e\<in>set q. canon e) \<and> k = abs_path q)"
proof (intro exI [of _ "Flatten_entries m"] conjI allI impI ballI)
  show "Flatten (VMap m) = Inr (Flatten_entries m)" by (simp add: Flatten_def)
  show "distinct (keys (Flatten_entries m))" using path_keys_Flatten [OF assms] by (simp add: path_keys_def)
next
  fix q
  assume "q \<noteq> []" "\<forall>e\<in>set q. seg e"
  then show "map_of (Flatten_entries m) (abs_path q) = flat_at q (VMap m)" by (intro Flatten_at [OF assms])
next
  fix k
  assume "k \<in> set (keys (Flatten_entries m))"
  then have "\<exists>q. q \<noteq> [] \<and> (\<forall>e\<in>set q. canon e) \<and> k = abs_path q"
    by (rule pre_keys_abs [OF path_keys_Flatten [OF assms]])
  then show "\<exists>q. q \<noteq> [] \<and> (\<forall>e\<in>set q. canon e) \<and> k = abs_path q" .
qed

theorem Flatten_spec_witness:
  "\<exists>fm. Flatten sample_value = Inr fm \<and> map_of fm ''/nodes/1/up'' = Some ''true''"
proof -
  have "keys_ok sample_value" by (simp add: sample_value_def canon_def seg_def)
  then obtain fm where fm: "Flatten sample_value = Inr fm"
    "\<And>q. q \<noteq> [] \<Longrightarrow> \<forall>e\<in>set q. seg e \<Longrightarrow> map_of fm (abs_path q) = flat_at q sample_value"
    unfolding sample_value_def using Flatten_spec by blast
  have "map_of fm ''/nodes/1/up'' = Some ''true''"
    using fm(2) [of "[''nodes'', ''1'', ''up'']"] sample_flat(1) by (simp add: abs_path_def seg_def)
  with fm(1) show ?thesis by blast
qed

text \<open>C25: \<^verbatim>\<open>Expand\<close> undoes \<^verbatim>\<open>Flatten\<close>: it returns without a panic, and the nested map it builds has a string at a path exactly
  when the flattened value had a scalar there, namely the printed scalar.\<close>

theorem Expand_Flatten:
  assumes "keys_ok (VMap m)"
  shows "\<exists>fm r. Flatten (VMap m) = Inr fm \<and> Expand fm ''/'' = Inr r
    \<and> (\<forall>ks. (\<forall>e\<in>set ks. seg e) \<longrightarrow> val_leaf ks (VMap r) = flat_at ks (VMap m))"
proof -
  obtain r where r: "Expand (Flatten_entries m) ''/'' = Inr r" "expands (Flatten_entries m) [] (VMap r)"
    using Expand_expands [OF path_keys_Flatten [OF assms], of "''/''"] by auto
  have "val_leaf ks (VMap r) = flat_at ks (VMap m)" if "\<forall>e\<in>set ks. seg e" for ks
  proof (cases "ks = []")
    case False
    then show ?thesis
      using r(2) that Flatten_at [OF assms that] shadowed_prefix_free [OF prefix_free_Flatten [OF assms], of "[]" ks]
      by (auto simp: expands_def pre_abs_path)
  qed simp
  with r(1) show ?thesis by (simp add: Flatten_def)
qed

theorem Expand_Flatten_witness:
  "\<exists>fm r. Flatten sample_value = Inr fm \<and> Expand fm ''/'' = Inr r \<and> val_leaf [''nodes'', ''0''] (VMap r) = Some ''a''"
proof -
  have "keys_ok sample_value" by (simp add: sample_value_def canon_def seg_def)
  then obtain fm r where fm: "Flatten sample_value = Inr fm" "Expand fm ''/'' = Inr r"
    "\<And>ks. \<forall>e\<in>set ks. seg e \<Longrightarrow> val_leaf ks (VMap r) = flat_at ks sample_value"
    unfolding sample_value_def using Expand_Flatten by blast
  have "val_leaf [''nodes'', ''0''] (VMap r) = Some ''a''"
    using fm(3) [of "[''nodes'', ''0'']"] sample_flat(2) by (simp add: seg_def)
  with fm show ?thesis by blast
qed

lemma strconv_Atoi_show_int:
  "strconv_Atoi (show_int i) = (if - (2 ^ 63) \<le> i \<and> i < 2 ^ 63 then Some i else None)"
proof (cases "i < 0")
  case True
  then show ?thesis using show_nat_val [of "nat (- i)"] by (auto simp: show_int_def strconv_Atoi_def)
next
  case False
  let ?w = "show_nat (nat i)"
  have v: "digits_val ?w = i" "?w \<noteq> ''''" "list_all is_digit ?w" using show_nat_val [of "nat i"] False by auto
  then have "hd ?w \<noteq> CHR ''-''" "hd ?w \<noteq> CHR ''+''" using digit_plain [of ?w] by (metis hd_in_set)+
  with v False show ?thesis by (auto simp: show_int_def strconv_Atoi_def Let_def)
qed

text \<open>\<^verbatim>\<open>ParseInt\<close> reads back every printed 64-bit integer, and returns the default on a printed integer outside that
  range.\<close>

theorem ParseInt_show_int:
  "ParseInt (show_int i) d = (if - (2 ^ 63) \<le> i \<and> i < 2 ^ 63 then i else d)"
  using show_nat_val [of "nat i"] by (auto simp: ParseInt_def strconv_Atoi_show_int) (auto simp: show_int_def split: if_splits)

end
