(* ===== verification/Aggregate.thy ===== *)
theory Aggregate
  imports Store "HOL-Library.Multiset"
begin

text \<open>
  The aggregate watcher of \<^verbatim>\<open>store/watcher.go\<close>: one goroutine per sub-watcher forwards the events of its
  channel, with the key of the sub-watcher put in front of the path, to one channel that the client
  reads.  The sub-watchers are entries of the watcher table of the store.
\<close>

section \<open>State\<close>

text \<open>A goroutine waits in its \<^verbatim>\<open>select\<close>, is blocked in the send of an event, or has called \<^verbatim>\<open>waitGroup.Done\<close>.\<close>

datatype goroutine = Waiting | Sending event | Exited

record aggregateWatcher =
  aWatchers :: "(string \<times> nat \<times> goroutine) list"
  aChan :: "event list"
  aClosed :: bool

definition NewAggregateWatcher :: "(string \<times> nat) list \<Rightarrow> aggregateWatcher" where
  "NewAggregateWatcher ws = \<lparr>aWatchers = map (\<lambda>(k, w). (k, w, Waiting)) ws, aChan = [], aClosed = False\<rparr>"

text \<open>The capacity of the channel: \<^verbatim>\<open>len(watchers)*50\<close>.\<close>

definition agg_cap :: "aggregateWatcher \<Rightarrow> nat" where
  "agg_cap a = length (aWatchers a) * 50"

section \<open>The goroutines\<close>

definition agg_event :: "string \<Rightarrow> event \<Rightarrow> event" where
  "agg_event pathPrefix e = newEvent (Action e) (path_Join [pathPrefix, Path e]) (EvValue e)"

definition set_go :: "nat \<Rightarrow> goroutine \<Rightarrow> aggregateWatcher \<Rightarrow> aggregateWatcher" where
  "set_go i g a = a\<lparr>aWatchers := (aWatchers a)[i := (case aWatchers a ! i of (k, w, _) \<Rightarrow> (k, w, g))]\<rparr>"

text \<open>The next action of goroutine \<open>i\<close>; \<open>None\<close> when it is blocked or gone.\<close>

definition agg_go :: "nat \<Rightarrow> aggregateWatcher \<times> store \<Rightarrow> (aggregateWatcher \<times> store) option" where
  "agg_go i = (\<lambda>(a, s).
     if i < length (aWatchers a)
     then (case aWatchers a ! i of
             (k, w, Waiting) \<Rightarrow>
               (case watcher_recv w s of
                  Some (e, s') \<Rightarrow> Some (set_go i (Sending (agg_event k e)) a, s')
                | None \<Rightarrow>
                    if w < length (wtab (nodes s)) \<and> closed (wtab (nodes s) ! w)
                    then Some (set_go i Exited a, s) else None)
           | (k, w, Sending e) \<Rightarrow>
               if length (aChan a) < agg_cap a
               then Some (set_go i Waiting (a\<lparr>aChan := aChan a @ [e]\<rparr>), s) else None
           | (k, w, Exited) \<Rightarrow> None)
     else None)"

text \<open>A receive by the client from \<^verbatim>\<open>EventChan()\<close>.\<close>

definition agg_recv :: "aggregateWatcher \<Rightarrow> (event \<times> aggregateWatcher) option" where
  "agg_recv a = (case aChan a of [] \<Rightarrow> None | e # es \<Rightarrow> Some (e, a\<lparr>aChan := es\<rparr>))"

section \<open>Remove\<close>

text \<open>The sub-watchers, as positions in the watcher table.\<close>

definition agg_ids :: "aggregateWatcher \<Rightarrow> nat list" where
  "agg_ids a = map (\<lambda>(k, w, g). w) (aWatchers a)"

text \<open>\<^verbatim>\<open>Remove\<close> first removes the sub-watchers, in the order of the iteration over the map.\<close>

fun remove_all :: "nat list \<Rightarrow> store \<Rightarrow> (panic + unit) \<times> store" where
  "remove_all [] s = (Inr (), s)"
| "remove_all (w # ws) s =
     (case watcher_Remove w s of
        (Inl p, s1) \<Rightarrow> (Inl p, s1)
      | (Inr _, s1) \<Rightarrow> remove_all ws s1)"

text \<open>Then it waits until every goroutine is gone, and closes the channel; \<open>None\<close> while it waits.\<close>

definition all_exited :: "aggregateWatcher \<Rightarrow> bool" where
  "all_exited a \<longleftrightarrow> (\<forall>(k, w, g)\<in>set (aWatchers a). g = Exited)"

definition agg_close :: "aggregateWatcher \<Rightarrow> aggregateWatcher option" where
  "agg_close a = (if all_exited a then Some (a\<lparr>aClosed := True\<rparr>) else None)"

text \<open>
  The goroutines while nobody reads.  The weight of a state bounds the number of their actions: an
  event is received and sent, and a goroutine exits once.
\<close>

fun go_weight :: "goroutine \<Rightarrow> nat" where
  "go_weight Waiting = 1" | "go_weight (Sending e) = 2" | "go_weight Exited = 0"

definition agg_weight :: "aggregateWatcher \<times> store \<Rightarrow> nat" where
  "agg_weight = (\<lambda>(a, s). \<Sum>(k, w, g)\<leftarrow>aWatchers a. 2 * length (eventChan (wtab (nodes s) ! w)) + go_weight g)"

text \<open>The first goroutine that can act.\<close>

definition agg_next :: "aggregateWatcher \<times> store \<Rightarrow> (aggregateWatcher \<times> store) option" where
  "agg_next st =
     (case filter (\<lambda>i. agg_go i st \<noteq> None) [0..<length (aWatchers (fst st))] of [] \<Rightarrow> None | i # _ \<Rightarrow> agg_go i st)"

lemma sum_list_update_less:
  fixes f g :: "'a \<Rightarrow> nat"
  assumes "i < length xs" and "\<And>x. x \<in> set xs \<Longrightarrow> f x \<le> g x" and "f y < g (xs ! i)"
  shows "sum_list (map f (xs[i := y])) < sum_list (map g xs)"
proof -
  have "sum_list (map f (xs[i := y])) = sum_list (map f (take i xs)) + f y + sum_list (map f (drop (Suc i) xs))"
    using assms(1) by (simp add: upd_conv_take_nth_drop)
  also have "\<dots> < sum_list (map g (take i xs)) + g (xs ! i) + sum_list (map g (drop (Suc i) xs))"
  proof -
    have "sum_list (map f (take i xs)) \<le> sum_list (map g (take i xs))"
      by (rule sum_list_mono) (use assms(2) in_set_takeD in fast)
    moreover have "sum_list (map f (drop (Suc i) xs)) \<le> sum_list (map g (drop (Suc i) xs))"
      by (rule sum_list_mono) (use assms(2) in_set_dropD in fast)
    ultimately show ?thesis using assms(3) by linarith
  qed
  also have "\<dots> = sum_list (map g (take i xs @ xs ! i # drop (Suc i) xs))" by simp
  also have "\<dots> = sum_list (map g xs)" using id_take_nth_drop [OF assms(1)] by simp
  finally show ?thesis .
qed

lemma agg_go_cases:
  assumes "agg_go i (a, s) = Some (a', s')"
  obtains (recv) k w e es where "i < length (aWatchers a)" "aWatchers a ! i = (k, w, Waiting)" "w < length (wtab (nodes s))"
      "eventChan (wtab (nodes s) ! w) = e # es"
      "a' = a\<lparr>aWatchers := (aWatchers a)[i := (k, w, Sending (agg_event k e))]\<rparr>"
      "s' = s\<lparr>nodes := (nodes s)\<lparr>wtab := (wtab (nodes s))[w := (wtab (nodes s) ! w)\<lparr>eventChan := es\<rparr>]\<rparr>\<rparr>"
  | (send) k w e where "i < length (aWatchers a)" "aWatchers a ! i = (k, w, Sending e)" "length (aChan a) < agg_cap a"
      "a' = a\<lparr>aChan := aChan a @ [e], aWatchers := (aWatchers a)[i := (k, w, Waiting)]\<rparr>" "s' = s"
  | (exit) k w where "i < length (aWatchers a)" "aWatchers a ! i = (k, w, Waiting)" "w < length (wtab (nodes s))"
      "closed (wtab (nodes s) ! w)" "eventChan (wtab (nodes s) ! w) = []"
      "a' = a\<lparr>aWatchers := (aWatchers a)[i := (k, w, Exited)]\<rparr>" "s' = s"
proof -
  have i: "i < length (aWatchers a)" using assms by (simp add: agg_go_def split: if_splits)
  obtain k w g where w: "aWatchers a ! i = (k, w, g)" by (metis prod_cases3)
  show ?thesis
  proof (cases g)
    case (Sending e)
    then show ?thesis using assms i w by (intro send) (auto simp: agg_go_def set_go_def split: if_splits)
  next
    case Exited
    then show ?thesis using assms i w by (simp add: agg_go_def)
  next
    case Waiting
    show ?thesis
    proof (cases "watcher_recv w s")
      case None
      then have "\<not> w < length (wtab (nodes s)) \<or> eventChan (wtab (nodes s) ! w) = []"
        by (auto simp: watcher_recv_def chan_recv_def split: if_splits list.splits)
      then show ?thesis using None Waiting assms i w by (intro exit) (auto simp: agg_go_def set_go_def split: if_splits)
    next
      case (Some p)
      then obtain e es where "w < length (wtab (nodes s))" "eventChan (wtab (nodes s) ! w) = e # es"
        by (auto simp: watcher_recv_def chan_recv_def split: if_splits list.splits)
      then show ?thesis using Waiting assms i w
        by (intro recv) (auto simp: agg_go_def set_go_def watcher_recv_def chan_recv_def)
    qed
  qed
qed

lemma agg_weight_go:
  assumes "agg_go i st = Some st'"
  shows "agg_weight st' < agg_weight st"
proof -
  obtain a s a' s' where st: "st = (a, s)" "st' = (a', s')" by (cases st; cases st')
  have go: "agg_go i (a, s) = Some (a', s')" using assms st by simp
  then show ?thesis
    unfolding st agg_weight_def prod.case
  proof (cases rule: agg_go_cases)
    case (recv k w e es)
    have "length (eventChan (wtab (nodes s') ! v)) \<le> length (eventChan (wtab (nodes s) ! v))" for v
      using recv by (cases "v = w") simp_all
    then show "(\<Sum>(k, w, g)\<leftarrow>aWatchers a'. 2 * length (eventChan (wtab (nodes s') ! w)) + go_weight g)
        < (\<Sum>(k, w, g)\<leftarrow>aWatchers a. 2 * length (eventChan (wtab (nodes s) ! w)) + go_weight g)"
      using recv by (auto intro!: sum_list_update_less)
  qed (auto intro!: sum_list_update_less)
qed

function agg_settle :: "aggregateWatcher \<times> store \<Rightarrow> aggregateWatcher \<times> store" where
  "agg_settle st = (case agg_next st of None \<Rightarrow> st | Some st' \<Rightarrow> agg_settle st')"
  by pat_completeness auto

lemma agg_next_Some: "agg_next st = Some st' \<Longrightarrow> \<exists>i. agg_go i st = Some st'"
  by (auto simp: agg_next_def split: list.splits)

termination agg_settle
  by (relation "measure agg_weight") (auto dest!: agg_next_Some agg_weight_go)

declare agg_settle.simps [simp del]

text \<open>
  \<^verbatim>\<open>Remove\<close> on the aggregate: the sub-watchers, the wait, the closing.  \<open>None\<close> in the second component
  means that the call waits for ever.
\<close>

definition agg_Remove :: "aggregateWatcher \<Rightarrow> store \<Rightarrow> (panic + aggregateWatcher option) \<times> store" where
  "agg_Remove a s =
     (case remove_all (agg_ids a) s of
        (Inl p, s1) \<Rightarrow> (Inl p, s1)
      | (Inr _, s1) \<Rightarrow> (let (a2, s2) = agg_settle (a, s1) in (Inr (agg_close a2), s2)))"

end
