(* ===== verification/Watching.thy ===== *)
theory Watching
  imports MetaRepo TimerPool Flatmap_Props Aggregate
begin

text \<open>
  The waiting requests of \<^verbatim>\<open>metadata/metarepo.go\<close>: \<^verbatim>\<open>Watch\<close>, \<^verbatim>\<open>WatchSelf\<close> and \<^verbatim>\<open>changeToResult\<close>, which collects the
  events of a watcher until 100 ms pass without a new one.
\<close>

section \<open>changeToResult\<close>

text \<open>
  What the \<^verbatim>\<open>select\<close> of one iteration received: an event, the closing of the channel, the tick of the
  timer, or the stop signal.
\<close>

datatype signal = SigEvent event | SigClosed | SigTimer | SigStop

text \<open>\<^verbatim>\<open>fmt.Sprintf("%s|%s", e.Action, e.Value)\<close>.\<close>

definition change_text :: "event \<Rightarrow> string" where
  "change_text e = Action e @ ''|'' @ EvValue e"

text \<open>The timer of the loop; \<open>None\<close> stands for \<^verbatim>\<open>TIMER_NIL\<close>, whose channel is nil.\<close>

definition release_timer :: "nat option \<Rightarrow> TimerPool \<Rightarrow> TimerPool" where
  "release_timer timer tp = (case timer of None \<Rightarrow> tp | Some t \<Rightarrow> ReleaseTimer t tp)"

definition finish_change :: "(string, string) gomap \<Rightarrow> nat option \<Rightarrow> TimerPool \<Rightarrow> (panic + goval) \<times> TimerPool" where
  "finish_change m timer tp = (map_sum id VMap (Expand m ''/''), release_timer timer tp)"

text \<open>
  The loop.  \<open>None\<close> means that the signals are used up and the call still waits.  A tick is received
  after the timer has run out; a nil channel never delivers one.
\<close>

fun change_loop :: "(nat list \<Rightarrow> nat option) \<Rightarrow> signal list \<Rightarrow> (string, string) gomap \<Rightarrow> nat option \<Rightarrow> TimerPool
    \<Rightarrow> ((panic + goval) \<times> TimerPool) option" where
  "change_loop pick [] m timer tp = None"
| "change_loop pick (sig # sigs) m timer tp =
     (case sig of
        SigEvent e \<Rightarrow>
          if Path e = ''/'' then Some (Inr (VStr (change_text e)), tp)
          else (let (t, tp1) = AcquireTimer pick (release_timer timer tp)
                in change_loop pick sigs (AList.update (Path e) (change_text e) m) (Some t) tp1)
      | SigClosed \<Rightarrow> Some (finish_change m timer tp)
      | SigTimer \<Rightarrow>
          (case timer of
             None \<Rightarrow> change_loop pick sigs m timer tp
           | Some t \<Rightarrow>
               (case timer_recv t (tp\<lparr>timers := (timers tp)[t := timer_expire (timers tp ! t)]\<rparr>) of
                  None \<Rightarrow> change_loop pick sigs m timer tp
                | Some tp1 \<Rightarrow> Some (finish_change m timer tp1)))
      | SigStop \<Rightarrow> Some (finish_change [] timer tp))"

text \<open>\<^verbatim>\<open>defer watcher.Remove()\<close> runs when the loop returns, on the store as it is then.\<close>

definition changeToResult :: "(nat list \<Rightarrow> nat option) \<Rightarrow> signal list \<Rightarrow> nat \<Rightarrow> store \<Rightarrow> TimerPool
    \<Rightarrow> ((panic + goval) \<times> ((panic + unit) \<times> store) \<times> TimerPool) option" where
  "changeToResult pick sigs w s tp =
     (case change_loop pick sigs [] None tp of
        None \<Rightarrow> None
      | Some (res, tp') \<Rightarrow> Some (res, watcher_Remove w s, tp'))"

section \<open>Watch\<close>

text \<open>
  The other goroutines act between the registration of the watcher and the return of the call:
  \<open>during\<close> maps the watcher and the store after the registration to the store at the return and to
  the signals received in between.  The result is \<open>None\<close> as long as the call waits.
\<close>

definition repo_Watch :: "(nat list \<Rightarrow> nat option) \<Rightarrow> string \<Rightarrow> (nat \<Rightarrow> store \<Rightarrow> store \<times> signal list) \<Rightarrow>
    MetadataRepo \<Rightarrow> TimerPool \<Rightarrow> ((panic + goval) \<times> MetadataRepo \<times> TimerPool) option" where
  "repo_Watch pick nodePath during r tp =
     (case store_Watch (path_Join [''/'', nodePath]) DEFAULT_WATCH_BUF_LEN (rData r) of
        (Inl p, d) \<Rightarrow> Some (Inl p, r\<lparr>rData := d\<rparr>, tp)
      | (Inr w, d) \<Rightarrow>
          (let (d1, sigs) = during w d
           in case changeToResult pick sigs w d1 tp of
                None \<Rightarrow> None
              | Some (res, (rm, d2), tp') \<Rightarrow>
                  Some (case rm of Inl p \<Rightarrow> Inl p | Inr _ \<Rightarrow> res, r\<lparr>rData := d2\<rparr>, tp')))"

text \<open>
  \<^verbatim>\<open>WatchSelf\<close> up to the call of \<^verbatim>\<open>changeToResult\<close>: the watcher on the mapping, and the watchers on the linked
  data paths with the key each is reported under; a mapping that is a plain link has one watcher
  and no key.  A panic runs the deferred removal of the mapping watcher.
\<close>

datatype self_watch = NoMapping | WatchLink nat nat | WatchLinks nat "(string \<times> nat) list"

fun watch_links :: "(string \<times> string) list \<Rightarrow> store \<Rightarrow> (panic + (string \<times> nat) list) \<times> store" where
  "watch_links [] d = (Inr [], d)"
| "watch_links ((k, v) # kvs) d =
     (case store_Watch v DEFAULT_WATCH_BUF_LEN d of
        (Inl p, d1) \<Rightarrow> (Inl p, d1)
      | (Inr w, d1) \<Rightarrow>
          (case watch_links kvs d1 of
             (Inl p, d2) \<Rightarrow> (Inl p, d2)
           | (Inr ws, d2) \<Rightarrow> (Inr ((k, w) # ws), d2)))"

definition WatchSelf_begin :: "string \<Rightarrow> string \<Rightarrow> MetadataRepo \<Rightarrow> (panic + self_watch) \<times> MetadataRepo" where
  "WatchSelf_begin clientIP nodePath0 r =
     (let nodePath = path_Join [clientIP, ''/'', nodePath0]; mappingData = GetMapping r nodePath
      in if mappingData = VNil then (Inr NoMapping, r)
         else case store_Watch nodePath DEFAULT_WATCH_BUF_LEN (rMapping r) of
           (Inl p, mp) \<Rightarrow> (Inl p, r\<lparr>rMapping := mp\<rparr>)
         | (Inr mw, mp) \<Rightarrow>
             (case mappingData of
                VMap mapping \<Rightarrow>
                  (case watch_links (Flatten_entries mapping) (rData r) of
                     (Inl p, d) \<Rightarrow> (Inl p, r\<lparr>rMapping := snd (watcher_Remove mw mp), rData := d\<rparr>)
                   | (Inr ws, d) \<Rightarrow> (Inr (WatchLinks mw ws), r\<lparr>rMapping := mp, rData := d\<rparr>))
              | _ \<Rightarrow>
                  (case store_Watch (sprint_v mappingData) DEFAULT_WATCH_BUF_LEN (rData r) of
                     (Inl p, d) \<Rightarrow> (Inl p, r\<lparr>rMapping := snd (watcher_Remove mw mp), rData := d\<rparr>)
                   | (Inr w, d) \<Rightarrow> (Inr (WatchLink mw w), r\<lparr>rMapping := mp, rData := d\<rparr>))))"

text \<open>The signal that stops \<^verbatim>\<open>WatchSelf\<close>: an event on the mapping, or the end of the request.\<close>

definition self_stop :: "nat \<Rightarrow> bool \<Rightarrow> store \<Rightarrow> bool" where
  "self_stop mw ctxDone mp \<longleftrightarrow> ctxDone \<or> watcher_recv mw mp \<noteq> None"

text \<open>
  \<^verbatim>\<open>WatchSelf\<close> as a whole.  As for \<^verbatim>\<open>Watch\<close>, \<open>during\<close> stands for what happens while the call waits: it maps the watchers and
  the repository to the repository at the return of the loop, the aggregate watcher at that moment (unused when there
  is one link only) and the signals received; a signal \<open>SigStop\<close> may come when \<open>self_stop\<close> holds.  The deferred calls then
  remove the data watchers, and after them the mapping watcher.  The result is \<open>None\<close> as long as the call waits, also in the
  \<^verbatim>\<open>Remove\<close> of the aggregate watcher.
\<close>

definition remove_mapping_watcher :: "nat \<Rightarrow> panic + goval \<Rightarrow> MetadataRepo \<Rightarrow> TimerPool \<Rightarrow> ((panic + goval) \<times> MetadataRepo \<times> TimerPool) option" where
  "remove_mapping_watcher mw res r tp =
     (case watcher_Remove mw (rMapping r) of
        (Inl p, mp) \<Rightarrow> Some (Inl p, r\<lparr>rMapping := mp\<rparr>, tp)
      | (Inr _, mp) \<Rightarrow> Some (res, r\<lparr>rMapping := mp\<rparr>, tp))"

definition repo_WatchSelf :: "(nat list \<Rightarrow> nat option) \<Rightarrow> string \<Rightarrow> string \<Rightarrow>
    (self_watch \<Rightarrow> MetadataRepo \<Rightarrow> MetadataRepo \<times> aggregateWatcher \<times> signal list) \<Rightarrow>
    MetadataRepo \<Rightarrow> TimerPool \<Rightarrow> ((panic + goval) \<times> MetadataRepo \<times> TimerPool) option" where
  "repo_WatchSelf pick clientIP nodePath during r tp =
     (case WatchSelf_begin clientIP nodePath r of
        (Inl p, r1) \<Rightarrow> Some (Inl p, r1, tp)
      | (Inr NoMapping, r1) \<Rightarrow> Some (Inr VNil, r1, tp)
      | (Inr (WatchLink mw w), r1) \<Rightarrow>
          (let (r2, _, sigs) = during (WatchLink mw w) r1
           in case changeToResult pick sigs w (rData r2) tp of
                None \<Rightarrow> None
              | Some (res, (rm, d), tp') \<Rightarrow>
                  remove_mapping_watcher mw (case rm of Inl p \<Rightarrow> Inl p | Inr _ \<Rightarrow> res) (r2\<lparr>rData := d\<rparr>) tp')
      | (Inr (WatchLinks mw ws), r1) \<Rightarrow>
          (let (r2, a, sigs) = during (WatchLinks mw ws) r1
           in case change_loop pick sigs [] None tp of
                None \<Rightarrow> None
              | Some (res, tp') \<Rightarrow>
                  (case agg_Remove a (rData r2) of
                     (Inl p, d) \<Rightarrow> remove_mapping_watcher mw (Inl p) (r2\<lparr>rData := d\<rparr>) tp'
                   | (Inr None, d) \<Rightarrow> None
                   | (Inr (Some _), d) \<Rightarrow> remove_mapping_watcher mw res (r2\<lparr>rData := d\<rparr>) tp')))"

end
