(* ===== verification/Json.thy ===== *)
theory Json
  imports Flatmap_Props Access
begin

text \<open>
  The part of \<^verbatim>\<open>encoding/json\<close> the program relies on: the text of a list of access rules
  (\<^verbatim>\<open>MarshalAccessRule\<close>), and the decoder that reads it back (\<^verbatim>\<open>UnmarshalAccessRule\<close>).  A Go string is a
  string of bytes; the encoder replaces every byte that is not part of a well-formed UTF-8 sequence
  by U+FFFD, as the Go encoder does.
\<close>

section \<open>UTF-8\<close>

abbreviation code :: "char \<Rightarrow> nat" where
  "code c \<equiv> of_char c"

abbreviation quote :: char where "quote \<equiv> CHR 0x22"
abbreviation backslash :: char where "backslash \<equiv> CHR 0x5C"

definition between :: "nat \<Rightarrow> nat \<Rightarrow> char \<Rightarrow> bool" where
  "between lo hi c \<longleftrightarrow> lo \<le> code c \<and> code c \<le> hi"

text \<open>The length of the well-formed sequence a string starts with; 0 when there is none.\<close>

fun rune_len :: "string \<Rightarrow> nat" where
  "rune_len [] = 0"
| "rune_len (a # r) =
     (if code a < 128 then 1
      else if between 194 223 a then (if length r \<ge> 1 \<and> between 128 191 (r ! 0) then 2 else 0)
      else if between 224 239 a then
        (if length r \<ge> 2 \<and> between (if code a = 224 then 160 else 128) (if code a = 237 then 159 else 191) (r ! 0)
            \<and> between 128 191 (r ! 1) then 3 else 0)
      else if between 240 244 a then
        (if length r \<ge> 3 \<and> between (if code a = 240 then 144 else 128) (if code a = 244 then 143 else 191) (r ! 0)
            \<and> between 128 191 (r ! 1) \<and> between 128 191 (r ! 2) then 4 else 0)
      else 0)"

declare rune_len.simps [simp del]

definition replacement :: string where
  "replacement = [char_of (239::nat), char_of (191::nat), char_of (189::nat)]"

text \<open>\<^verbatim>\<open>utf8.EncodeRune\<close>.\<close>

definition utf8 :: "nat \<Rightarrow> string" where
  "utf8 x =
     (if x < 128 then [char_of x]
      else if x < 2048 then [char_of (192 + x div 64), char_of (128 + x mod 64)]
      else if x < 65536 then [char_of (224 + x div 4096), char_of (128 + x div 64 mod 64), char_of (128 + x mod 64)]
      else [char_of (240 + x div 262144), char_of (128 + x div 4096 mod 64),
            char_of (128 + x div 64 mod 64), char_of (128 + x mod 64)])"

text \<open>What is left of a string after a trip through JSON.\<close>

function sanitize :: "string \<Rightarrow> string" where
  "sanitize [] = []"
| "sanitize (c # cs) =
     (if rune_len (c # cs) = 0 then replacement @ sanitize cs
      else take (rune_len (c # cs)) (c # cs) @ sanitize (drop (rune_len (c # cs) - 1) cs))"
  by pat_completeness auto
termination by (relation "measure length") auto

section \<open>Strings\<close>

definition hexdigit :: "nat \<Rightarrow> char" where
  "hexdigit d = (if d < 10 then char_of (48 + d) else char_of (87 + d))"

text \<open>The escapes of the encoder, which also escapes the characters of HTML markup.\<close>

definition esc_ascii :: "char \<Rightarrow> string" where
  "esc_ascii c =
     (if c = quote \<or> c = backslash then [backslash, c]
      else if c = CHR 0x0A then [backslash, CHR ''n'']
      else if c = CHR 0x0D then [backslash, CHR ''r'']
      else if c = CHR 0x09 then [backslash, CHR ''t'']
      else if code c < 32 \<or> c = CHR ''<'' \<or> c = CHR ''>'' \<or> c = CHR ''&''
      then [backslash, CHR ''u'', CHR ''0'', CHR ''0'', hexdigit (code c div 16), hexdigit (code c mod 16)]
      else [c])"

definition line_sep :: "string \<Rightarrow> bool" where
  "line_sep s \<longleftrightarrow> take 3 s = utf8 8232 \<or> take 3 s = utf8 8233"

function enc_str :: "string \<Rightarrow> string" where
  "enc_str [] = []"
| "enc_str (c # cs) =
     (if code c < 128 then esc_ascii c @ enc_str cs
      else if rune_len (c # cs) = 0 then backslash # ''ufffd'' @ enc_str cs
      else if line_sep (c # cs)
      then backslash # ''u202'' @ hexdigit (code (cs ! 1) mod 16) # enc_str (drop 2 cs)
      else take (rune_len (c # cs)) (c # cs) @ enc_str (drop (rune_len (c # cs) - 1) cs))"
  by pat_completeness auto
termination by (relation "measure length") auto

definition hexval :: "char \<Rightarrow> nat option" where
  "hexval c =
     (if between 48 57 c then Some (code c - 48)
      else if between 97 102 c then Some (code c - 87)
      else if between 65 70 c then Some (code c - 55) else None)"

text \<open>Four hexadecimal digits and the rest of the input.\<close>

definition hex4 :: "string \<Rightarrow> (nat \<times> string) option" where
  "hex4 s =
     (if length s < 4 then None
      else case (hexval (s ! 0), hexval (s ! 1), hexval (s ! 2), hexval (s ! 3)) of
        (Some a, Some b, Some c, Some d) \<Rightarrow> Some (4096 * a + 256 * b + 16 * c + d, drop 4 s)
      | _ \<Rightarrow> None)"

definition simple_escape :: "char \<Rightarrow> char option" where
  "simple_escape e =
     map_of [(quote, quote), (backslash, backslash), (CHR ''/'', CHR ''/''), (CHR ''b'', CHR 0x08),
       (CHR ''f'', CHR 0x0C), (CHR ''n'', CHR 0x0A), (CHR ''r'', CHR 0x0D), (CHR ''t'', CHR 0x09)] e"

text \<open>A code unit, with the low surrogate that may follow a high one; an unpaired one is replaced.\<close>

definition unit :: "nat \<Rightarrow> string \<Rightarrow> string \<times> string" where
  "unit x r =
     (if x < 55296 \<or> 57343 < x then (utf8 x, r)
      else case (if take 2 r = [backslash, CHR ''u''] then hex4 (drop 2 r) else None) of
        None \<Rightarrow> (replacement, r)
      | Some (y, r') \<Rightarrow>
          if x < 56320 \<and> 56320 \<le> y \<and> y \<le> 57343 then (utf8 (65536 + (x - 55296) * 1024 + (y - 56320)), r')
          else (replacement, r))"

lemma hex4_length: "hex4 s = Some (x, r) \<Longrightarrow> length r < length s"
  by (auto simp: hex4_def split: if_splits option.splits)

lemma unit_length: "length (snd (unit x r)) \<le> length r"
  by (auto simp: unit_def split: option.splits dest!: hex4_length)

text \<open>The string up to the closing quote, and the rest of the input.\<close>

function p_str :: "string \<Rightarrow> (string \<times> string) option" where
  "p_str [] = None"
| "p_str (c # cs) =
     (if c = quote then Some ([], cs)
      else if c = backslash then
        (case cs of
           [] \<Rightarrow> None
         | e # r \<Rightarrow>
             if e = CHR ''u''
             then (case hex4 r of
                     None \<Rightarrow> None
                   | Some (x, r1) \<Rightarrow> map_option (apfst ((@) (fst (unit x r1)))) (p_str (snd (unit x r1))))
             else (case simple_escape e of
                     None \<Rightarrow> None
                   | Some d \<Rightarrow> map_option (apfst ((#) d)) (p_str r)))
      else if code c < 32 then None
      else if rune_len (c # cs) = 0 then map_option (apfst ((@) replacement)) (p_str cs)
      else map_option (apfst ((@) (take (rune_len (c # cs)) (c # cs)))) (p_str (drop (rune_len (c # cs) - 1) cs)))"
  by pat_completeness auto
termination
proof (relation "measure length", goal_cases)
  case (2 c cs e r y x r1)
  then have "length r1 < length r" using hex4_length [of r x r1] by simp
  with 2 unit_length [of x r1] show ?case by simp
qed auto

declare p_str.simps [simp del]

lemma p_str_length: "p_str s = Some (x, r) \<Longrightarrow> length r < length s"
proof (induction s arbitrary: x r rule: p_str.induct)
  case (2 c cs)
  consider "c = quote" | "c \<noteq> quote" "c = backslash" | "c \<noteq> quote" "c \<noteq> backslash" by blast
  then show ?case
  proof cases
    case 1
    then show ?thesis using "2.prems" by (simp add: p_str.simps)
  next
    case b: 2
    then obtain e r0 where cs: "cs = e # r0" using "2.prems" by (cases cs) (simp_all add: p_str.simps)
    show ?thesis
    proof (cases "e = CHR ''u''")
      case True
      then obtain x0 r1 where h: "hex4 r0 = Some (x0, r1)"
        using "2.prems" b cs by (cases "hex4 r0") (auto simp: p_str.simps)
      then obtain y where "p_str (snd (unit x0 r1)) = Some (y, r)"
        using "2.prems" b cs True by (auto simp: p_str.simps)
      then have "length r < length (snd (unit x0 r1))" using "2.IH"(1) b cs True h by auto
      then show ?thesis using unit_length [of x0 r1] hex4_length [OF h] cs by simp
    next
      case False
      then obtain d y where "simple_escape e = Some d" "p_str r0 = Some (y, r)"
        using "2.prems" b cs by (cases "simple_escape e") (auto simp: p_str.simps)
      then show ?thesis using "2.IH"(2) b cs False by fastforce
    qed
  next
    case n: 3
    then have g: "\<not> code c < 32" using "2.prems" by (auto simp: p_str.simps)
    show ?thesis
    proof (cases "rune_len (c # cs) = 0")
      case True
      then obtain y where "p_str cs = Some (y, r)" using "2.prems" n g by (auto simp: p_str.simps)
      then show ?thesis using "2.IH"(3) n g True by fastforce
    next
      case False
      then obtain y where "p_str (drop (rune_len (c # cs) - 1) cs) = Some (y, r)"
        using "2.prems" n g by (auto simp: p_str.simps)
      then show ?thesis using "2.IH"(4) n g False by fastforce
    qed
  qed
qed (simp add: p_str.simps)


section \<open>Values\<close>

text \<open>A decoded text; a number keeps its literal.\<close>

datatype jval = JNull | JBool bool | JNum string | JStr string | JArr "jval list" | JObj "(string \<times> jval) list"

definition ws :: "char \<Rightarrow> bool" where
  "ws c \<longleftrightarrow> c = CHR '' '' \<or> c = CHR 0x09 \<or> c = CHR 0x0D \<or> c = CHR 0x0A"

abbreviation skip_ws :: "string \<Rightarrow> string" where
  "skip_ws \<equiv> dropWhile ws"

text \<open>A run of at least one digit, and the rest of the input.\<close>

definition p_digits :: "string \<Rightarrow> (string \<times> string) option" where
  "p_digits s = (let d = takeWhile is_digit s in if d = [] then None else Some (d, drop (length d) s))"

text \<open>The number literals of JSON: sign, integer without leading zeros, fraction, exponent.\<close>

definition p_int :: "string \<Rightarrow> (string \<times> string) option" where
  "p_int s = (if take 1 s = ''0'' then Some (''0'', drop 1 s) else p_digits s)"

definition p_frac :: "string \<Rightarrow> (string \<times> string) option" where
  "p_frac s = (if take 1 s = ''.'' then map_option (apfst ((@) ''.'')) (p_digits (drop 1 s)) else Some ([], s))"

definition p_exp :: "string \<Rightarrow> (string \<times> string) option" where
  "p_exp s =
     (if take 1 s = ''e'' \<or> take 1 s = ''E'' then
        (let sg = (if take 1 (drop 1 s) = ''+'' \<or> take 1 (drop 1 s) = ''-'' then take 2 s else take 1 s)
         in map_option (apfst ((@) sg)) (p_digits (drop (length sg) s)))
      else Some ([], s))"

definition p_num :: "string \<Rightarrow> (string \<times> string) option" where
  "p_num s =
     (let sg = (if take 1 s = ''-'' then ''-'' else [])
      in case p_int (drop (length sg) s) of
           None \<Rightarrow> None
         | Some (i, r1) \<Rightarrow>
             (case p_frac r1 of
                None \<Rightarrow> None
              | Some (f, r2) \<Rightarrow>
                  (case p_exp r2 of None \<Rightarrow> None | Some (e, r3) \<Rightarrow> Some (sg @ i @ f @ e, r3))))"

lemma skip_ws_length: "length (skip_ws s) \<le> length s"
  by (simp add: length_dropWhile_le)

text \<open>
  The value at the start of the input, and the rest.  The tests \<open>length r < length s\<close> on the rest a
  nested call returns only serve the termination proof; they hold because a value is never empty.
\<close>

function p_val :: "string \<Rightarrow> (jval \<times> string) option"
  and p_elems :: "string \<Rightarrow> (jval list \<times> string) option"
  and p_members :: "string \<Rightarrow> ((string \<times> jval) list \<times> string) option"
  where
  "p_val s =
     (case skip_ws s of
        [] \<Rightarrow> None
      | c # r \<Rightarrow>
          if c = CHR ''{''
          then (if take 1 (skip_ws r) = ''}'' then Some (JObj [], tl (skip_ws r)) else map_option (apfst JObj) (p_members r))
          else if c = CHR ''[''
          then (if take 1 (skip_ws r) = '']'' then Some (JArr [], tl (skip_ws r)) else map_option (apfst JArr) (p_elems r))
          else if c = quote then map_option (apfst JStr) (p_str r)
          else if c = CHR ''-'' \<or> is_digit c then map_option (apfst JNum) (p_num (c # r))
          else if strings_HasPrefix (c # r) ''true'' then Some (JBool True, drop 3 r)
          else if strings_HasPrefix (c # r) ''false'' then Some (JBool False, drop 4 r)
          else if strings_HasPrefix (c # r) ''null'' then Some (JNull, drop 3 r)
          else None)"
| "p_elems s =
     (case p_val s of
        None \<Rightarrow> None
      | Some (v, r) \<Rightarrow>
          if length r < length s then
            (case skip_ws r of
               [] \<Rightarrow> None
             | c # r1 \<Rightarrow>
                 if c = CHR '','' then map_option (apfst ((#) v)) (p_elems r1)
                 else if c = CHR '']'' then Some ([v], r1) else None)
          else None)"
| "p_members s =
     (case skip_ws s of
        [] \<Rightarrow> None
      | c # r \<Rightarrow>
          if c \<noteq> quote then None
          else (case p_str r of
             None \<Rightarrow> None
           | Some (k, r1) \<Rightarrow>
               (case skip_ws r1 of
                  [] \<Rightarrow> None
                | c2 # r2 \<Rightarrow>
                    if c2 \<noteq> CHR '':'' then None
                    else (case p_val r2 of
                       None \<Rightarrow> None
                     | Some (v, r3) \<Rightarrow>
                         if length r3 < length s then
                           (case skip_ws r3 of
                              [] \<Rightarrow> None
                            | c4 # r4 \<Rightarrow>
                                if c4 = CHR '','' then map_option (apfst ((#) (k, v))) (p_members r4)
                                else if c4 = CHR ''}'' then Some ([(k, v)], r4) else None)
                         else None))))"
  by pat_completeness auto
termination
proof (relation "measure (case_sum (\<lambda>s. 2 * length s) (case_sum (\<lambda>s. 2 * length s + 1) (\<lambda>s. 2 * length s + 1)))",
    goal_cases)
  case 1
  show ?case by simp
next
  case (2 s c r)
  then show ?case using skip_ws_length [of s] by (simp del: length_dropWhile_le)
next
  case (3 s c r)
  then show ?case using skip_ws_length [of s] by simp
next
  case (4 s)
  show ?case by simp
next
  case (5 s y v r c r1)
  then show ?case using skip_ws_length [of r] by simp
next
  case (6 s c r y k r1 c2 r2)
  then show ?case using skip_ws_length [of s] skip_ws_length [of r1] p_str_length [of r k r1] by simp
next
  case (7 s c r y k r1 c2 r2 y' v r3 c4 r4)
  then show ?case using skip_ws_length [of r3] by simp
qed

declare p_val.simps [simp del] p_elems.simps [simp del] p_members.simps [simp del]

text \<open>A whole text: one value, and nothing but white space after it.\<close>

definition json_parse :: "string \<Rightarrow> jval option" where
  "json_parse s = (case p_val s of Some (v, r) \<Rightarrow> if skip_ws r = [] then Some v else None | None \<Rightarrow> None)"


section \<open>Access rules\<close>

definition enc_key :: "string \<Rightarrow> string" where
  "enc_key k = quote # k @ [quote, CHR '':'']"

definition enc_rule :: "AccessRule \<Rightarrow> string" where
  "enc_rule r =
     ''{'' @ enc_key ''path'' @ quote # enc_str (rPath r) @ quote # '','' @ enc_key ''mode'' @ show_int (rMode r) @ ''}''"

text \<open>A nil slice is not told apart from an empty one.\<close>

definition MarshalAccessRule :: "AccessRule list \<Rightarrow> string" where
  "MarshalAccessRule rules = ''['' @ join_with '','' (map enc_rule rules) @ '']''"

text \<open>The decoder compares field names without regard to the case of ASCII letters.\<close>

definition mask :: "char \<Rightarrow> nat" where
  "mask c = code c - (if odd (code c div 32) then 32 else 0)"

definition key_is :: "string \<Rightarrow> string \<Rightarrow> bool" where
  "key_is name k \<longleftrightarrow> map mask k = map mask name"

text \<open>
  One field of an object read into a rule: null leaves it alone, a value of a wrong type is noted as
  an error and skipped, an unknown field is ignored.
\<close>

fun set_field :: "string \<times> jval \<Rightarrow> AccessRule \<times> bool \<Rightarrow> AccessRule \<times> bool" where
  "set_field (k, v) (r, err) =
     (if key_is ''path'' k then
        (case v of JStr s \<Rightarrow> (r\<lparr>rPath := s\<rparr>, err) | JNull \<Rightarrow> (r, err) | _ \<Rightarrow> (r, True))
      else if key_is ''mode'' k then
        (case v of
           JNum l \<Rightarrow> (case strconv_Atoi l of Some i \<Rightarrow> (r\<lparr>rMode := i\<rparr>, err) | None \<Rightarrow> (r, True))
         | JNull \<Rightarrow> (r, err)
         | _ \<Rightarrow> (r, True))
      else (r, err))"

definition zero_rule :: AccessRule where
  "zero_rule = \<lparr>rPath = '''', rMode = 0\<rparr>"

definition dec_rule :: "jval \<Rightarrow> AccessRule \<times> bool" where
  "dec_rule v =
     (case v of
        JObj m \<Rightarrow> fold set_field m (zero_rule, False)
      | JNull \<Rightarrow> (zero_rule, False)
      | _ \<Rightarrow> (zero_rule, True))"

text \<open>The rules read, and whether there was an error.\<close>

definition UnmarshalAccessRule :: "string \<Rightarrow> AccessRule list \<times> bool" where
  "UnmarshalAccessRule data =
     (case json_parse data of
        None \<Rightarrow> ([], True)
      | Some JNull \<Rightarrow> ([], False)
      | Some (JArr vs) \<Rightarrow> (map (fst \<circ> dec_rule) vs, list_ex (snd \<circ> dec_rule) vs)
      | _ \<Rightarrow> ([], True))"

end
