(* ===== verification/Http.thy ===== *)
theory Http
  imports Watching Json "HOL-Library.List_Lexorder" "HOL-Library.Char_ord"
begin

text \<open>
  The HTTP server of \<^verbatim>\<open>metad.go\<close>: the handlers of the metadata port and of the manage port, the writers of
  the three content types, and the two wrappers.  The repository and the client of the backend are
  those of \<^verbatim>\<open>MetaRepo\<close>.  A panic of a handler ends the request without a response (\<^verbatim>\<open>net/http\<close> recovers
  it and drops the connection).
\<close>

section \<open>Requests and the libraries the handlers call\<close>

text \<open>
  A request as the handlers see it: \<^verbatim>\<open>mux.Vars(req)["nodePath"]\<close> (empty when the route has none), the parsed form
  values, the body (or the error of reading it), the header \<^verbatim>\<open>X-Forwarded-For\<close> and the address of the peer.
\<close>

record http_request =
  rqMethod :: string
  rqNodePath :: string
  rqForm :: "(string, string) gomap"
  rqBody :: "string + string"
  rqXff :: string
  rqRemoteAddr :: string

definition FormValue :: "http_request \<Rightarrow> string \<Rightarrow> string" where
  "FormValue req key = (case map_of (rqForm req) key of None \<Rightarrow> '''' | Some v \<Rightarrow> v)"

text \<open>The result of a handler: nil, a dynamic value, or the rules of some hosts.\<close>

datatype result = RNil | RVal goval | RRules "(string, AccessRule list) gomap"

definition as_result :: "goval \<Rightarrow> result" where
  "as_result v = (if v = VNil then RNil else RVal v)"

text \<open>
  What the handlers take from elsewhere: the content type that \<^verbatim>\<open>httputil.NegotiateContentType\<close> chooses from the offers,
  the output of \<^verbatim>\<open>yaml.Marshal\<close> or its error, the reading of a number literal as a \<^verbatim>\<open>float64\<close> (none when out of range) and
  the JSON text of one, and the text of the error of the JSON decoder.
\<close>

record http_env =
  negotiate :: "http_request \<Rightarrow> string list \<Rightarrow> string \<Rightarrow> string"
  yaml_Marshal :: "result \<Rightarrow> string + string"
  parse_float :: "string \<Rightarrow> float64 option"
  json_float :: "float64 \<Rightarrow> string"
  json_error :: "string + string \<Rightarrow> string"

text \<open>\<^verbatim>\<open>strings.Split(s, sep)\<close> for a separator of one byte.\<close>

fun split_on :: "char \<Rightarrow> string \<Rightarrow> string list" where
  "split_on sep [] = [[]]"
| "split_on sep (c # cs) =
     (if c = sep then [] # split_on sep cs
      else (case split_on sep cs of [] \<Rightarrow> [[c]] | w # wl \<Rightarrow> (c # w) # wl))"

text \<open>
  \<^verbatim>\<open>strings.ToLower\<close> and \<^verbatim>\<open>strings.ToUpper\<close> on ASCII letters.  The results are compared with \<^verbatim>\<open>"true"\<close>, whose letters
  are the lower case of no other rune, and with \<^verbatim>\<open>"POST"\<close>, on a method that the router has matched.
\<close>

definition ascii_lower :: "char \<Rightarrow> char" where
  "ascii_lower c = (if between 65 90 c then char_of (code c + 32) else c)"

definition ascii_upper :: "char \<Rightarrow> char" where
  "ascii_upper c = (if between 97 122 c then char_of (code c - 32) else c)"

definition strings_Contains :: "string \<Rightarrow> string \<Rightarrow> bool" where
  "strings_Contains s sub = list_ex (\<lambda>n. strings_HasPrefix (drop n s) sub) [0..<Suc (length s)]"

text \<open>\<^verbatim>\<open>net.SplitHostPort\<close>; none is its error, with which it returns empty strings.\<close>

definition byte_index :: "string \<Rightarrow> char \<Rightarrow> nat option" where
  "byte_index s c = (let n = length (takeWhile (\<lambda>x. x \<noteq> c) s) in if n < length s then Some n else None)"

definition last_index :: "string \<Rightarrow> char \<Rightarrow> nat option" where
  "last_index s c = map_option (\<lambda>n. length s - 1 - n) (byte_index (rev s) c)"

definition net_SplitHostPort :: "string \<Rightarrow> (string \<times> string) option" where
  "net_SplitHostPort hostport =
     (case last_index hostport (CHR '':'') of
        None \<Rightarrow> None
      | Some i \<Rightarrow>
          (case (if hostport ! 0 = CHR ''[''
                 then (case byte_index hostport (CHR '']'') of
                         None \<Rightarrow> None
                       | Some e \<Rightarrow> if e + 1 = i then Some (take (e - 1) (drop 1 hostport), 1, e + 1) else None)
                 else (if byte_index (take i hostport) (CHR '':'') \<noteq> None then None
                       else Some (take i hostport, 0, 0))) of
             None \<Rightarrow> None
           | Some (host, j, k) \<Rightarrow>
               if byte_index (drop j hostport) (CHR ''['') \<noteq> None then None
               else if byte_index (drop k hostport) (CHR '']'') \<noteq> None then None
               else Some (host, drop (i + 1) hostport)))"

section \<open>JSON\<close>

text \<open>
  \<^verbatim>\<open>decoder.Decode(&data)\<close> into an \<^verbatim>\<open>interface{}\<close>: the first value of the body, whatever follows it.  In an object a later
  entry replaces an earlier one with the same key.
\<close>

fun dec_value :: "http_env \<Rightarrow> jval \<Rightarrow> goval option" where
  "dec_value env JNull = Some VNil"
| "dec_value env (JBool b) = Some (VBool b)"
| "dec_value env (JNum l) = map_option VFloat (parse_float env l)"
| "dec_value env (JStr s) = Some (VStr s)"
| "dec_value env (JArr vs) = map_option VSlice (those (map (dec_value env) vs))"
| "dec_value env (JObj m) =
     map_option (\<lambda>vs. VMap (fold (\<lambda>(k, v). AList.update k v) (zip (map fst m) vs) []))
       (those (map (\<lambda>(k, v). dec_value env v) m))"

definition Decode :: "http_env \<Rightarrow> string + string \<Rightarrow> string + goval" where
  "Decode env body =
     (case Option.bind (case body of Inl e \<Rightarrow> None | Inr s \<Rightarrow> p_val s) (\<lambda>(v, r). dec_value env v) of
        None \<Rightarrow> Inl (json_error env body)
      | Some data \<Rightarrow> Inr data)"

text \<open>The same into a \<^verbatim>\<open>map[string][]store.AccessRule\<close>; a list may be null.\<close>

definition dec_rules :: "jval \<Rightarrow> AccessRule list option" where
  "dec_rules v =
     (case v of
        JNull \<Rightarrow> Some []
      | JArr vs \<Rightarrow> if list_ex (snd \<circ> dec_rule) vs then None else Some (map (fst \<circ> dec_rule) vs)
      | _ \<Rightarrow> None)"

definition Decode_rules :: "http_env \<Rightarrow> string + string \<Rightarrow> string + (string, AccessRule list) gomap" where
  "Decode_rules env body =
     (case (case body of Inl e \<Rightarrow> None | Inr s \<Rightarrow> p_val s) of
        Some (JNull, r) \<Rightarrow> Inr []
      | Some (JObj m, r) \<Rightarrow>
          (case those (map (\<lambda>(k, v). dec_rules v) m) of
             Some rs \<Rightarrow> Inr (fold (\<lambda>(k, v). AList.update k v) (zip (map fst m) rs) [])
           | None \<Rightarrow> Inl (json_error env body))
      | _ \<Rightarrow> Inl (json_error env body))"

text \<open>The document of a value: the entries of a map sorted by key, those of a struct in the order of its fields.\<close>

fun json_doc :: "http_env \<Rightarrow> goval \<Rightarrow> jval" where
  "json_doc env VNil = JNull"
| "json_doc env (VBool b) = JBool b"
| "json_doc env (VInt i) = JNum (show_int i)"
| "json_doc env (VFloat f) = JNum (json_float env f)"
| "json_doc env (VStr s) = JStr s"
| "json_doc env (VSlice vs) = JArr (map (json_doc env) vs)"
| "json_doc env (VMap m) = JObj (sort_key fst (map (\<lambda>(k, v). (k, json_doc env v)) m))"

definition rule_doc :: "AccessRule \<Rightarrow> jval" where
  "rule_doc r = JObj [(''path'', JStr (rPath r)), (''mode'', JNum (show_int (rMode r)))]"

fun result_doc :: "http_env \<Rightarrow> result \<Rightarrow> jval" where
  "result_doc env RNil = JObj []"
| "result_doc env (RVal v) = json_doc env v"
| "result_doc env (RRules m) = JObj (sort_key fst (map (\<lambda>(k, rs). (k, JArr (map rule_doc rs))) m))"

definition json_string :: "string \<Rightarrow> string" where
  "json_string s = quote # enc_str s @ [quote]"

text \<open>\<^verbatim>\<open>json.Marshal\<close>.\<close>

fun json_Marshal :: "jval \<Rightarrow> string" where
  "json_Marshal JNull = ''null''"
| "json_Marshal (JBool b) = (if b then ''true'' else ''false'')"
| "json_Marshal (JNum l) = l"
| "json_Marshal (JStr s) = json_string s"
| "json_Marshal (JArr vs) = ''['' @ join_with '','' (map json_Marshal vs) @ '']''"
| "json_Marshal (JObj m) = ''{'' @ join_with '','' (map (\<lambda>(k, v). json_string k @ '':'' @ json_Marshal v) m) @ ''}''"

text \<open>\<^verbatim>\<open>json.MarshalIndent(val, "", "  ")\<close>.\<close>

definition newline :: "nat \<Rightarrow> string" where
  "newline n = CHR 0x0A # replicate (2 * n) (CHR '' '')"

fun json_MarshalIndent :: "nat \<Rightarrow> jval \<Rightarrow> string" where
  "json_MarshalIndent n (JArr vs) =
     (if vs = [] then ''[]''
      else ''['' @ newline (n + 1) @ join_with ('','' @ newline (n + 1)) (map (json_MarshalIndent (n + 1)) vs) @ newline n @ '']'')"
| "json_MarshalIndent n (JObj m) =
     (if m = [] then ''{}''
      else ''{'' @ newline (n + 1) @
        join_with ('','' @ newline (n + 1)) (map (\<lambda>(k, v). json_string k @ '': '' @ json_MarshalIndent (n + 1) v) m) @ newline n @ ''}'')"
| "json_MarshalIndent n v = json_Marshal v"

section \<open>Responses\<close>

record HttpError =
  Status :: nat
  Message :: string

definition NewHttpError :: "nat \<Rightarrow> string \<Rightarrow> HttpError" where
  "NewHttpError status msg = \<lparr>Status = status, Message = msg\<rparr>"

text \<open>\<^verbatim>\<open>NewServerError\<close> calls \<^verbatim>\<open>error.Error()\<close>, on nil too.\<close>

definition NewServerError :: "error option \<Rightarrow> panic + HttpError" where
  "NewServerError err = (case err of None \<Rightarrow> Inl nil_deref | Some e \<Rightarrow> Inr (NewHttpError 500 e))"

definition not_found :: HttpError where
  "not_found = NewHttpError 404 ''Not found''"

record http_response =
  rsStatus :: nat
  rsContentType :: string
  rsBody :: string

datatype content = ContentText | ContentJSON | ContentYAML

definition contentType :: "http_env \<Rightarrow> http_request \<Rightarrow> content" where
  "contentType env req =
     (let str = negotiate env req
          [''text/plain'', ''application/json'', ''application/yaml'', ''application/x-yaml'', ''text/yaml'', ''text/x-yaml'']
          ''text/plain''
      in if strings_Contains str ''json'' then ContentJSON
         else if strings_Contains str ''yaml'' then ContentYAML else ContentText)"

text \<open>\<^verbatim>\<open>http.Error\<close> sets its own content type and ends the body with a newline.\<close>

definition http_Error :: "string \<Rightarrow> nat \<Rightarrow> http_response" where
  "http_Error msg status =
     \<lparr>rsStatus = status, rsContentType = ''text/plain; charset=utf-8'', rsBody = msg @ [CHR 0x0A]\<rparr>"

definition respondError :: "http_env \<Rightarrow> http_request \<Rightarrow> string \<Rightarrow> nat \<Rightarrow> http_response" where
  "respondError env req msg statusCode =
     (let obj = VMap [(''message'', VStr msg), (''type'', VStr ''ERROR''), (''code'', VInt (int statusCode))]
      in case contentType env req of
           ContentText \<Rightarrow> http_Error msg statusCode
         | ContentJSON \<Rightarrow> http_Error (json_Marshal (json_doc env obj)) statusCode
         | ContentYAML \<Rightarrow>
             (case yaml_Marshal env (RVal obj) of
                Inr bytes \<Rightarrow> http_Error bytes statusCode
              | Inl e \<Rightarrow> http_Error (''type: '' @ quote # ''error'' @ quote # CHR 0x0A # ''message: '' @ quote # ''JSON marshal error'' @ [quote]) 500))"

text \<open>The writers; the number is the length that is logged.\<close>

definition text_body :: "result \<Rightarrow> string" where
  "text_body val =
     (case val of
        RVal (VStr v) \<Rightarrow> v
      | RVal (VMap v) \<Rightarrow>
          (let fm = Flatten_entries v
           in concat (map (\<lambda>k. k @ CHR 0x09 # the (map_of fm k) @ [CHR 0x0A]) (sort (map fst fm))))
      | _ \<Rightarrow> '''')"

definition respondText :: "result \<Rightarrow> http_response \<times> nat" where
  "respondText val = (\<lparr>rsStatus = 200, rsContentType = ''text/plain'', rsBody = text_body val\<rparr>, length (text_body val))"

definition respondJSON :: "http_env \<Rightarrow> http_request \<Rightarrow> result \<Rightarrow> http_response \<times> nat" where
  "respondJSON env req val =
     (let prettyParam = FormValue req ''pretty'';
          pretty = (prettyParam \<noteq> '''' \<and> prettyParam \<noteq> ''false'');
          bytes = (if pretty then json_MarshalIndent 0 (result_doc env val) else json_Marshal (result_doc env val))
      in (\<lparr>rsStatus = 200, rsContentType = ''application/json'', rsBody = bytes\<rparr>, length bytes))"

definition respondYAML :: "http_env \<Rightarrow> http_request \<Rightarrow> result \<Rightarrow> http_response \<times> nat" where
  "respondYAML env req val =
     (case yaml_Marshal env val of
        Inr bytes \<Rightarrow> (\<lparr>rsStatus = 200, rsContentType = ''application/yaml'', rsBody = bytes\<rparr>, length bytes)
      | Inl e \<Rightarrow> (respondError env req (''Error serializing to YAML: '' @ e) 500, 0))"

definition respondSuccess :: "http_env \<Rightarrow> http_request \<Rightarrow> result \<Rightarrow> http_response \<times> nat" where
  "respondSuccess env req val =
     (case contentType env req of
        ContentText \<Rightarrow> respondText val
      | ContentJSON \<Rightarrow> respondJSON env req val
      | ContentYAML \<Rightarrow> respondYAML env req val)"

definition respondSuccessDefault :: "http_env \<Rightarrow> http_request \<Rightarrow> http_response" where
  "respondSuccessDefault env req =
     (let obj = RVal (VMap [(''type'', VStr ''OK''), (''code'', VInt 200)])
      in fst (case contentType env req of
                ContentText \<Rightarrow> respondText (RVal (VStr ''OK''))
              | ContentJSON \<Rightarrow> respondJSON env req obj
              | ContentYAML \<Rightarrow> respondYAML env req obj))"

section \<open>The server\<close>

record 'c metad =
  mEnableXff :: bool
  mRepo :: MetadataRepo
  mClient :: 'c
  mTimerPool :: TimerPool
  mRequestIDGen :: int64

text \<open>The address the access rules are looked up for; empty when the address of the peer cannot be split.\<close>

definition requestIP :: "bool \<Rightarrow> http_request \<Rightarrow> string" where
  "requestIP enableXff req =
     (if enableXff \<and> length (rqXff req) > 0 then rqXff req
      else case net_SplitHostPort (rqRemoteAddr req) of None \<Rightarrow> '''' | Some (host, port) \<Rightarrow> host)"

definition generateRequestID :: "'c metad \<Rightarrow> string \<times> 'c metad" where
  "generateRequestID m =
     (let (g, n) = AtomicLong_IncrementAndGet (mRequestIDGen m)
      in (''REQ-'' @ show_int (sint n), m\<lparr>mRequestIDGen := g\<rparr>))"

definition node_path :: "http_request \<Rightarrow> string" where
  "node_path req = (if rqNodePath req = '''' then ''/'' else rqNodePath req)"

definition list_param :: "http_request \<Rightarrow> string \<Rightarrow> string list" where
  "list_param req key = (if FormValue req key = '''' then [] else split_on (CHR '','') (FormValue req key))"

subsection \<open>The handlers of the manage port\<close>

type_synonym 'c manage = "'c metad \<Rightarrow> (panic + result \<times> HttpError option) \<times> 'c metad"

definition found_or_404 :: "goval \<Rightarrow> result \<times> HttpError option" where
  "found_or_404 val = (if val = VNil then (RNil, Some not_found) else (RVal val, None))"

text \<open>A call of the repository that returns an error or nil, as the tail of a handler.\<close>

definition finish_call :: "(panic + error option) \<times> 'c \<Rightarrow> 'c manage" where
  "finish_call res m =
     (case res of
        (Inl p, c) \<Rightarrow> (Inl p, m\<lparr>mClient := c\<rparr>)
      | (Inr None, c) \<Rightarrow> (Inr (RNil, None), m\<lparr>mClient := c\<rparr>)
      | (Inr (Some err), c) \<Rightarrow> (map_sum id (\<lambda>e. (RNil, Some e)) (NewServerError (Some err)), m\<lparr>mClient := c\<rparr>))"

definition bad_request :: "string \<Rightarrow> string \<Rightarrow> result \<times> HttpError option" where
  "bad_request what err = (RNil, Some (NewHttpError 400 (what @ err)))"

text \<open>\<^verbatim>\<open>POST\<close> replaces the old value, \<^verbatim>\<open>PUT\<close> merges into it.\<close>

definition is_replace :: "http_request \<Rightarrow> bool" where
  "is_replace req \<longleftrightarrow> map ascii_upper (rqMethod req) = ''POST''"

definition dataGet :: "http_request \<Rightarrow> 'c manage" where
  "dataGet req m = (Inr (found_or_404 (GetData (mRepo m) (node_path req))), m)"

definition dataUpdate :: "http_env \<Rightarrow> 'c storeClient \<Rightarrow> http_request \<Rightarrow> 'c manage" where
  "dataUpdate env ops req m =
     (case Decode env (rqBody req) of
        Inl err \<Rightarrow> (Inr (bad_request ''invalid json format, error:'' err), m)
      | Inr data \<Rightarrow> finish_call (PutData ops (node_path req) data (is_replace req) (mClient m)) m)"

definition dataDelete :: "'c storeClient \<Rightarrow> http_request \<Rightarrow> 'c manage" where
  "dataDelete ops req m =
     finish_call (DeleteData ops (mRepo m) (node_path req) (list_param req ''subs'') (mClient m)) m"

definition mappingGet :: "http_request \<Rightarrow> 'c manage" where
  "mappingGet req m = (Inr (found_or_404 (GetMapping (mRepo m) (node_path req))), m)"

definition mappingUpdate :: "http_env \<Rightarrow> 'c storeClient \<Rightarrow> http_request \<Rightarrow> 'c manage" where
  "mappingUpdate env ops req m =
     (case rqBody req of
        Inl err \<Rightarrow> (Inr (bad_request ''read request error:'' err), m)
      | Inr buf \<Rightarrow>
          (case Decode env (Inr buf) of
             Inl err \<Rightarrow> (Inr (bad_request ''invalid json format, error:'' err), m)
           | Inr data \<Rightarrow> finish_call (PutMapping ops (node_path req) data (is_replace req) (mClient m)) m))"

definition mappingDelete :: "'c storeClient \<Rightarrow> http_request \<Rightarrow> 'c manage" where
  "mappingDelete ops req m =
     finish_call (DeleteMapping ops (mRepo m) (node_path req) (list_param req ''subs'') (mClient m)) m"

definition accessRuleGet :: "http_request \<Rightarrow> 'c manage" where
  "accessRuleGet req m = (Inr (RRules (GetAccessRule (mRepo m) (list_param req ''hosts'')), None), m)"

definition accessRuleUpdate :: "http_env \<Rightarrow> 'c storeClient \<Rightarrow> http_request \<Rightarrow> 'c manage" where
  "accessRuleUpdate env ops req m =
     (case Decode_rules env (rqBody req) of
        Inl err \<Rightarrow> (Inr (bad_request ''invalid json format, error:'' err), m)
      | Inr data \<Rightarrow> finish_call (PutAccessRule ops data (mClient m)) m)"

text \<open>\<^verbatim>\<open>accessRuleDelete\<close> builds the error response whether or not there was an error.\<close>

definition accessRuleDelete :: "'c storeClient \<Rightarrow> http_request \<Rightarrow> 'c manage" where
  "accessRuleDelete ops req m =
     (case DeleteAccessRule ops (list_param req ''hosts'') (mClient m) of
        (Inl p, c) \<Rightarrow> (Inl p, m\<lparr>mClient := c\<rparr>)
      | (Inr err, c) \<Rightarrow> (map_sum id (\<lambda>e. (RNil, Some e)) (NewServerError err), m\<lparr>mClient := c\<rparr>))"

subsection \<open>The handlers of the metadata port\<close>

text \<open>The parameter \<^verbatim>\<open>prev_version\<close>: 0 when absent, -1 when it is not a number.\<close>

definition prev_version :: "http_request \<Rightarrow> int" where
  "prev_version req =
     (let s = FormValue req ''prev_version''
      in if s = '''' then 0 else case strconv_Atoi s of None \<Rightarrow> -1 | Some v \<Rightarrow> v)"

definition wait_param :: "http_request \<Rightarrow> bool" where
  "wait_param req \<longleftrightarrow> map ascii_lower (FormValue req ''wait'') = ''true''"

text \<open>Whether the handler waits for a change before it reads.\<close>

definition must_wait :: "http_request \<Rightarrow> int64 \<Rightarrow> bool" where
  "must_wait req current \<longleftrightarrow> wait_param req \<and> \<not> (prev_version req > 0 \<and> prev_version req \<noteq> sint current)"

definition or_404 :: "int64 \<Rightarrow> goval \<Rightarrow> int64 \<times> result \<times> HttpError option" where
  "or_404 ver val = (ver, as_result val, if val = VNil then Some not_found else None)"

definition root_read :: "string \<Rightarrow> string \<Rightarrow> 'c metad \<Rightarrow> panic + int64 \<times> result \<times> HttpError option" where
  "root_read clientIP nodePath m = map_sum id (\<lambda>(ver, val). or_404 ver val) (Root (mRepo m) clientIP nodePath)"

text \<open>
  The handlers that may wait return \<open>None\<close> as long as they do; \<open>pick\<close> and \<open>during\<close> are those of \<open>repo_Watch\<close> and
  \<open>repo_WatchSelf\<close>.
\<close>

type_synonym 'c handler = "'c metad \<Rightarrow> ((panic + int64 \<times> result \<times> HttpError option) \<times> 'c metad) option"

definition rootHandler :: "(nat list \<Rightarrow> nat option) \<Rightarrow> (nat \<Rightarrow> store \<Rightarrow> store \<times> signal list) \<Rightarrow> http_request \<Rightarrow> 'c handler" where
  "rootHandler pick during req m =
     (let clientIP = requestIP (mEnableXff m) req; nodePath = node_path req
      in if must_wait req (DataVersion (mRepo m))
         then (case repo_Watch pick nodePath during (mRepo m) (mTimerPool m) of
                 None \<Rightarrow> None
               | Some (Inl p, r, tp) \<Rightarrow> Some (Inl p, m\<lparr>mRepo := r, mTimerPool := tp\<rparr>)
               | Some (Inr _, r, tp) \<Rightarrow>
                   (let m1 = m\<lparr>mRepo := r, mTimerPool := tp\<rparr> in Some (root_read clientIP nodePath m1, m1)))
         else Some (root_read clientIP nodePath m, m))"

definition self_read :: "int64 \<Rightarrow> string \<Rightarrow> string \<Rightarrow> 'c metad \<Rightarrow> panic + int64 \<times> result \<times> HttpError option" where
  "self_read ver clientIP nodePath m = map_sum id (or_404 ver) (Self (mRepo m) clientIP nodePath)"

definition selfHandler :: "(nat list \<Rightarrow> nat option) \<Rightarrow>
    (self_watch \<Rightarrow> MetadataRepo \<Rightarrow> MetadataRepo \<times> aggregateWatcher \<times> signal list) \<Rightarrow> http_request \<Rightarrow> 'c handler" where
  "selfHandler pick during req m =
     (let clientIP = requestIP (mEnableXff m) req; nodePath = node_path req; currentVersion = DataVersion (mRepo m)
      in if must_wait req currentVersion
         then (case repo_WatchSelf pick clientIP nodePath during (mRepo m) (mTimerPool m) of
                 None \<Rightarrow> None
               | Some (Inl p, r, tp) \<Rightarrow> Some (Inl p, m\<lparr>mRepo := r, mTimerPool := tp\<rparr>)
               | Some (Inr _, r, tp) \<Rightarrow>
                   (let m1 = m\<lparr>mRepo := r, mTimerPool := tp\<rparr> in Some (self_read currentVersion clientIP nodePath m1, m1)))
         else Some (self_read currentVersion clientIP nodePath m, m))"

subsection \<open>Wrappers\<close>

text \<open>A reply: the two headers \<^verbatim>\<open>X-Metad-RequestID\<close> and \<^verbatim>\<open>X-Metad-Version\<close>, and what the writers produce.\<close>

record http_reply =
  ryRequestID :: string
  ryVersion :: string
  ryResponse :: http_response

definition respond :: "http_env \<Rightarrow> http_request \<Rightarrow> result \<times> HttpError option \<Rightarrow> http_response" where
  "respond env req = (\<lambda>(result, err).
     case err of
       Some e \<Rightarrow> respondError env req (Message e) (Status e)
     | None \<Rightarrow> if result = RNil then respondSuccessDefault env req else fst (respondSuccess env req result))"

definition make_reply :: "http_env \<Rightarrow> http_request \<Rightarrow> string \<Rightarrow> int64 \<Rightarrow> result \<times> HttpError option \<Rightarrow> http_reply" where
  "make_reply env req requestID ver res =
     \<lparr>ryRequestID = requestID, ryVersion = show_int (sint ver), ryResponse = respond env req res\<rparr>"

definition handleWrapper :: "http_env \<Rightarrow> (http_request \<Rightarrow> 'c handler) \<Rightarrow> http_request \<Rightarrow> 'c metad \<Rightarrow>
    ((panic + http_reply) \<times> 'c metad) option" where
  "handleWrapper env handler req m =
     (let (requestID, m1) = generateRequestID m
      in map_option (apfst (map_sum id (\<lambda>(ver, res). make_reply env req requestID ver res))) (handler req m1))"

definition manageWrapper :: "http_env \<Rightarrow> (http_request \<Rightarrow> 'c manage) \<Rightarrow> http_request \<Rightarrow> 'c metad \<Rightarrow>
    (panic + http_reply) \<times> 'c metad" where
  "manageWrapper env manager req m =
     (let (requestID, m1) = generateRequestID m; (res, m2) = manager req m1
      in (map_sum id (make_reply env req requestID (DataVersion (mRepo m2))) res, m2))"

subsection \<open>Routes\<close>

text \<open>The routes of the manage port below \<^verbatim>\<open>/v1\<close>, and the handler each method leads to.\<close>

datatype manage_route = MappingRoute | DataRoute | RuleRoute

datatype manage_method = GET | POST | PUT | DELETE

definition method_name :: "manage_method \<Rightarrow> string" where
  "method_name meth = (case meth of GET \<Rightarrow> ''GET'' | POST \<Rightarrow> ''POST'' | PUT \<Rightarrow> ''PUT'' | DELETE \<Rightarrow> ''DELETE'')"

definition manage_handler :: "http_env \<Rightarrow> 'c storeClient \<Rightarrow> manage_route \<Rightarrow> manage_method \<Rightarrow> http_request \<Rightarrow> 'c manage" where
  "manage_handler env ops route meth =
     (case route of
        MappingRoute \<Rightarrow>
          (case meth of GET \<Rightarrow> mappingGet | DELETE \<Rightarrow> mappingDelete ops | _ \<Rightarrow> mappingUpdate env ops)
      | DataRoute \<Rightarrow>
          (case meth of GET \<Rightarrow> dataGet | DELETE \<Rightarrow> dataDelete ops | _ \<Rightarrow> dataUpdate env ops)
      | RuleRoute \<Rightarrow>
          (case meth of GET \<Rightarrow> accessRuleGet | DELETE \<Rightarrow> accessRuleDelete ops | _ \<Rightarrow> accessRuleUpdate env ops))"

text \<open>A request that the router has matched to a route.\<close>

definition manage_serve :: "http_env \<Rightarrow> 'c storeClient \<Rightarrow> manage_route \<Rightarrow> manage_method \<Rightarrow> http_request \<Rightarrow> 'c metad \<Rightarrow>
    (panic + http_reply) \<times> 'c metad" where
  "manage_serve env ops route meth req m =
     manageWrapper env (manage_handler env ops route meth) (req\<lparr>rqMethod := method_name meth\<rparr>) m"

end
