(* ===== verification/Router.thy ===== *)
theory Router
  imports Http
begin

text \<open>
  The two ports as the network sees them: the routes that \<^verbatim>\<open>initRouter\<close> and \<^verbatim>\<open>initManageRouter\<close> of \<^verbatim>\<open>metad.go\<close> register, and the
  part of the router library (\<^verbatim>\<open>vendor/github.com/gorilla/mux\<close>) that picks one of them: the cleaning of the path with its
  redirection, the matching of routes in order, and the variables of a template.
\<close>

section \<open>Routes and matching\<close>

text \<open>
  A template is a literal, or a literal followed by one variable with the pattern \<^verbatim>\<open>.*\<close>.  A route has a template, the methods
  it accepts (all if none are given) and a handler; a subrouter has a prefix and routes.
\<close>

datatype tpl = Tpl string "string option"

datatype 'h route =
    HandleFunc tpl "string list option" 'h
  | Subrouter string "'h route list"

text \<open>The expression of a template anchored at both ends, against a path; the dot of \<^verbatim>\<open>.*\<close> does not match a newline.\<close>

fun tpl_Match :: "string \<Rightarrow> tpl \<Rightarrow> string \<Rightarrow> (string, string) gomap option" where
  "tpl_Match parent (Tpl lit var) p =
     (let raw = rev (dropWhile (\<lambda>c. c = CHR ''/'') (rev parent)) @ lit
      in case var of
           None \<Rightarrow> if p = raw then Some [] else None
         | Some x \<Rightarrow>
             if take (length raw) p = raw \<and> CHR 0x0A \<notin> set (drop (length raw) p)
             then Some [(x, drop (length raw) p)] else None)"

fun route_Match :: "string \<Rightarrow> string \<Rightarrow> string \<Rightarrow> 'h route \<Rightarrow> ('h \<times> (string, string) gomap) option"
  and router_Match :: "string \<Rightarrow> string \<Rightarrow> string \<Rightarrow> 'h route list \<Rightarrow> ('h \<times> (string, string) gomap) option" where
  "route_Match parent meth p (HandleFunc tpl methods h) =
     (case tpl_Match parent tpl p of
        None \<Rightarrow> None
      | Some vars \<Rightarrow> (case methods of
            None \<Rightarrow> Some (h, vars)
          | Some ms \<Rightarrow> if meth \<in> set ms then Some (h, vars) else None))"
| "route_Match parent meth p (Subrouter tp routes) =
     (let raw = rev (dropWhile (\<lambda>c. c = CHR ''/'') (rev parent)) @ tp
      in if take (length raw) p = raw then router_Match raw meth p routes else None)"
| "router_Match parent meth p [] = None"
| "router_Match parent meth p (r # rs) =
     (case route_Match parent meth p r of None \<Rightarrow> router_Match parent meth p rs | Some hv \<Rightarrow> Some hv)"

definition cleanPath :: "string \<Rightarrow> string" where
  "cleanPath p0 =
     (if p0 = '''' then ''/''
      else
        let p = (if hd p0 \<noteq> CHR ''/'' then CHR ''/'' # p0 else p0);
            np = path_Clean p
        in if last p = CHR ''/'' \<and> np \<noteq> ''/'' then np @ ''/'' else np)"

section \<open>Serving\<close>

text \<open>
  What the network gets: a redirection to the same URL with another path, a response without the headers of this program, the
  output of the metrics library, or the reply of a wrapped handler.  \<open>None\<close> stands for a handler that still waits.
\<close>

datatype served = Moved string | Plain http_response | Metrics | Reply http_reply

type_synonym 'c serve = "http_request \<Rightarrow> 'c metad \<Rightarrow> ((panic + served) \<times> 'c metad) option"

definition http_NotFound :: "'c serve" where
  "http_NotFound req m = Some (Inr (Plain (http_Error ''404 page not found'' 404)), m)"

definition promhttp_Handler :: "'c serve" where
  "promhttp_Handler req m = Some (Inr Metrics, m)"

text \<open>The library adds the content type it detects in a body written without one.\<close>

definition health :: "'c serve" where
  "health req m =
     Some (Inr (Plain \<lparr>rsStatus = 200, rsContentType = ''text/plain; charset=utf-8'',
                       rsBody = json_Marshal (JObj [(''status'', JStr ''up'')])\<rparr>), m)"

definition by_handler :: "http_env \<Rightarrow> (http_request \<Rightarrow> 'c handler) \<Rightarrow> 'c serve" where
  "by_handler env h req m = map_option (apfst (map_sum id Reply)) (handleWrapper env h req m)"

definition by_manager :: "http_env \<Rightarrow> (http_request \<Rightarrow> 'c manage) \<Rightarrow> 'c serve" where
  "by_manager env h req m = Some (apfst (map_sum id Reply) (manageWrapper env h req m))"

text \<open>\<^verbatim>\<open>Router.ServeHTTP\<close> for a request with the path \<open>p\<close> in its URL.\<close>

definition ServeHTTP :: "'c serve route list \<Rightarrow> string \<Rightarrow> 'c serve" where
  "ServeHTTP routes p req m =
     (if cleanPath p \<noteq> p then Some (Inr (Moved (cleanPath p)), m)
      else case router_Match '''' (rqMethod req) p routes of
             None \<Rightarrow> http_NotFound req m
           | Some (h, vars) \<Rightarrow>
               h (req\<lparr>rqNodePath := case map_of vars ''nodePath'' of None \<Rightarrow> '''' | Some v \<Rightarrow> v\<rparr>) m)"

section \<open>The two ports\<close>

definition initRouter :: "'c serve \<Rightarrow> 'c serve \<Rightarrow> 'c serve route list" where
  "initRouter onSelf onRoot =
     [HandleFunc (Tpl ''/favicon.ico'' None) None http_NotFound,
      HandleFunc (Tpl ''/self'' None) (Some [''GET'', ''HEAD'']) onSelf,
      HandleFunc (Tpl ''/self/'' (Some ''nodePath'')) (Some [''GET'', ''HEAD'']) onSelf,
      HandleFunc (Tpl ''/'' (Some ''nodePath'')) (Some [''GET'', ''HEAD'']) onRoot]"

text \<open>The subrouter for \<^verbatim>\<open>/v1\<close>, with a subrouter for each of its three kinds of data.\<close>

definition v1_routes :: "http_env \<Rightarrow> 'c storeClient \<Rightarrow> 'c serve route list" where
  "v1_routes env ops =
     (let get = Some [''GET'']; update = Some [''POST'', ''PUT'']; delete = Some [''DELETE''];
          node = Tpl ''/'' (Some ''nodePath'');
          mapping =
            [HandleFunc node get (by_manager env mappingGet),
             HandleFunc node update (by_manager env (mappingUpdate env ops)),
             HandleFunc node delete (by_manager env (mappingDelete ops))];
          data =
            [HandleFunc node get (by_manager env dataGet),
             HandleFunc node update (by_manager env (dataUpdate env ops)),
             HandleFunc node delete (by_manager env (dataDelete ops))];
          rule =
            [HandleFunc (Tpl ''/'' None) get (by_manager env accessRuleGet),
             HandleFunc (Tpl ''/'' None) update (by_manager env (accessRuleUpdate env ops)),
             HandleFunc (Tpl ''/'' None) delete (by_manager env (accessRuleDelete ops))]
      in [HandleFunc (Tpl ''/mapping'' None) get (by_manager env mappingGet),
           HandleFunc (Tpl ''/mapping'' None) update (by_manager env (mappingUpdate env ops)),
           HandleFunc (Tpl ''/mapping'' None) delete (by_manager env (mappingDelete ops)),
           Subrouter ''/mapping'' mapping,
           HandleFunc (Tpl ''/data'' None) get (by_manager env dataGet),
           HandleFunc (Tpl ''/data'' None) update (by_manager env (dataUpdate env ops)),
           HandleFunc (Tpl ''/data'' None) delete (by_manager env (dataDelete ops)),
           Subrouter ''/data'' data,
           HandleFunc (Tpl ''/rule'' None) get (by_manager env accessRuleGet),
           HandleFunc (Tpl ''/rule'' None) update (by_manager env (accessRuleUpdate env ops)),
           HandleFunc (Tpl ''/rule'' None) delete (by_manager env (accessRuleDelete ops)),
           Subrouter ''/rule'' rule])"

definition initManageRouter :: "http_env \<Rightarrow> 'c storeClient \<Rightarrow> 'c serve route list" where
  "initManageRouter env ops =
     [HandleFunc (Tpl ''/favicon.ico'' None) None http_NotFound,
      HandleFunc (Tpl ''/metrics'' None) None promhttp_Handler,
      HandleFunc (Tpl ''/health'' None) None health,
      Subrouter ''/v1'' (v1_routes env ops)]"

text \<open>The metadata port, with what happens while its two handlers wait.\<close>

definition serve_metadata :: "http_env \<Rightarrow> (nat list \<Rightarrow> nat option) \<Rightarrow> (nat \<Rightarrow> store \<Rightarrow> store \<times> signal list) \<Rightarrow>
    (self_watch \<Rightarrow> MetadataRepo \<Rightarrow> MetadataRepo \<times> aggregateWatcher \<times> signal list) \<Rightarrow> string \<Rightarrow> 'c serve" where
  "serve_metadata env pick during duringSelf =
     ServeHTTP (initRouter (by_handler env (selfHandler pick duringSelf)) (by_handler env (rootHandler pick during)))"

definition serve_manage :: "http_env \<Rightarrow> 'c storeClient \<Rightarrow> string \<Rightarrow> 'c serve" where
  "serve_manage env ops = ServeHTTP (initManageRouter env ops)"

end
