(* ===== verification/Logging.thy ===== *)
theory Logging
  imports Router
begin

text \<open>
  The log (\<^verbatim>\<open>log/log.go\<close> over the part of \<^verbatim>\<open>vendor/github.com/Sirupsen/logrus\<close> it uses) and the lines the two wrappers of
  \<^verbatim>\<open>metad.go\<close> write for a request.
\<close>

section \<open>Levels\<close>

datatype level = PanicLevel | FatalLevel | ErrorLevel | WarnLevel | InfoLevel | DebugLevel

fun level_rank :: "level \<Rightarrow> nat" where
  "level_rank PanicLevel = 0"
| "level_rank FatalLevel = 1"
| "level_rank ErrorLevel = 2"
| "level_rank WarnLevel = 3"
| "level_rank InfoLevel = 4"
| "level_rank DebugLevel = 5"

lemma level_rank_inj: "level_rank a = level_rank b \<longleftrightarrow> a = b"
  by (cases a; cases b) simp_all

instantiation level :: linorder
begin

definition less_eq_level :: "level \<Rightarrow> level \<Rightarrow> bool" where
  "less_eq_level a b \<longleftrightarrow> level_rank a \<le> level_rank b"

definition less_level :: "level \<Rightarrow> level \<Rightarrow> bool" where
  "less_level a b \<longleftrightarrow> level_rank a < level_rank b"

instance
  by standard (auto simp: less_eq_level_def less_level_def level_rank_inj [symmetric])

end

fun level_String :: "level \<Rightarrow> string" where
  "level_String DebugLevel = ''debug''"
| "level_String InfoLevel = ''info''"
| "level_String WarnLevel = ''warning''"
| "level_String ErrorLevel = ''error''"
| "level_String FatalLevel = ''fatal''"
| "level_String PanicLevel = ''panic''"

definition logrus_ParseLevel :: "string \<Rightarrow> level option" where
  "logrus_ParseLevel lvl =
     map_of [(''panic'', PanicLevel), (''fatal'', FatalLevel), (''error'', ErrorLevel), (''warn'', WarnLevel),
             (''warning'', WarnLevel), (''info'', InfoLevel), (''debug'', DebugLevel)] lvl"

section \<open>The log\<close>

text \<open>The level, the tag and what was written; and what a line takes from the system.\<close>

record logger =
  lgLevel :: level
  lgTag :: string
  lgOut :: string

record log_env =
  time_RFC3339 :: string
  os_Hostname :: string
  os_Getpid :: nat

definition SetTag :: "string \<Rightarrow> logger \<Rightarrow> logger" where
  "SetTag t lg = lg\<lparr>lgTag := t\<rparr>"

definition IsDebugEnable :: "logger \<Rightarrow> bool" where
  "IsDebugEnable lg \<longleftrightarrow> DebugLevel \<le> lgLevel lg"

definition LogFormatter_Format :: "log_env \<Rightarrow> string \<Rightarrow> level \<Rightarrow> string \<Rightarrow> string" where
  "LogFormatter_Format env tag lvl msg =
     time_RFC3339 env @ '' '' @ os_Hostname env @ '' '' @ tag @ ''['' @ show_nat (os_Getpid env) @ '']: '' @
     map ascii_upper (level_String lvl) @ '' '' @ msg @ [CHR 0x0A]"

text \<open>A message whose level is enabled is written as one entry.\<close>

definition entry_log :: "log_env \<Rightarrow> level \<Rightarrow> string \<Rightarrow> logger \<Rightarrow> logger" where
  "entry_log env lvl msg lg =
     (if lvl \<le> lgLevel lg then lg\<lparr>lgOut := lgOut lg @ LogFormatter_Format env (lgTag lg) lvl msg\<rparr> else lg)"

text \<open>The five severities, on messages already formatted; \<^verbatim>\<open>Fatal\<close> ends the process with status 1, whether or not it is written.\<close>

definition log_Debug :: "log_env \<Rightarrow> string \<Rightarrow> logger \<Rightarrow> logger" where
  "log_Debug env = entry_log env DebugLevel"

definition log_Info :: "log_env \<Rightarrow> string \<Rightarrow> logger \<Rightarrow> logger" where
  "log_Info env = entry_log env InfoLevel"

definition log_Warning :: "log_env \<Rightarrow> string \<Rightarrow> logger \<Rightarrow> logger" where
  "log_Warning env = entry_log env WarnLevel"

definition log_Error :: "log_env \<Rightarrow> string \<Rightarrow> logger \<Rightarrow> logger" where
  "log_Error env = entry_log env ErrorLevel"

definition log_Fatal :: "log_env \<Rightarrow> string \<Rightarrow> logger \<Rightarrow> nat \<times> logger" where
  "log_Fatal env msg lg = (1, entry_log env FatalLevel msg lg)"

section \<open>The lines of a request\<close>

text \<open>
  What the log shows of a request beside the fields the handlers read: \<^verbatim>\<open>req.URL.RequestURI()\<close>, \<^verbatim>\<open>req.RequestURI\<close> and the content
  length; the milliseconds it took are passed separately.
\<close>

record request_info =
  riURL :: string
  riURI :: string
  riContentLength :: int

definition tabbed :: "string list \<Rightarrow> string" where
  "tabbed xs = concat (map (\<lambda>x. x @ [CHR 0x09]) (butlast xs)) @ last xs"

definition requestLog :: "log_env \<Rightarrow> bool \<Rightarrow> string \<Rightarrow> int64 \<Rightarrow> http_request \<Rightarrow> request_info \<Rightarrow> nat \<Rightarrow> int \<Rightarrow> nat \<Rightarrow> logger \<Rightarrow> logger" where
  "requestLog env enableXff requestID ver req ri status ms len =
     log_Info env (tabbed [requestID, show_int (sint ver), rqMethod req, requestIP enableXff req, riURL ri,
       show_int (riContentLength ri), show_nat status, show_int ms, show_nat len])"

definition errorLog :: "log_env \<Rightarrow> bool \<Rightarrow> string \<Rightarrow> http_request \<Rightarrow> request_info \<Rightarrow> nat \<Rightarrow> string \<Rightarrow> logger \<Rightarrow> logger" where
  "errorLog env enableXff requestID req ri status msg =
     (let line = tabbed [''ERR'', requestID, rqMethod req, requestIP enableXff req, riURI ri, show_int (riContentLength ri), show_nat status, msg]
      in if status = 500 then log_Error env line else log_Warning env line)"

text \<open>
  What a wrapper logs once the handler has returned its version and result; \<open>fmt\<close> is the text of a result under \<^verbatim>\<open>%v\<close>.
\<close>

definition wrapper_log :: "log_env \<Rightarrow> http_env \<Rightarrow> (result \<Rightarrow> string) \<Rightarrow> bool \<Rightarrow> string \<Rightarrow> int64 \<Rightarrow> http_request \<Rightarrow> request_info \<Rightarrow>
    int \<Rightarrow> result \<times> HttpError option \<Rightarrow> logger \<Rightarrow> logger" where
  "wrapper_log env henv fmt enableXff requestID ver req ri ms = (\<lambda>(result, err) lg.
     case err of
       Some e \<Rightarrow>
         requestLog env enableXff requestID ver req ri (Status e) ms 0 (errorLog env enableXff requestID req ri (Status e) (Message e) lg)
     | None \<Rightarrow>
         if result = RNil then requestLog env enableXff requestID ver req ri 200 ms 0 lg
         else requestLog env enableXff requestID ver req ri 200 ms (snd (respondSuccess henv req result))
                (if IsDebugEnable lg then log_Debug env (tabbed [requestID, ''RESP'', fmt result]) lg else lg))"

section \<open>What is written\<close>

lemma entry_log_keeps [simp]: "lgLevel (entry_log env lvl msg lg) = lgLevel lg" "lgTag (entry_log env lvl msg lg) = lgTag lg"
  by (simp_all add: entry_log_def)

lemma entry_log_out:
  "lgOut (entry_log env lvl msg lg) = lgOut lg @ (if lvl \<le> lgLevel lg then LogFormatter_Format env (lgTag lg) lvl msg else '''')"
  by (simp add: entry_log_def)

lemmas log_defs = log_Debug_def log_Info_def log_Warning_def log_Error_def requestLog_def errorLog_def

text \<open>
  The log of a request ends with its access line when informational messages are enabled, and shows an error before that: as an error
  for a server error, as a warning otherwise; the log only grows.
\<close>

lemma wrapper_log_lines:
  assumes "InfoLevel \<le> lgLevel lg"
  shows "lgOut (wrapper_log env henv fmt xff rid ver req ri ms (result, err) lg) = lgOut lg @
    (case err of
       Some e \<Rightarrow> LogFormatter_Format env (lgTag lg) (if Status e = 500 then ErrorLevel else WarnLevel)
         (tabbed [''ERR'', rid, rqMethod req, requestIP xff req, riURI ri, show_int (riContentLength ri), show_nat (Status e), Message e])
     | None \<Rightarrow>
         if result \<noteq> RNil \<and> IsDebugEnable lg
         then LogFormatter_Format env (lgTag lg) DebugLevel (tabbed [rid, ''RESP'', fmt result]) else '''') @
    LogFormatter_Format env (lgTag lg) InfoLevel
      (tabbed [rid, show_int (sint ver), rqMethod req, requestIP xff req, riURL ri, show_int (riContentLength ri),
         show_nat (case err of None \<Rightarrow> 200 | Some e \<Rightarrow> Status e), show_int ms,
         show_nat (if err = None \<and> result \<noteq> RNil then snd (respondSuccess henv req result) else 0)])"
proof -
  have "ErrorLevel \<le> lgLevel lg" "WarnLevel \<le> lgLevel lg" using assms by (simp_all add: less_eq_level_def)
  then show ?thesis
    using assms by (cases err) (simp_all add: wrapper_log_def log_defs entry_log_out IsDebugEnable_def)
qed

end
