(* ===== verification/Etcd.thy ===== *)
theory Etcd
  imports MetaRepo Json
begin

text \<open>
  \<^verbatim>\<open>backends/etcdv3/client.go\<close>: the backend that keeps data, mappings and access rules in etcd, under
  three prefixes.  The etcd service is a parameter: a record of the calls the client makes, on a
  state \<open>'e\<close> of the service.  A read returns the key-value pairs or an error, a write an error or none.
\<close>

section \<open>The service\<close>

datatype etcd_op = ETPut string string | ETDelete string bool

text \<open>The flag of \<open>api_Get\<close>, \<open>api_Delete\<close> and \<open>ETDelete\<close> is the option \<^verbatim>\<open>WithPrefix()\<close>.\<close>

record 'e etcd_api =
  api_Get :: "string \<Rightarrow> bool \<Rightarrow> 'e \<Rightarrow> error + (string \<times> string) list"
  api_Put :: "string \<Rightarrow> string \<Rightarrow> 'e \<Rightarrow> error option \<times> 'e"
  api_Delete :: "string \<Rightarrow> bool \<Rightarrow> 'e \<Rightarrow> error option \<times> 'e"
  api_Txn :: "etcd_op list \<Rightarrow> 'e \<Rightarrow> error option \<times> 'e"

section \<open>The client\<close>

definition SELF_MAPPING_PATH :: string where
  "SELF_MAPPING_PATH = ''/_metad/mapping''"

definition RULE_PATH :: string where
  "RULE_PATH = ''/_metad/rule''"

definition MaxOpsPerTxn :: nat where
  "MaxOpsPerTxn = 128"

record etcdClient =
  ePrefix :: string
  mappingPrefix :: string
  rulePrefix :: string

text \<open>
  The configuration handed to the etcd library.  Reading and parsing certificate files and opening
  the connection are calls of the runtime and of that library: they are the fields of \<open>etcd_env\<close>.
\<close>

record 'cert etcd_config =
  Endpoints :: "string list"
  cfgUsername :: string
  cfgPassword :: string
  RootCAs :: "string option"
  Certificates :: "'cert list"

record 'cert etcd_env =
  ReadFile :: "string \<Rightarrow> error + string"
  AppendCertsFromPEM :: "string \<Rightarrow> bool"
  LoadX509KeyPair :: "string \<Rightarrow> string \<Rightarrow> error + 'cert"
  client_New :: "'cert etcd_config \<Rightarrow> error option"

definition NewEtcdClient :: "'cert etcd_env \<Rightarrow> string \<Rightarrow> string \<Rightarrow> string list \<Rightarrow> string \<Rightarrow> string \<Rightarrow> string
    \<Rightarrow> bool \<Rightarrow> string \<Rightarrow> string \<Rightarrow> error + etcdClient" where
  "NewEtcdClient env group0 prefix0 machines cert key caCert basicAuth username password =
     (let cfg0 = \<lparr>Endpoints = machines, cfgUsername = (if basicAuth then username else ''''),
                  cfgPassword = (if basicAuth then password else ''''), RootCAs = None, Certificates = []\<rparr>
      in case (if caCert \<noteq> '''' then
                 (case ReadFile env caCert of
                    Inl err \<Rightarrow> Inl err
                  | Inr certBytes \<Rightarrow>
                      Inr (if AppendCertsFromPEM env certBytes then cfg0\<lparr>RootCAs := Some certBytes\<rparr> else cfg0))
               else Inr cfg0) of
           Inl err \<Rightarrow> Inl err
         | Inr cfg1 \<Rightarrow>
             (case (if cert \<noteq> '''' \<and> key \<noteq> '''' then
                      (case LoadX509KeyPair env cert key of
                         Inl err \<Rightarrow> Inl err | Inr tlsCert \<Rightarrow> Inr (cfg1\<lparr>Certificates := [tlsCert]\<rparr>))
                    else Inr cfg1) of
                Inl err \<Rightarrow> Inl err
              | Inr cfg2 \<Rightarrow>
                  (case client_New env cfg2 of
                     Some err \<Rightarrow> Inl err
                   | None \<Rightarrow> Inr \<lparr>ePrefix = prefix0, mappingPrefix = path_Join [SELF_MAPPING_PATH, group0],
                                 rulePrefix = path_Join [RULE_PATH, group0]\<rparr>)))"

section \<open>Reading\<close>

definition handleGetResp :: "string \<Rightarrow> (string \<times> string) list \<Rightarrow> (string, string) gomap \<Rightarrow> (string, string) gomap" where
  "handleGetResp prefix0 kvs vars =
     fold (\<lambda>(key, value) vars.
       if (prefix0 = '''' \<or> prefix0 = ''/'') \<and> strings_HasPrefix key SELF_MAPPING_PATH then vars
       else AList.update (TrimPathPrefix key prefix0) value vars) kvs vars"

definition etcd_internalGets :: "'e etcd_api \<Rightarrow> string \<Rightarrow> string \<Rightarrow> 'e \<Rightarrow> error + (string, string) gomap" where
  "etcd_internalGets api prefix0 nodePath e =
     (case api_Get api (AppendPathPrefix nodePath prefix0) True e of
        Inl err \<Rightarrow> Inl err
      | Inr kvs \<Rightarrow> Inr (handleGetResp prefix0 kvs []))"

definition etcd_internalGet :: "'e etcd_api \<Rightarrow> string \<Rightarrow> string \<Rightarrow> 'e \<Rightarrow> error + string" where
  "etcd_internalGet api prefix0 nodePath e =
     (case api_Get api (AppendPathPrefix nodePath prefix0) False e of
        Inl err \<Rightarrow> Inl err
      | Inr kvs \<Rightarrow> if length kvs = 0 then Inr '''' else Inr (snd (kvs ! 0)))"

text \<open>\<^verbatim>\<open>Get\<close> and \<^verbatim>\<open>GetMapping\<close> differ in the prefix only; \<^verbatim>\<open>Expand\<close> may panic.\<close>

definition get_value :: "'e etcd_api \<Rightarrow> string \<Rightarrow> string \<Rightarrow> bool \<Rightarrow> 'e \<Rightarrow> panic + (error + goval)" where
  "get_value api prefix0 nodePath dir e =
     (if dir then
        (case etcd_internalGets api prefix0 nodePath e of
           Inl err \<Rightarrow> Inr (Inl err)
         | Inr m \<Rightarrow> (case Expand m nodePath of Inl p \<Rightarrow> Inl p | Inr v \<Rightarrow> Inr (Inr (VMap v))))
      else Inr (map_sum id VStr (etcd_internalGet api prefix0 nodePath e)))"

definition etcd_Get :: "'e etcd_api \<Rightarrow> etcdClient \<Rightarrow> string \<Rightarrow> bool \<Rightarrow> 'e \<Rightarrow> panic + (error + goval)" where
  "etcd_Get api c nodePath dir e = get_value api (ePrefix c) nodePath dir e"

definition etcd_GetMapping :: "'e etcd_api \<Rightarrow> etcdClient \<Rightarrow> string \<Rightarrow> bool \<Rightarrow> 'e \<Rightarrow> panic + (error + goval)" where
  "etcd_GetMapping api c nodePath dir e = get_value api (mappingPrefix c) nodePath dir e"

definition etcd_GetAccessRule :: "'e etcd_api \<Rightarrow> etcdClient \<Rightarrow> 'e \<Rightarrow> error + (string, AccessRule list) gomap" where
  "etcd_GetAccessRule api c e =
     (case etcd_internalGets api (rulePrefix c) ''/'' e of
        Inl err \<Rightarrow> Inl err
      | Inr m \<Rightarrow>
          Inr (fold (\<lambda>(k, v) result.
            let (rules, err) = UnmarshalAccessRule v
            in if err then result else AList.update (snd (path_Split k)) rules result) m []))"

section \<open>Deleting\<close>

text \<open>
  The deletion of everything below \<^verbatim>\<open>/\<close>, which spares the configuration of metad itself; the loop
  over the map of the first path components collects the operations of one transaction.
\<close>

definition root_ops :: "(string \<times> goval) list \<Rightarrow> etcd_op list" where
  "root_ops m2 =
     concat (map (\<lambda>(k, v). if k = ''_metad'' then [] else [ETDelete (path_Join [''/'', k]) (is_map v)]) m2)"

definition delete_root :: "'e etcd_api \<Rightarrow> 'e call" where
  "delete_root api e =
     (case etcd_internalGets api '''' ''/'' e of
        Inl gerr \<Rightarrow> (Inr (Some gerr), e)
      | Inr m \<Rightarrow>
          (case Expand m ''/'' of
             Inl p \<Rightarrow> (Inl p, e)
           | Inr m2 \<Rightarrow>
               if length (root_ops m2) \<noteq> 0 then (let (err, e') = api_Txn api (root_ops m2) e in (Inr err, e'))
               else (Inr None, e)))"

definition etcd_internalDelete :: "'e etcd_api \<Rightarrow> string \<Rightarrow> string \<Rightarrow> bool \<Rightarrow> 'e call" where
  "etcd_internalDelete api prefix0 nodePath0 dir e =
     (let nodePath = AppendPathPrefix nodePath0 prefix0
      in if dir then
           (if nodePath = '''' then (Inl (Panic ''index out of range''), e)
            else
              let nodePath' = (if last nodePath \<noteq> CHR ''/'' then nodePath @ ''/'' else nodePath)
              in if nodePath' = ''/'' then delete_root api e
                 else (let (err, e') = api_Delete api nodePath' True e in (Inr err, e')))
         else (let (err, e') = api_Delete api nodePath False e in (Inr err, e')))"

section \<open>Writing\<close>

text \<open>The loop that commits the operations in transactions of at most \<open>MaxOpsPerTxn\<close>.\<close>

function commit_loop :: "'e etcd_api \<Rightarrow> etcd_op list \<Rightarrow> 'e \<Rightarrow> error option \<times> 'e" where
  "commit_loop api ops e =
     (if length ops > MaxOpsPerTxn then
        (case api_Txn api (take MaxOpsPerTxn ops) e of
           (Some err, e') \<Rightarrow> (Some err, e')
         | (None, e') \<Rightarrow> commit_loop api (drop MaxOpsPerTxn ops) e')
      else api_Txn api ops e)"
  by pat_completeness auto
termination by (relation "measure (\<lambda>(api, ops, e). length ops)") (auto simp: MaxOpsPerTxn_def)

declare commit_loop.simps [simp del]

definition put_ops :: "string \<Rightarrow> (string, string) gomap \<Rightarrow> etcd_op list" where
  "put_ops new_prefix values = map (\<lambda>(k, v). ETPut (AppendPathPrefix k new_prefix) v) values"

text \<open>The error of the deletion that precedes a replacing put is ignored.\<close>

definition etcd_internalPutValues ::
    "'e etcd_api \<Rightarrow> string \<Rightarrow> string \<Rightarrow> (string, string) gomap \<Rightarrow> bool \<Rightarrow> 'e call" where
  "etcd_internalPutValues api prefix0 nodePath values replace e =
     (let new_prefix = AppendPathPrefix nodePath prefix0
      in case (if replace then etcd_internalDelete api prefix0 nodePath True e else (Inr None, e)) of
           (Inl p, e') \<Rightarrow> (Inl p, e')
         | (Inr _, e') \<Rightarrow> (let (err, e'') = commit_loop api (put_ops new_prefix values) e' in (Inr err, e'')))"

definition etcd_internalPutValue :: "'e etcd_api \<Rightarrow> string \<Rightarrow> string \<Rightarrow> string \<Rightarrow> 'e call" where
  "etcd_internalPutValue api prefix0 nodePath value e =
     (let (err, e') = api_Put api (AppendPathPrefix nodePath prefix0) value e in (Inr err, e'))"

definition etcd_internalPut :: "'e etcd_api \<Rightarrow> string \<Rightarrow> string \<Rightarrow> goval \<Rightarrow> bool \<Rightarrow> 'e call" where
  "etcd_internalPut api prefix0 nodePath value replace e =
     (let putFlat = (case Flatten value of
           Inl p \<Rightarrow> (Inl p, e)
         | Inr flatValues \<Rightarrow> etcd_internalPutValues api prefix0 nodePath flatValues replace e)
      in case value of
           VMap _ \<Rightarrow> putFlat
         | VSlice _ \<Rightarrow> putFlat
         | VStr t \<Rightarrow> etcd_internalPutValue api prefix0 nodePath t e
         | _ \<Rightarrow> etcd_internalPutValue api prefix0 nodePath (sprint_v value) e)"


definition etcd_Put :: "'e etcd_api \<Rightarrow> etcdClient \<Rightarrow> string \<Rightarrow> goval \<Rightarrow> bool \<Rightarrow> 'e call" where
  "etcd_Put api c nodePath value replace e = etcd_internalPut api (ePrefix c) nodePath value replace e"

definition etcd_Delete :: "'e etcd_api \<Rightarrow> etcdClient \<Rightarrow> string \<Rightarrow> bool \<Rightarrow> 'e call" where
  "etcd_Delete api c nodePath dir e = etcd_internalDelete api (ePrefix c) nodePath dir e"

definition etcd_PutMapping :: "'e etcd_api \<Rightarrow> etcdClient \<Rightarrow> string \<Rightarrow> goval \<Rightarrow> bool \<Rightarrow> 'e call" where
  "etcd_PutMapping api c nodePath mapping replace e = etcd_internalPut api (mappingPrefix c) nodePath mapping replace e"

definition etcd_DeleteMapping :: "'e etcd_api \<Rightarrow> etcdClient \<Rightarrow> string \<Rightarrow> bool \<Rightarrow> 'e call" where
  "etcd_DeleteMapping api c nodePath dir e =
     etcd_internalDelete api (mappingPrefix c) (path_Join [''/'', nodePath]) dir e"

definition etcd_PutAccessRule :: "'e etcd_api \<Rightarrow> etcdClient \<Rightarrow> (string, AccessRule list) gomap \<Rightarrow> 'e call" where
  "etcd_PutAccessRule api c rules e =
     etcd_internalPutValues api (rulePrefix c) ''/'' (map (\<lambda>(k, v). (k, MarshalAccessRule v)) rules) False e"

fun etcd_DeleteAccessRule :: "'e etcd_api \<Rightarrow> etcdClient \<Rightarrow> string list \<Rightarrow> 'e call" where
  "etcd_DeleteAccessRule api c [] e = (Inr None, e)"
| "etcd_DeleteAccessRule api c (host # hosts) e =
     (if host = '''' then etcd_DeleteAccessRule api c hosts e
      else case etcd_internalDelete api (rulePrefix c) (path_Join [''/'', host]) False e of
        (Inl p, e') \<Rightarrow> (Inl p, e')
      | (Inr (Some err), e') \<Rightarrow> (Inr (Some err), e')
      | (Inr None, e') \<Rightarrow> etcd_DeleteAccessRule api c hosts e')"

text \<open>The backend interface as etcd implements it.\<close>

definition etcd_storeClient :: "'e etcd_api \<Rightarrow> etcdClient \<Rightarrow> 'e storeClient" where
  "etcd_storeClient api c =
     \<lparr>cl_Put = etcd_Put api c, cl_Delete = etcd_Delete api c, cl_PutMapping = etcd_PutMapping api c,
      cl_DeleteMapping = etcd_DeleteMapping api c, cl_PutAccessRule = etcd_PutAccessRule api c,
      cl_DeleteAccessRule = etcd_DeleteAccessRule api c\<rparr>"

section \<open>Synchronisation\<close>

datatype etcd_event_type = ET_PUT | ET_DELETE | ET_OTHER

record etcd_event =
  evType :: etcd_event_type
  evKey :: string
  evVal :: string

text \<open>The two functions \<^verbatim>\<open>Sync\<close> and \<^verbatim>\<open>SyncMapping\<close> pass to \<^verbatim>\<open>internalSync\<close>, on the store they fill.\<close>

definition newInitStoreFunc :: "'e etcd_api \<Rightarrow> string \<Rightarrow> 'e \<Rightarrow> store \<Rightarrow> error option \<times> (panic + unit) \<times> store" where
  "newInitStoreFunc api prefix0 e s =
     (case etcd_internalGets api prefix0 ''/'' e of
        Inl err \<Rightarrow> (Some err, Inr (), s)
      | Inr val \<Rightarrow> (None, store_PutBulk ''/'' val s))"

definition newProcessSyncChangeFunc :: "etcd_event_type \<Rightarrow> string \<Rightarrow> string \<Rightarrow> store \<Rightarrow> (panic + unit) \<times> store" where
  "newProcessSyncChangeFunc ty nodePath value s =
     (case ty of
        ET_PUT \<Rightarrow> store_Put nodePath (VStr value) s
      | ET_DELETE \<Rightarrow> (Inr (), store_Delete nodePath s)
      | ET_OTHER \<Rightarrow> store_Put nodePath (VStr value) s)"

text \<open>The two functions of \<^verbatim>\<open>SyncAccessRule\<close>; the rules are put even when they could not be decoded.\<close>

definition initAccessRule :: "'e etcd_api \<Rightarrow> etcdClient \<Rightarrow> 'e \<Rightarrow> accessStore \<Rightarrow> error option \<times> accessStore" where
  "initAccessRule api c e acc =
     (case etcd_GetAccessRule api c e of
        Inl err \<Rightarrow> (Some err, acc)
      | Inr val \<Rightarrow> (None, accessStore_Puts val acc))"

definition processAccessRule :: "etcd_event_type \<Rightarrow> string \<Rightarrow> string \<Rightarrow> accessStore \<Rightarrow> accessStore" where
  "processAccessRule ty nodePath value acc =
     (let host = snd (path_Split nodePath)
      in case ty of
           ET_PUT \<Rightarrow> accessStore_Put host (fst (UnmarshalAccessRule value)) acc
         | ET_DELETE \<Rightarrow> accessStore_Delete host acc
         | ET_OTHER \<Rightarrow> acc)"

text \<open>
  The events of one watch response, in order; with the prefix \<^verbatim>\<open>/\<close> the configuration of metad itself
  is skipped.
\<close>

definition skip_config :: "string \<Rightarrow> string \<Rightarrow> bool" where
  "skip_config prefix0 key \<longleftrightarrow> (prefix0 = '''' \<or> prefix0 = ''/'') \<and>
     (strings_HasPrefix key SELF_MAPPING_PATH \<or> strings_HasPrefix key RULE_PATH)"

definition process_events :: "string \<Rightarrow> (etcd_event_type \<Rightarrow> string \<Rightarrow> string \<Rightarrow> 't \<Rightarrow> 't) \<Rightarrow> etcd_event list \<Rightarrow> 't \<Rightarrow> 't" where
  "process_events prefix0 processChange evs t =
     fold (\<lambda>ev t. if skip_config prefix0 (evKey ev) then t
                  else processChange (evType ev) (TrimPathPrefix (evKey ev) prefix0) (evVal ev) t) evs t"

text \<open>
  \<^verbatim>\<open>internalSync\<close> as a state machine.  \<open>sPhase\<close> is the place in the code: at the head of the outer loop, in
  the loop that initialises the store, receiving from the watch channel, or returned.  \<open>sDone\<close> counts
  the calls of \<^verbatim>\<open>initWG.Done()\<close>, \<open>sRev\<close> is the revision the next watch starts from.
\<close>

datatype sync_phase = SLoop | SInit | SRecv | SExit

record 't syncState =
  sPhase :: sync_phase
  sRev :: int64
  sInited :: bool
  sStop :: bool
  sDone :: nat
  sTo :: 't

definition sync_start :: "'t \<Rightarrow> 't syncState" where
  "sync_start t = \<lparr>sPhase = SLoop, sRev = 0, sInited = False, sStop = False, sDone = 0, sTo = t\<rparr>"

text \<open>
  \<open>initFn\<close> relates the store to the stores a successful initialisation may leave; what it reads is
  the state of etcd at that moment.  A failed one changes nothing.
\<close>

inductive etcd_sync :: "string \<Rightarrow> ('t \<Rightarrow> 't \<Rightarrow> bool) \<Rightarrow> (etcd_event_type \<Rightarrow> string \<Rightarrow> string \<Rightarrow> 't \<Rightarrow> 't) \<Rightarrow>
    't syncState \<Rightarrow> 't syncState \<Rightarrow> bool"
  for prefix0 initFn processChange
  where
  stop: "etcd_sync prefix0 initFn processChange s (s\<lparr>sStop := True\<rparr>)"
| loop_stop: "sPhase s = SLoop \<Longrightarrow> sStop s \<Longrightarrow>
    etcd_sync prefix0 initFn processChange s
      (s\<lparr>sPhase := SExit, sDone := (if \<not> sInited s then sDone s + 1 else sDone s)\<rparr>)"
| no_watch: "sPhase s = SLoop \<Longrightarrow> \<not> sStop s \<Longrightarrow> etcd_sync prefix0 initFn processChange s s"
| watch: "sPhase s = SLoop \<Longrightarrow> \<not> sStop s \<Longrightarrow>
    etcd_sync prefix0 initFn processChange s (s\<lparr>sPhase := (if sInited s then SRecv else SInit)\<rparr>)"
| init_stop: "sPhase s = SInit \<Longrightarrow> sStop s \<Longrightarrow>
    etcd_sync prefix0 initFn processChange s (s\<lparr>sPhase := SExit, sDone := sDone s + 1\<rparr>)"
| init_fail: "sPhase s = SInit \<Longrightarrow> etcd_sync prefix0 initFn processChange s s"
| init_ok: "sPhase s = SInit \<Longrightarrow> initFn (sTo s) t \<Longrightarrow>
    etcd_sync prefix0 initFn processChange s
      (s\<lparr>sPhase := SRecv, sInited := True, sDone := sDone s + 1, sTo := t\<rparr>)"
| resp: "sPhase s = SRecv \<Longrightarrow>
    etcd_sync prefix0 initFn processChange s
      (s\<lparr>sRev := rv, sTo := process_events prefix0 processChange evs (sTo s)\<rparr>)"
| chan_closed: "sPhase s = SRecv \<Longrightarrow> etcd_sync prefix0 initFn processChange s (s\<lparr>sPhase := SLoop\<rparr>)"

end
