(* ===== verification/Config.thy ===== *)
theory Config
  imports Logging Etcd
begin

text \<open>
  Start-up: the configuration of \<^verbatim>\<open>config.go\<close>, the choice of the backend in \<^verbatim>\<open>backends/client.go\<close>, \<^verbatim>\<open>New\<close> of
  \<^verbatim>\<open>metad.go\<close> and the sequence of \<^verbatim>\<open>main.go\<close>.  Reading files, parsing YAML and writing the process id are
  parameters.
\<close>

section \<open>The configuration\<close>

record Config =
  Backend :: string
  LogLevel :: string
  PIDFile :: string
  EnableXff :: bool
  Prefix :: string
  Listen :: string
  ListenManage :: string
  BasicAuth :: bool
  ClientCaKeys :: string
  ClientCert :: string
  ClientKey :: string
  BackendNodes :: "string list"
  Username :: string
  Password :: string
  Group :: string

definition default_config :: Config where
  "default_config =
     \<lparr>Backend = ''local'', LogLevel = ''info'', PIDFile = '''', EnableXff = False, Prefix = '''', Listen = '':80'',
      ListenManage = ''127.0.0.1:9611'', BasicAuth = False, ClientCaKeys = '''', ClientCert = '''', ClientKey = '''',
      BackendNodes = [], Username = '''', Password = '''', Group = ''default''\<rparr>"

text \<open>
  The variables the flag package writes to, with the defaults of \<^verbatim>\<open>init\<close>; \<^verbatim>\<open>set_flags\<close> are the names that occurred on the
  command line.
\<close>

record flags =
  printVersion :: bool
  pprof :: bool
  configFile :: string
  fvars :: Config
  set_flags :: "string list"

definition default_flags :: flags where
  "default_flags = \<lparr>printVersion = False, pprof = False, configFile = '''', fvars = default_config, set_flags = []\<rparr>"

definition setConfigFromFlag :: "Config \<Rightarrow> string \<Rightarrow> Config \<Rightarrow> Config" where
  "setConfigFromFlag vars name config =
     (if name = ''backend'' then config\<lparr>Backend := Backend vars\<rparr>
      else if name = ''log_level'' then config\<lparr>LogLevel := LogLevel vars\<rparr>
      else if name = ''pid_file'' then config\<lparr>PIDFile := PIDFile vars\<rparr>
      else if name = ''xff'' then config\<lparr>EnableXff := EnableXff vars\<rparr>
      else if name = ''prefix'' then config\<lparr>Prefix := Prefix vars\<rparr>
      else if name = ''group'' then config\<lparr>Group := Group vars\<rparr>
      else if name = ''listen'' then config\<lparr>Listen := Listen vars\<rparr>
      else if name = ''listen_manage'' then config\<lparr>ListenManage := ListenManage vars\<rparr>
      else if name = ''basic_auth'' then config\<lparr>BasicAuth := BasicAuth vars\<rparr>
      else if name = ''client_cert'' then config\<lparr>ClientCert := ClientCert vars\<rparr>
      else if name = ''client_key'' then config\<lparr>ClientKey := ClientKey vars\<rparr>
      else if name = ''client_ca_keys'' then config\<lparr>ClientCaKeys := ClientCaKeys vars\<rparr>
      else if name = ''nodes'' then config\<lparr>BackendNodes := BackendNodes vars\<rparr>
      else if name = ''username'' then config\<lparr>Username := Username vars\<rparr>
      else if name = ''password'' then config\<lparr>Password := Password vars\<rparr>
      else config)"

text \<open>\<^verbatim>\<open>flag.Visit\<close> visits the flags that were set, in lexicographical order.\<close>

definition processFlags :: "flags \<Rightarrow> Config \<Rightarrow> Config" where
  "processFlags fl config = fold (setConfigFromFlag (fvars fl)) (sort (remdups (set_flags fl))) config"

text \<open>The surroundings: files, the YAML library and the writing of the process id.\<close>

record start_env =
  read_config :: "string \<Rightarrow> error + string"
  yaml_Unmarshal :: "string \<Rightarrow> Config \<Rightarrow> error + Config"
  write_pid :: "string \<Rightarrow> error option"

text \<open>\<^verbatim>\<open>log.Fatal\<close> ends the process.\<close>

datatype 'a outcome = Fatal string | Returns 'a

definition loadConfigFile :: "start_env \<Rightarrow> string \<Rightarrow> Config \<Rightarrow> error + Config" where
  "loadConfigFile env file config =
     (case read_config env file of
        Inl err \<Rightarrow> Inl err
      | Inr data \<Rightarrow> yaml_Unmarshal env data config)"

text \<open>
  The level that is set, \<^verbatim>\<open>info\<close> when none is given; the message is that of a name without a percent sign, as it is formatted twice.
\<close>

definition SetLevel :: "string \<Rightarrow> level outcome" where
  "SetLevel lvl =
     (case logrus_ParseLevel lvl of
        Some l \<Rightarrow> Returns l
      | None \<Rightarrow> Fatal (''not a valid level: '' @ quote # lvl @ [quote]))"

definition GetDefaultBackends :: "string \<Rightarrow> string list" where
  "GetDefaultBackends backend = (if backend = ''etcd'' \<or> backend = ''etcdv3'' then [''http://127.0.0.1:2379''] else [])"

definition initConfig :: "start_env \<Rightarrow> flags \<Rightarrow> (error + Config) outcome" where
  "initConfig env fl =
     (case (if configFile fl \<noteq> '''' then loadConfigFile env (configFile fl) default_config else Inr default_config) of
        Inl err \<Rightarrow> Returns (Inl err)
      | Inr config0 \<Rightarrow>
          (let config = processFlags fl config0
           in case (if LogLevel config \<noteq> '''' then SetLevel (LogLevel config) else Returns InfoLevel) of
                Fatal msg \<Rightarrow> Fatal msg
              | Returns _ \<Rightarrow>
                  (case (if PIDFile config \<noteq> '''' then write_pid env (PIDFile config) else None) of
                     Some err \<Rightarrow> Fatal (''Failed to write pid file '' @ PIDFile config @ '': '' @ err)
                   | None \<Rightarrow>
                       Returns (Inr (if BackendNodes config = []
                                     then config\<lparr>BackendNodes := GetDefaultBackends (Backend config)\<rparr> else config)))))"

section \<open>The backend\<close>

datatype backend_client = EtcdBackend etcdClient | LocalBackendClient localClient

definition backends_New :: "'cert etcd_env \<Rightarrow> Config \<Rightarrow> error + backend_client" where
  "backends_New env config0 =
     (let config1 = (if Backend config0 = '''' then config0\<lparr>Backend := ''etcdv3''\<rparr> else config0);
          config2 = (if Group config1 = '''' then config1\<lparr>Group := ''default''\<rparr> else config1);
          config = config2\<lparr>Prefix := path_Join [''/'', Prefix config2]\<rparr>;
          backendNodes = (if BackendNodes config = [] then GetDefaultBackends (Backend config) else BackendNodes config)
      in if Backend config = ''etcd'' \<or> Backend config = ''etcdv3''
         then map_sum id EtcdBackend (NewEtcdClient env (Group config) (Prefix config) backendNodes (ClientCert config) (ClientKey config)
                (ClientCaKeys config) (BasicAuth config) (Username config) (Password config))
         else if Backend config = ''local'' then Inr (LocalBackendClient NewLocalClient)
         else Inl ''Invalid backend'')"

text \<open>\<^verbatim>\<open>New\<close> of \<^verbatim>\<open>metad.go\<close>: the server over the chosen client, with a fresh repository.\<close>

definition metad_New :: "'cert etcd_env \<Rightarrow> Config \<Rightarrow> error + backend_client metad" where
  "metad_New env config =
     (case backends_New env config of
        Inl err \<Rightarrow> Inl err
      | Inr c \<Rightarrow>
          Inr \<lparr>mEnableXff = EnableXff config, mRepo = newMetadataRepo, mClient = c, mTimerPool = NewTimerPool, mRequestIDGen = 0\<rparr>)"

section \<open>main\<close>

text \<open>
  How far \<^verbatim>\<open>main\<close> gets.  With \<^verbatim>\<open>pprof\<close> the argument \<^verbatim>\<open>http.ListenAndServe("127.0.0.1:6060", nil)\<close> of the \<^verbatim>\<open>go\<close> statement is evaluated
  before the goroutine starts, and that call returns only with an error, with which \<^verbatim>\<open>log.Fatal\<close> then ends the process;
  \<open>listen_pprof\<close> is that error, if it comes.
\<close>

datatype main_state = PrintedVersion | InPprof | Died string | Serving Config "backend_client metad"

definition main :: "start_env \<Rightarrow> 'cert etcd_env \<Rightarrow> error option \<Rightarrow> flags \<Rightarrow> main_state" where
  "main env cenv listen_pprof fl =
     (if printVersion fl then PrintedVersion
      else if pprof fl then (case listen_pprof of None \<Rightarrow> InPprof | Some err \<Rightarrow> Died err)
      else case initConfig env fl of
        Fatal msg \<Rightarrow> Died msg
      | Returns (Inl err) \<Rightarrow> Died err
      | Returns (Inr config) \<Rightarrow>
          (case metad_New cenv config of
             Inl err \<Rightarrow> Died err
           | Inr m \<Rightarrow> Serving config m))"

end
