(* ===== verification/Json_Props.thy ===== *)
theory Json_Props
  imports Json
begin

text \<open>Access rules survive the trip through their JSON text.\<close>

section \<open>Strings\<close>

lemma rune_len_le: "rune_len s \<le> length s"
  by (cases s) (auto simp: rune_len.simps)

lemma rune_len_prefix: "rune_len s = n \<Longrightarrow> 0 < n \<Longrightarrow> rune_len (take n s @ t) = n"
proof (cases s)
  case (Cons a r)
  assume n: "rune_len s = n" "0 < n"
  have l: "n \<le> length s" using rune_len_le n by blast
  consider "code a < 128" | "n = 2" "length r \<ge> 1" | "n = 3" "length r \<ge> 2" | "n = 4" "length r \<ge> 3"
    using n Cons by (auto simp: rune_len.simps split: if_splits)
  then show ?thesis
  proof cases
    case 1
    then have "n = 1" using n Cons by (simp add: rune_len.simps)
    then show ?thesis using 1 Cons by (simp add: rune_len.simps)
  next
    case 2
    then obtain b r' where "r = b # r'" by (cases r) auto
    with 2 n Cons show ?thesis by (simp add: rune_len.simps numeral_2_eq_2 split: if_splits)
  next
    case 3
    then obtain b c r' where "r = b # c # r'" by (metis Suc_le_length_iff numeral_2_eq_2)
    with 3 n Cons show ?thesis by (simp add: rune_len.simps numeral_3_eq_3 split: if_splits)
  next
    case 4
    then obtain b c d r' where "r = b # c # d # r'" by (metis Suc_le_length_iff numeral_3_eq_3)
    with 4 n Cons show ?thesis by (simp add: rune_len.simps numeral_eq_Suc split: if_splits)
  qed
qed (simp add: rune_len.simps)

lemma hexval_hexdigit: "d < 16 \<Longrightarrow> hexval (hexdigit d) = Some d"
  by (auto simp: hexval_def hexdigit_def between_def)

lemma hexval_consts: "hexval (CHR ''0'') = Some 0" "hexval (CHR ''2'') = Some 2" "hexval (CHR ''f'') = Some 15" "hexval (CHR ''d'') = Some 13"
  by (simp_all add: hexval_def between_def)

lemma hex4_00: "a < 16 \<Longrightarrow> b < 16 \<Longrightarrow> hex4 (CHR ''0'' # CHR ''0'' # hexdigit a # hexdigit b # r) = Some (16 * a + b, r)"
  by (simp add: hex4_def hexval_hexdigit hexval_consts)

lemma hex4_202: "a < 16 \<Longrightarrow> hex4 (CHR ''2'' # CHR ''0'' # CHR ''2'' # hexdigit a # r) = Some (8224 + a, r)"
  by (simp add: hex4_def hexval_hexdigit hexval_consts)

lemma hex4_fffd: "hex4 (CHR ''f'' # CHR ''f'' # CHR ''f'' # CHR ''d'' # r) = Some (65533, r)"
  by (simp add: hex4_def hexval_consts)

lemma unit_plain: "x < 55296 \<or> 57343 < x \<Longrightarrow> unit x r = (utf8 x, r)"
  by (simp add: unit_def)

lemma p_str_u: "hex4 r = Some (x, r1) \<Longrightarrow> x < 55296 \<or> 57343 < x \<Longrightarrow>
    p_str (backslash # CHR ''u'' # r) = map_option (apfst ((@) (utf8 x))) (p_str r1)"
  by (simp add: p_str.simps unit_plain)

lemma append_Cons_fun: "(@) [c] = (#) c"
  by (simp add: fun_eq_iff)

lemma p_str_esc_ascii:
  assumes "code c < 128"
  shows "p_str (esc_ascii c @ r) = map_option (apfst ((#) c)) (p_str r)"
proof -
  have u: "p_str (backslash # CHR ''u'' # CHR ''0'' # CHR ''0'' # hexdigit (code c div 16) # hexdigit (code c mod 16) # r)
      = map_option (apfst ((#) c)) (p_str r)"
  proof -
    have "code c div 16 < 16" using assms by simp
    then have "hex4 (CHR ''0'' # CHR ''0'' # hexdigit (code c div 16) # hexdigit (code c mod 16) # r) = Some (code c, r)"
      by (simp add: hex4_00)
    from p_str_u [OF this] show ?thesis using assms by (simp add: utf8_def append_Cons_fun)
  qed
  have b: "p_str (backslash # e # r) = map_option (apfst ((#) d)) (p_str r)"
    if "simple_escape e = Some d" "e \<noteq> CHR ''u''" for e d
    using that by (simp add: p_str.simps)
  have s: "simple_escape quote = Some quote" "simple_escape backslash = Some backslash"
    "simple_escape (CHR ''n'') = Some (CHR 0x0A)" "simple_escape (CHR ''r'') = Some (CHR 0x0D)"
    "simple_escape (CHR ''t'') = Some (CHR 0x09)"
    by (simp_all add: simple_escape_def)
  have p: "p_str (c # r) = map_option (apfst ((#) c)) (p_str r)"
    if "c \<noteq> quote" "c \<noteq> backslash" "\<not> code c < 32"
    using that assms by (simp add: p_str.simps rune_len.simps append_Cons_fun)
  let ?simple = "\<lambda>c. c = quote \<or> c = backslash \<or> c = CHR 0x0A \<or> c = CHR 0x0D \<or> c = CHR 0x09"
  let ?long = "\<lambda>c. code c < 32 \<or> c = CHR ''<'' \<or> c = CHR ''>'' \<or> c = CHR ''&''"
  consider "?simple c" | "\<not> ?simple c" "?long c" | "\<not> ?simple c" "\<not> ?long c" by blast
  then show ?thesis
  proof cases
    case 1
    then show ?thesis using b s by (auto simp: esc_ascii_def)
  next
    case 2
    then have "esc_ascii c = [backslash, CHR ''u'', CHR ''0'', CHR ''0'', hexdigit (code c div 16), hexdigit (code c mod 16)]"
      unfolding esc_ascii_def by presburger
    then show ?thesis using u by simp
  next
    case 3
    then have "esc_ascii c = [c]" unfolding esc_ascii_def by presburger
    then show ?thesis using 3 p by simp
  qed
qed

lemma utf8_consts: "utf8 65533 = replacement"
  by (simp add: utf8_def replacement_def)

lemma utf8_line_sep: "a = 8 \<or> a = 9 \<Longrightarrow> utf8 (8224 + a) = [char_of (226::nat), char_of (128::nat), char_of (160 + a)]"
  by (auto simp: utf8_def)

lemma line_sep_cases:
  assumes "line_sep (c # cs)"
  shows "\<exists>a r. (a = 8 \<or> a = 9) \<and> cs = char_of (128::nat) # char_of (160 + a) # r \<and> code (cs ! 1) mod 16 = a
    \<and> utf8 (8224 + a) = [c, cs ! 0, cs ! 1] \<and> rune_len (c # cs) = 3"
proof -
  have "take 3 (c # cs) = utf8 (8224 + 8) \<or> take 3 (c # cs) = utf8 (8224 + 9)" using assms by (simp add: line_sep_def)
  then obtain a :: nat where a: "a = 8 \<or> a = 9" "take 3 (c # cs) = utf8 (8224 + a)" by blast
  note u = utf8_line_sep [OF a(1)]
  obtain b d r where cs: "cs = b # d # r"
    using a(2) unfolding u by (cases cs; cases "tl cs") (auto simp: numeral_3_eq_3)
  with a(2) have e: "c = char_of (226::nat)" "b = char_of (128::nat)" "d = char_of (160 + a)"
    unfolding u by (simp_all add: numeral_3_eq_3)
  then have "rune_len (c # cs) = 3" using a(1) cs by (auto simp: rune_len.simps between_def)
  moreover have "(160 + a) mod 16 = a" using a(1) by auto
  ultimately show ?thesis using a(1) e cs u by (intro exI [of _ a] exI [of _ r]) simp
qed

lemma p_str_enc: "p_str (enc_str s @ quote # r) = Some (sanitize s, r)"
proof (induction s rule: enc_str.induct)
  case 1
  then show ?case by (simp add: p_str.simps)
next
  case (2 c cs)
  let ?n = "rune_len (c # cs)"
  consider "code c < 128" | "\<not> code c < 128" "?n = 0"
    | "\<not> code c < 128" "?n \<noteq> 0" "line_sep (c # cs)"
    | "\<not> code c < 128" "?n \<noteq> 0" "\<not> line_sep (c # cs)" by blast
  then show ?case
  proof cases
    case 1
    then show ?thesis using 2(1) p_str_esc_ascii [OF 1] by (simp add: rune_len.simps)
  next
    case b: 2
    then show ?thesis using 2(2) hex4_fffd p_str_u utf8_consts by simp
  next
    case b: 3
    then obtain a r' where a: "a = 8 \<or> a = 9" "cs = char_of (128::nat) # char_of (160 + a) # r'" "code (cs ! 1) mod 16 = a"
      "utf8 (8224 + a) = [c, cs ! 0, cs ! 1]" "?n = 3"
      using line_sep_cases by blast
    have "p_str (backslash # CHR ''u'' # CHR ''2'' # CHR ''0'' # CHR ''2'' # hexdigit a # enc_str r' @ quote # r)
        = map_option (apfst ((@) (utf8 (8224 + a)))) (p_str (enc_str r' @ quote # r))"
      using a(1) by (intro p_str_u hex4_202) auto
    moreover have "(160 + a) mod 16 = a" using a(1) by auto
    ultimately show ?thesis using 2(3) b a by simp
  next
    case b: 4
    have c: "\<not> code c < 32" "c \<noteq> quote" "c \<noteq> backslash" using b(1) by auto
    let ?t = "enc_str (drop (?n - 1) cs) @ quote # r"
    have n: "rune_len (take ?n (c # cs) @ ?t) = ?n" using rune_len_prefix b(2) by blast
    obtain m where m: "?n = Suc m" using b(2) by (cases ?n) auto
    have l: "m \<le> length cs" using rune_len_le [of "c # cs"] m by simp
    have "p_str (take ?n (c # cs) @ ?t) = map_option (apfst ((@) (take ?n (c # cs)))) (p_str ?t)"
      using n c m l by (simp add: p_str.simps)
    then show ?thesis using 2(4) b by simp
  qed
qed


section \<open>Numbers\<close>

lemma show_nat_hd: "hd (show_nat n) = CHR ''0'' \<Longrightarrow> n = 0"
proof (induction n rule: show_nat.induct)
  case (1 n)
  show ?case
  proof (cases "n < 10")
    case True
    then have "hd (show_nat n) = char_of (48 + n)" by (simp add: show_nat.simps [of n])
    with "1.prems" have "char_of (48 + n) = (CHR ''0'' :: char)" by simp
    then have "code (char_of (48 + n)) = 48" by simp
    with True show ?thesis by simp
  next
    case False
    then have "hd (show_nat n) = hd (show_nat (n div 10))"
      using show_nat_val [of "n div 10"] by (subst show_nat.simps) simp
    with 1 False show ?thesis by simp
  qed
qed

lemma p_digits_append:
  assumes "list_all is_digit d" and "d \<noteq> []" and "r = [] \<or> \<not> is_digit (hd r)"
  shows "p_digits (d @ r) = Some (d, r)"
proof -
  have "takeWhile is_digit r = []" using assms(3) by (cases r) auto
  then have "takeWhile is_digit (d @ r) = d" using assms(1) by (simp add: list_all_iff takeWhile_append2)
  with assms(2) show ?thesis by (simp add: p_digits_def)
qed

lemma p_int_show_nat:
  assumes "\<not> is_digit c"
  shows "p_int (show_nat n @ c # r) = Some (show_nat n, c # r)"
proof (cases "n = 0")
  case True
  moreover have "show_nat 0 = ''0''" by code_simp
  ultimately show ?thesis by (simp add: p_int_def)
next
  case False
  have "take 1 (show_nat n @ c # r) \<noteq> ''0''"
    using show_nat_hd [of n] show_nat_val [of n] False by (cases "show_nat n") auto
  then show ?thesis
    using p_digits_append [of "show_nat n" "c # r"] show_nat_val [of n] assms by (simp add: p_int_def)
qed

text \<open>The characters that may follow a number.\<close>

definition ends_num :: "char \<Rightarrow> bool" where
  "ends_num c \<longleftrightarrow> \<not> is_digit c \<and> c \<noteq> CHR ''.'' \<and> c \<noteq> CHR ''e'' \<and> c \<noteq> CHR ''E''"

lemma p_num_show_int: "ends_num c \<Longrightarrow> p_num (show_int i @ c # r) = Some (show_int i, c # r)"
proof -
  assume c: "ends_num c"
  have d: "take 1 (show_nat n @ c # r) \<noteq> ''-''" for n
    using show_nat_val [of n] digit_plain [of "show_nat n"] by (cases "show_nat n") auto
  have "p_int (show_nat n @ c # r) = Some (show_nat n, c # r)" for n
    using p_int_show_nat c by (simp add: ends_num_def)
  moreover have "p_frac (c # r) = Some ([], c # r)" "p_exp (c # r) = Some ([], c # r)"
    using c by (simp_all add: p_frac_def p_exp_def ends_num_def)
  ultimately show ?thesis using d by (simp add: p_num_def show_int_def Let_def)
qed

lemma show_int_start:
  "\<exists>c w. show_int i = c # w \<and> (c = CHR ''-'' \<or> is_digit c)"
  using show_nat_val [of "nat i"] by (cases "show_nat (nat i)") (auto simp: show_int_def)


section \<open>Rules\<close>

lemma skip_ws_Cons: "\<not> ws c \<Longrightarrow> skip_ws (c # r) = c # r"
  by simp

lemma ws_consts [simp]: "\<not> ws (CHR ''{'')" "\<not> ws (CHR ''}'')" "\<not> ws (CHR ''['')" "\<not> ws (CHR '']'')" "\<not> ws quote"
  "\<not> ws (CHR '':'')" "\<not> ws (CHR '','')" "\<not> ws (CHR ''-'')"
  by (simp_all add: ws_def)

lemma digit_not_ws: "is_digit c \<Longrightarrow> \<not> ws c \<and> c \<noteq> CHR ''{'' \<and> c \<noteq> CHR ''['' \<and> c \<noteq> quote"
  by (auto simp: ws_def is_digit_def)

lemma p_val_str: "p_val (quote # enc_str s @ quote # r) = Some (JStr (sanitize s), r)"
  by (simp add: p_val.simps p_str_enc)

lemma p_val_int: "ends_num c \<Longrightarrow> p_val (show_int i @ c # r) = Some (JNum (show_int i), c # r)"
proof -
  assume c: "ends_num c"
  obtain a w where a: "show_int i = a # w" "a = CHR ''-'' \<or> is_digit a" using show_int_start by blast
  have "p_num (a # w @ c # r) = Some (a # w, c # r)" using p_num_show_int [OF c, of i r] a by simp
  then show ?thesis using a digit_not_ws [of a] by (auto simp: p_val.simps)
qed

lemma p_str_key: "p_str (k @ quote # r) = Some (k, r)" if "list_all (\<lambda>c. between 35 91 c \<or> between 93 126 c) k" for k
  using that
proof (induction k)
  case (Cons c k)
  then have "c \<noteq> quote" "c \<noteq> backslash" "\<not> code c < 32" "code c < 128" by (auto simp: between_def)
  with Cons show ?case by (simp add: p_str.simps rune_len.simps)
qed (simp add: p_str.simps)

lemma p_str_path: "p_str (CHR ''p'' # CHR ''a'' # CHR ''t'' # CHR ''h'' # quote # r) = Some (''path'', r)"
  using p_str_key [of "''path''" r] by (simp add: between_def)

lemma p_str_mode: "p_str (CHR ''m'' # CHR ''o'' # CHR ''d'' # CHR ''e'' # quote # r) = Some (''mode'', r)"
  using p_str_key [of "''mode''" r] by (simp add: between_def)

lemma p_members_rule:
  "p_members (enc_key ''path'' @ quote # enc_str p @ quote # CHR '','' # enc_key ''mode'' @ show_int i @ CHR ''}'' # r) =
    Some ([(''path'', JStr (sanitize p)), (''mode'', JNum (show_int i))], r)"
proof -
  have e: "ends_num (CHR ''}'')" by (simp add: ends_num_def is_digit_def)
  have "p_members (enc_key ''mode'' @ show_int i @ CHR ''}'' # r) = Some ([(''mode'', JNum (show_int i))], r)"
    using p_val_int [OF e, of i r] by (simp add: enc_key_def p_members.simps [of "_ # _"] p_str_mode)
  then show ?thesis
    using p_val_str [of p "CHR '','' # enc_key ''mode'' @ show_int i @ CHR ''}'' # r"]
    by (simp add: enc_key_def p_members.simps [of "quote # CHR ''p'' # _"] p_str_path)
qed

lemma p_val_rule:
  "p_val (enc_rule x @ r) = Some (JObj [(''path'', JStr (sanitize (rPath x))), (''mode'', JNum (show_int (rMode x)))], r)"
proof -
  let ?m = "enc_key ''path'' @ quote # enc_str (rPath x) @ quote # CHR '','' # enc_key ''mode'' @ show_int (rMode x) @ CHR ''}'' # r"
  have "take 1 (skip_ws ?m) \<noteq> ''}''" by (simp add: enc_key_def)
  then have "p_val (CHR ''{'' # ?m) = map_option (apfst JObj) (p_members ?m)" by (simp add: p_val.simps [of "CHR ''{'' # _"])
  then show ?thesis by (simp add: enc_rule_def p_members_rule)
qed

lemma p_elems_rules:
  "xs \<noteq> [] \<Longrightarrow> p_elems (join_with '','' (map enc_rule xs) @ CHR '']'' # r) =
    Some (map (\<lambda>x. JObj [(''path'', JStr (sanitize (rPath x))), (''mode'', JNum (show_int (rMode x)))]) xs, r)"
proof (induction xs rule: induct_list012)
  case (2 x)
  have "length (CHR '']'' # r) < length (enc_rule x @ CHR '']'' # r)" by (simp add: enc_rule_def)
  then show ?case using p_val_rule [of x "CHR '']'' # r"] by (simp add: p_elems.simps)
next
  case (3 x y zs)
  let ?r = "join_with '','' (map enc_rule (y # zs)) @ CHR '']'' # r"
  have "length (CHR '','' # ?r) < length (enc_rule x @ CHR '','' # ?r)" by (simp add: enc_rule_def)
  then show ?case using 3(2) p_val_rule [of x "CHR '','' # ?r"] by (simp add: p_elems.simps [of "enc_rule x @ _"])
qed simp

lemma join_rules_start: "xs \<noteq> [] \<Longrightarrow> \<exists>w. join_with '','' (map enc_rule xs) = CHR ''{'' # w"
  by (induction xs rule: induct_list012) (auto simp: enc_rule_def)

lemma dec_rule_enc:
  "- (2 ^ 63) \<le> i \<Longrightarrow> i < 2 ^ 63 \<Longrightarrow>
    dec_rule (JObj [(''path'', JStr p), (''mode'', JNum (show_int i))]) = (\<lparr>rPath = p, rMode = i\<rparr>, False)"
proof -
  assume "- (2 ^ 63) \<le> i" "i < 2 ^ 63"
  moreover have "key_is ''path'' ''path''" "\<not> key_is ''path'' ''mode''" "key_is ''mode'' ''mode''"
    by (simp_all add: key_is_def mask_def)
  ultimately show ?thesis by (simp add: dec_rule_def zero_rule_def strconv_Atoi_show_int)
qed

lemma json_parse_rules:
  "json_parse (MarshalAccessRule xs) =
    Some (JArr (map (\<lambda>x. JObj [(''path'', JStr (sanitize (rPath x))), (''mode'', JNum (show_int (rMode x)))]) xs))"
proof (cases "xs = []")
  case True
  then show ?thesis by (simp add: json_parse_def MarshalAccessRule_def p_val.simps)
next
  case False
  obtain w where w: "join_with '','' (map enc_rule xs) = CHR ''{'' # w" using join_rules_start [OF False] by blast
  have "p_elems (CHR ''{'' # w @ '']'') =
      Some (map (\<lambda>x. JObj [(''path'', JStr (sanitize (rPath x))), (''mode'', JNum (show_int (rMode x)))]) xs, [])"
    using p_elems_rules [OF False, of "[]"] w by simp
  then show ?thesis by (simp add: json_parse_def MarshalAccessRule_def w p_val.simps [of "CHR ''['' # _"])
qed

text \<open>A string of well-formed UTF-8 sequences.\<close>

function utf8_valid :: "string \<Rightarrow> bool" where
  "utf8_valid [] \<longleftrightarrow> True"
| "utf8_valid (c # cs) \<longleftrightarrow> rune_len (c # cs) \<noteq> 0 \<and> utf8_valid (drop (rune_len (c # cs) - 1) cs)"
  by pat_completeness auto
termination by (relation "measure length") auto

lemma sanitize_valid: "utf8_valid s \<Longrightarrow> sanitize s = s"
proof (induction s rule: utf8_valid.induct)
  case (2 c cs)
  obtain m where "rune_len (c # cs) = Suc m" using "2.prems" by (cases "rune_len (c # cs)") auto
  with 2 show ?case by simp
qed simp

section \<open>Claim\<close>

text \<open>C27: The access rules stored as JSON read back without an error: the same modes, and the same paths up to the
  replacement of malformed UTF-8 bytes by U+FFFD, hence exactly the same rules when the paths are
  valid UTF-8.\<close>

theorem UnmarshalAccessRule_Marshal:
  assumes "\<forall>r\<in>set rules. - (2 ^ 63) \<le> rMode r \<and> rMode r < 2 ^ 63"
  shows "UnmarshalAccessRule (MarshalAccessRule rules) = (map (\<lambda>r. r\<lparr>rPath := sanitize (rPath r)\<rparr>) rules, False)
    \<and> ((\<forall>r\<in>set rules. utf8_valid (rPath r)) \<longrightarrow> UnmarshalAccessRule (MarshalAccessRule rules) = (rules, False))"
proof -
  let ?J = "\<lambda>x. JObj [(''path'', JStr (sanitize (rPath x))), (''mode'', JNum (show_int (rMode x)))]"
  have d: "dec_rule (?J r) = (r\<lparr>rPath := sanitize (rPath r)\<rparr>, False)" if "r \<in> set rules" for r
    using dec_rule_enc [of "rMode r"] assms that by (cases r) auto
  have u: "UnmarshalAccessRule (MarshalAccessRule rules) = (map (\<lambda>r. r\<lparr>rPath := sanitize (rPath r)\<rparr>) rules, False)"
    using d by (simp add: UnmarshalAccessRule_def json_parse_rules list_ex_iff)
  moreover have "map (\<lambda>r. r\<lparr>rPath := sanitize (rPath r)\<rparr>) rules = rules" if "\<forall>r\<in>set rules. utf8_valid (rPath r)"
    using that by (simp add: map_idI sanitize_valid)
  ultimately show ?thesis by simp
qed

theorem UnmarshalAccessRule_Marshal_witness:
  "UnmarshalAccessRule (MarshalAccessRule [\<lparr>rPath = ''/a<b'', rMode = 1\<rparr>, \<lparr>rPath = ''/*'', rMode = - 1\<rparr>]) =
    ([\<lparr>rPath = ''/a<b'', rMode = 1\<rparr>, \<lparr>rPath = ''/*'', rMode = - 1\<rparr>], False)"
  using UnmarshalAccessRule_Marshal [of "[\<lparr>rPath = ''/a<b'', rMode = 1\<rparr>, \<lparr>rPath = ''/*'', rMode = - 1\<rparr>]"]
  by (simp add: rune_len.simps)

end
