(* ===== verification/LocalBackend_Props.thy ===== *)
theory LocalBackend_Props
  imports LocalBackend
begin

text \<open>
  The local backend keeps the contract of a text store, mirrors every event it receives, and keeps
  the repository's access store equal to its own rules.
\<close>

section \<open>Data and mapping as text stores\<close>

definition client_ok :: "localClient \<Rightarrow> bool" where
  "client_ok c \<longleftrightarrow> live (cData c) \<and> live (cMapping c)"

lemma client_ok_new: "client_ok NewLocalClient"
  using store_ok_new by (simp add: client_ok_def NewLocalClient_def newStore_def)

lemma local_Put_fields:
  "cData (snd (local_Put p v rep c)) =
    snd (store_Put p v (if rep then store_Delete p (cData c) else cData c))"
  "cMapping (snd (local_Put p v rep c)) = cMapping c"
  by (simp_all add: local_Put_def Let_def split: prod.splits)

lemma local_PutMapping_fields:
  "cMapping (snd (local_PutMapping p v rep c)) =
    snd (store_Put p v (if rep then store_Delete p (cMapping c) else cMapping c))"
  "cData (snd (local_PutMapping p v rep c)) = cData c"
  by (simp_all add: local_PutMapping_def Let_def split: prod.splits)

lemma local_Put_replace: "local_Put p v True c = local_Put p v False (local_Delete p d c)"
  by (simp add: local_Put_def local_Delete_def)

lemma local_PutMapping_replace:
  "local_PutMapping p v True c = local_PutMapping p v False (local_DeleteMapping p d c)"
  by (simp add: local_PutMapping_def local_DeleteMapping_def)

lemmas local_client_simps = client_ok_def local_Put_fields local_PutMapping_fields local_Delete_def
  local_DeleteMapping_def store_ok_store_Put store_ok_store_Delete texts_store_Put put_texts_def
  texts_store_Delete

interpretation ld: replacing_store client_ok path_elems "\<lambda>c. store_texts (cData c)"
  "\<lambda>p v c. snd (local_Put p (VStr v) False c)" "\<lambda>p c. local_Delete p True c"
  "\<lambda>p v c. snd (local_Put p (VStr v) True c)"
  by unfold_locales (simp_all add: local_client_simps local_Put_replace [of _ _ _ True])

interpretation lm: replacing_store client_ok path_elems "\<lambda>c. store_texts (cMapping c)"
  "\<lambda>p v c. snd (local_PutMapping p (VStr v) False c)" "\<lambda>p c. local_DeleteMapping p True c"
  "\<lambda>p v c. snd (local_PutMapping p (VStr v) True c)"
  by unfold_locales (simp_all add: local_client_simps local_PutMapping_replace [of _ _ _ True])

section \<open>Mirroring\<close>

lemma store_Put_clean: "store_Put (abs_path (path_elems p)) v s = store_Put p v s"
  by (simp add: store_Put_def clean_join_root)

lemma store_Delete_clean: "store_Delete (abs_path (path_elems p)) s = store_Delete p s"
  by (simp add: store_Delete_def clean_join_root)

lemma processEvent_Update:
  "processEvent (newEvent Update (abs_path (path_elems p)) v) to0 = store_Put p (VStr v) to0"
  by (simp add: processEvent_def newEvent_def store_Put_clean)

lemma processEvent_Delete:
  "processEvent (newEvent Delete (abs_path (path_elems p)) v) to0 = (Inr (), store_Delete p to0)"
  by (simp add: processEvent_def newEvent_def store_Delete_clean)

section \<open>Access rules\<close>

text \<open>While the client is linked, the repository's tree for a host is compiled from the client's rules.\<close>

definition mirrored :: "localClient \<times> accessStore \<Rightarrow> bool" where
  "mirrored ca \<longleftrightarrow> linked (fst ca) \<and> map_ok (cRules (fst ca)) \<and>
     (\<forall>h. accessStore_Get h (snd ca) = map_option NewAccessTree (map_of (cRules (fst ca)) h))"

lemma mirrored_put1:
  "mirrored (c, acc) \<Longrightarrow> mirrored (c\<lparr>cRules := AList.update k v (cRules c)\<rparr>, accessStore_Put k v acc)"
  by (simp add: mirrored_def accessStore_Get_def accessStore_Put_def)

lemma mirrored_del1:
  "mirrored (c, acc) \<Longrightarrow> mirrored (c\<lparr>cRules := AList.delete k (cRules c)\<rparr>, accessStore_Delete k acc)"
  by (simp add: mirrored_def accessStore_Get_def accessStore_Delete_def)

lemma mirrored_linked: "mirrored (c, acc) \<Longrightarrow> linked c"
  by (simp add: mirrored_def)

lemma mirrored_PutAccessRule: "mirrored ca \<Longrightarrow> mirrored (local_PutAccessRule rules ca)"
  unfolding local_PutAccessRule_def
  by (rule fold_invariant [where P = mirrored])
    (auto simp: mirrored_put1 mirrored_linked split: prod.splits)

lemma mirrored_DeleteAccessRule: "mirrored ca \<Longrightarrow> mirrored (local_DeleteAccessRule hosts ca)"
  unfolding local_DeleteAccessRule_def
  by (rule fold_invariant [where P = mirrored])
    (auto simp: mirrored_del1 mirrored_linked split: prod.splits)

lemma mirrored_Sync:
  assumes "map_ok (cRules c)" and "\<forall>h. accessStore_Get h acc \<noteq> None \<longrightarrow> h \<in> set (keys (cRules c))"
  shows "mirrored (local_SyncAccessRule (c, acc))"
proof -
  have "accessStore_Get h (fold (\<lambda>(k, v). accessStore_Put k v) (cRules c) acc) =
      map_option NewAccessTree (map_of (cRules c) h)" for h
  proof (cases "map_of (cRules c) h")
    case None
    then have "accessStore_Get h acc = None" using assms(2) by (auto simp: map_of_eq_None_iff)
    with None show ?thesis using hosts.look_puts [OF assms(1)] by simp
  next
    case (Some r)
    then show ?thesis using hosts.look_puts [OF assms(1)] by simp
  qed
  with assms(1) show ?thesis by (simp add: mirrored_def local_SyncAccessRule_def)
qed

lemma rules_PutAccessRule:
  "map_ok rules \<Longrightarrow> map_of (cRules (fst (local_PutAccessRule rules ca))) h =
    (case map_of rules h of Some r \<Rightarrow> Some r | None \<Rightarrow> map_of (cRules (fst ca)) h)"
proof (induction rules arbitrary: ca)
  case (Cons kv rules)
  then have "map_of rules (fst kv) = None" by (auto simp: map_of_eq_None_iff)
  with Cons show ?case
    by (cases kv; cases ca) (auto simp: local_PutAccessRule_def split: option.splits)
qed (simp add: local_PutAccessRule_def)

lemma rules_DeleteAccessRule:
  "map_of (cRules (fst (local_DeleteAccessRule hs ca))) h =
    (if h \<in> set hs then None else map_of (cRules (fst ca)) h)"
  by (induction hs arbitrary: ca) (auto simp: local_DeleteAccessRule_def)


section \<open>Properties\<close>

text \<open>A replacing put on the local backend leaves exactly the new text in the subtree of the path and
  every text outside it unchanged; without replacement only the text at the path changes.  The
  mapping store is not affected.\<close>

theorem local_Put_replace_spec:
  assumes "client_ok c" and "path_elems p \<noteq> []"
  shows "store_texts (cData (snd (local_Put p (VStr v) rep c))) q =
      (if q = path_elems p then v
       else if rep \<and> within (path_elems p) q then ''''
       else store_texts (cData c) q) \<and>
    cMapping (snd (local_Put p (VStr v) rep c)) = cMapping c"
  using ld.rd_replace [OF assms, of v q] ld.rd_put [OF assms(1), of p v] assms(2)
  by (cases rep) (simp_all add: local_Put_fields)

theorem local_Put_replace_spec_witness:
  "store_texts (cData (snd (local_Put ''/a'' (VStr ''1'') True NewLocalClient))) [''a''] = ''1''"
proof -
  have "path_elems ''/a'' = [''a'']" by code_simp
  then show ?thesis
    using local_Put_replace_spec [OF client_ok_new, of "''/a''" "''1''" True "[''a'']"]
    by (simp del: path_elems_slash)
qed

text \<open>The mirror repeats the backend's puts: after a put of \<open>v\<close> at \<open>p\<close> on the backend's store that is
  news there (no leaf above \<open>p\<close>), the root watcher of \<^verbatim>\<open>internalSync\<close>, if it has room, has one event
  more, and processing that event on the mirror is exactly the same put.\<close>

theorem sync_mirrors_put:
  assumes "live s" and "path_elems p = ds @ [n]" and "no_leaf_upto (amap (nodes s)) ds"
    and "put_is_news (amap (nodes s)) (path_elems p) v"
    and "i < length (wtab (nodes s))" and "\<not> closed (wtab (nodes s) ! i)" and "wnode (wtab (nodes s) ! i) = []"
    and "length (eventChan (wtab (nodes s) ! i)) < bufLen (wtab (nodes s) ! i)"
  shows "\<exists>e. eventChan (wtab (nodes (snd (store_Put p (VStr v) s))) ! i) = eventChan (wtab (nodes s) ! i) @ [e] \<and>
    processEvent e to0 = store_Put p (VStr v) to0"
proof -
  let ?w = "wtab (nodes s) ! i"
  let ?e = "newEvent Update (abs_path (path_elems p)) v"
  have "wtab (nodes (snd (store_Put p (VStr v) s))) ! i = chan_send ?e ?w"
    using wtab_store_Put [OF _ _ assms(2,3), of v] assms(1,4-7) by (simp add: store_ok_def)
  then show ?thesis
    using assms(8) by (intro exI [of _ ?e]) (simp add: chan_send_def processEvent_Update)
qed

definition sample_src :: store where
  "sample_src = snd (store_Watch ''/'' 5000 newStore)"

theorem sync_mirrors_put_witness:
  "\<exists>e. eventChan (wtab (nodes (snd (store_Put ''/a'' (VStr ''1'') sample_src))) ! 0) =
      eventChan (wtab (nodes sample_src) ! 0) @ [e] \<and>
    processEvent e newStore = store_Put ''/a'' (VStr ''1'') newStore"
proof (rule sync_mirrors_put)
  have r: "\<not> rootNil sample_src" by code_simp
  show "live sample_src"
    using store_ok_store_Watch [OF store_ok_new, of "''/''" 5000] r by (simp add: sample_src_def)
  show "path_elems ''/a'' = [] @ [''a'']" by code_simp
  have "amap (nodes sample_src) [] = Some (Attr '''' True [0])" by code_simp
  then show "no_leaf_upto (amap (nodes sample_src)) []" by (simp add: no_leaf_upto_def)
  have "amap (nodes sample_src) (path_elems ''/a'') = None" by code_simp
  then show "put_is_news (amap (nodes sample_src)) (path_elems ''/a'') ''1''" by (simp add: put_is_news_def)
  have w: "wtab (nodes sample_src) = [newWatcher [] 5000]" by code_simp
  show "0 < length (wtab (nodes sample_src))" "\<not> closed (wtab (nodes sample_src) ! 0)"
    "wnode (wtab (nodes sample_src) ! 0) = []"
    "length (eventChan (wtab (nodes sample_src) ! 0)) < bufLen (wtab (nodes sample_src) ! 0)"
    by (simp_all add: w)
qed

text \<open>Once \<^verbatim>\<open>SyncAccessRule\<close> has linked the access store, any sequence of rule puts and deletes through
  the client keeps the repository's access tree of every host equal to the tree compiled from the
  client's rules.\<close>

theorem access_rules_mirrored:
  assumes "map_ok (cRules c)" and "\<forall>h. accessStore_Get h acc \<noteq> None \<longrightarrow> h \<in> set (keys (cRules c))"
  shows "accessStore_Get h (snd (fold (\<lambda>op ca. case op of
        Inl rules \<Rightarrow> local_PutAccessRule rules ca | Inr hosts \<Rightarrow> local_DeleteAccessRule hosts ca) ops
        (local_SyncAccessRule (c, acc)))) =
    map_option NewAccessTree (map_of (cRules (fst (fold (\<lambda>op ca. case op of
        Inl rules \<Rightarrow> local_PutAccessRule rules ca | Inr hosts \<Rightarrow> local_DeleteAccessRule hosts ca) ops
        (local_SyncAccessRule (c, acc))))) h)"
proof -
  have "mirrored (fold (\<lambda>op ca. case op of
      Inl rules \<Rightarrow> local_PutAccessRule rules ca | Inr hosts \<Rightarrow> local_DeleteAccessRule hosts ca) ops
      (local_SyncAccessRule (c, acc)))"
    by (rule fold_invariant [where P = mirrored])
      (auto simp: mirrored_PutAccessRule mirrored_DeleteAccessRule mirrored_Sync [OF assms] split: sum.splits)
  then show ?thesis by (simp add: mirrored_def)
qed

theorem access_rules_mirrored_witness:
  "accessStore_Get ''h'' (snd (local_PutAccessRule [(''h'', sample_rules)] (local_SyncAccessRule (NewLocalClient, NewAccessStore)))) =
    Some (NewAccessTree sample_rules)"
proof -
  have "map_of (cRules (fst (local_PutAccessRule [(''h'', sample_rules)]
      (local_SyncAccessRule (NewLocalClient, NewAccessStore))))) ''h'' = Some sample_rules"
    by (simp add: rules_PutAccessRule)
  then show ?thesis
    using access_rules_mirrored [of NewLocalClient NewAccessStore "''h''" "[Inl [(''h'', sample_rules)]]"]
    by (simp add: NewLocalClient_def NewAccessStore_def accessStore_Get_def)
qed

end
