(* ===== verification/MetaRepo_Props.thy ===== *)
theory MetaRepo_Props
  imports MetaRepo LocalBackend_Props
begin

text \<open>
  What a client of the repository can see: \<^verbatim>\<open>Root\<close> and \<^verbatim>\<open>Self\<close> return exactly the strings its rules permit,
  rules derived from an old-style mapping permit exactly the mapped paths, and what is written is
  validated first.
\<close>

definition repo_ok :: "MetadataRepo \<Rightarrow> bool" where
  "repo_ok r \<longleftrightarrow> live (rData r) \<and> live (rMapping r)"

lemma repo_ok_new: "repo_ok newMetadataRepo"
  using store_ok_new by (simp add: repo_ok_def newMetadataRepo_def newStore_def)

section \<open>Reading from the root\<close>

text \<open>The string a client with the access tree \<open>root\<close> may see at a path of the data store.\<close>

definition visible :: "accessNode \<Rightarrow> store \<Rightarrow> string list \<Rightarrow> string option" where
  "visible root s es = (if permitted root es then leaf (amap (nodes s)) es else None)"

lemma visible_Some: "visible root s es = Some x \<longleftrightarrow> permitted root es \<and> leaf (amap (nodes s)) es = Some x"
  by (simp add: visible_def)

lemma admits_append:
  "admits an m (xs @ ys) = Option.bind (admits an m xs) (\<lambda>(an', m'). admits an' m' ys)"
  by (induction xs arbitrary: an m) (auto split: option.splits)

lemma read_value_reads:
  assumes "live s" and "tOpen t" and "currNode t = Some r" and "deref r (nodes s) = Some n"
  shows "\<exists>v. read_value s t = Inr (v, t) \<and> reads t n v"
proof -
  have "node_ok (tree (nodes s))" using assms(1) by (simp add: store_ok_def nodes_ok_def)
  from traveller_GetValue_reads [OF assms(2-4) this] show ?thesis by (auto simp: read_value_def)
qed

lemma GetValue_children_map:
  "GetValue_children fuel s ks vals t = Some (Inr (v, t')) \<Longrightarrow> is_map v"
proof (induction ks arbitrary: vals t)
  case (Cons kn ks)
  then show ?case by (cases kn) (auto split: sum.splits bool.splits option.splits prod.splits if_splits)
qed auto

lemma read_value_shape:
  assumes "read_value s t = Inr (v, t')" and "currNode t = Some r" and "deref r (nodes s) = Some n"
  shows "is_map v \<longleftrightarrow> IsDir n" and "v \<noteq> VNil"
proof -
  have g: "GetValue_fuel (Suc (height (tree (nodes s)))) s t = Some (Inr (v, t'))"
    using assms(1)
    by (cases "GetValue_fuel (Suc (height (tree (nodes s)))) s t")
      (simp_all add: read_value_def traveller_GetValue_def del: GetValue_fuel.simps)
  show "is_map v \<longleftrightarrow> IsDir n"
    using g assms(2,3) GetValue_children_map
    by (cases "nChildren n") (auto simp: IsDir_def split: if_splits)
  show "v \<noteq> VNil"
    using g assms(2,3) GetValue_children_map [of _ s _ "[]" t v t']
    by (cases "nChildren n") (auto split: if_splits)
qed

lemma BackToRoot_new:
  assumes "travel es (newTraveller s root) = Some t"
  shows "traveller_BackToRoot s t = Inr (newTraveller s root)"
  using travel_fields [OF assms]
  by (simp add: traveller_BackToRoot_def newTraveller_def stack_Clean_def)

text \<open>Entering a path from the root and reading there.\<close>

lemma enter_read:
  assumes "live s"
  shows "(traveller_Enter s p (newTraveller s root) = Inr (False, newTraveller s root) \<and>
      (\<forall>q. visible root s (segs p @ q) = None)) \<or>
    (\<exists>t v. traveller_Enter s p (newTraveller s root) = Inr (True, t) \<and>
      tOpen t \<and> read_value s t = Inr (v, t) \<and> traveller_BackToRoot s t = Inr (newTraveller s root) \<and>
      (segs p = [] \<longrightarrow> t = newTraveller s root) \<and> v \<noteq> VNil \<and>
      (segs p = [] \<longrightarrow> is_map v = IsDir (tree (nodes s))) \<and>
      (\<forall>q. val_leaf q v = visible root s (segs p @ q)))"
proof -
  let ?t0 = "newTraveller s root"
  have t0: "tOpen ?t0" "currNode ?t0 = Some []" "deref [] (nodes s) \<noteq> None" using assms by simp_all
  note enter = traveller_Enter_eq [OF t0, of p]
  show ?thesis
  proof (cases "amap (nodes s) (segs p) \<noteq> None \<and> travel (segs p) ?t0 \<noteq> None")
    case False
    then have "traveller_Enter s p ?t0 = Inr (False, ?t0)" using enter by (auto split: option.splits)
    moreover have "visible root s (segs p @ q) = None" for q
    proof (cases "amap (nodes s) (segs p) = None")
      case True
      then have "amap (nodes s) (segs p @ q) = None" using flat_prefix_closed by blast
      then show ?thesis by (simp add: visible_def leaf_def)
    next
      case n: False
      then have "admits (Some root) (aMode root) (segs p) = None"
        using False travel_None [of "segs p" ?t0] by auto
      then show ?thesis by (simp add: visible_def admits_append)
    qed
    ultimately show ?thesis by blast
  next
    case True
    then obtain t where t: "travel (segs p) ?t0 = Some t" "traveller_Enter s p ?t0 = Inr (True, t)"
      using enter by auto
    have f: "tOpen t" "currNode t = Some (rev (segs p))"
      "admits (Some root) (aMode root) (segs p) = Some (currAccessNode t, currMode t)"
      using travel_fields [OF t(1)] t0 by simp_all
    obtain n where n: "deref (rev (segs p)) (nodes s) = Some n"
      using True by (auto simp: deref_def flat_None_iff)
    obtain v where v: "read_value s t = Inr (v, t)" "reads t n v"
      using read_value_reads [OF assms f(1,2) n] by blast
    have l: "leaf (flat n) q = leaf (amap (nodes s)) (segs p @ q)" for q
      using n flat_lookup [of "segs p" "tree (nodes s)" n q] by (simp add: deref_def leaf_def)
    have "val_leaf q v = visible root s (segs p @ q)" for q
      using v(2) l [of q] f(3) by (auto simp: reads_def seen_def visible_def admits_append)
    moreover have "is_map v \<longleftrightarrow> IsDir n" "v \<noteq> VNil" using read_value_shape [OF v(1) f(2) n] by simp_all
    ultimately show ?thesis
      using t f(1) v(1) BackToRoot_new [OF t(1)] n by (auto simp: deref_def)
  qed
qed


section \<open>Following a mapping\<close>

lemma getMappingData_root:
  assumes "live s"
  shows "\<exists>val. getMappingData s np link (newTraveller s root) = Inr (val, newTraveller s root) \<and>
    (\<forall>q. val_leaf q val = visible root s (segs (path_Join [link, np]) @ q))"
  using enter_read [OF assms, of "path_Join [link, np]" root] by (auto simp: getMappingData_def Let_def)

text \<open>Every string inside the value is one the client may see somewhere in the data store.\<close>

definition granted :: "accessNode \<Rightarrow> store \<Rightarrow> goval \<Rightarrow> bool" where
  "granted root s v \<longleftrightarrow> (\<forall>q x. val_leaf q v = Some x \<longrightarrow> (\<exists>es. visible root s es = Some x))"

lemma granted_simple [simp]: "granted root s VNil" "granted root s (VMap [])"
  by (simp_all add: granted_def)

lemma granted_update:
  assumes "granted root s (VMap m)" and "granted root s v"
  shows "granted root s (VMap (AList.update k v m))"
  unfolding granted_def
proof (intro allI impI)
  fix q x
  assume "val_leaf q (VMap (AList.update k v m)) = Some x"
  then show "\<exists>es. visible root s es = Some x"
    using assms unfolding granted_def
    by (cases q) (auto split: if_splits, metis val_leaf.simps(2))
qed

lemma getMappingData_granted:
  assumes "live s"
  shows "\<exists>val. getMappingData s np link (newTraveller s root) = Inr (val, newTraveller s root) \<and> granted root s val"
  using getMappingData_root [OF assms, of np link root] by (auto simp: granted_def)

lemma getMappingDatas_granted_aux:
  "t = newTraveller s root \<Longrightarrow> live s \<Longrightarrow>
    \<exists>val. getMappingDatas s p mapping t = Inr (val, t) \<and> granted root s val"
  "t = newTraveller s root \<Longrightarrow> live s \<Longrightarrow> granted root s (VMap meta) \<Longrightarrow>
    \<exists>val. mapping_loop s mapping meta t = Inr (val, t) \<and> granted root s val"
proof (induction s p mapping t and s mapping meta t rule: getMappingDatas_mapping_loop.induct)
  case (1 s nodePath0 mapping t)
  let ?paths = "tl (strings_Split (path_Join [''/'', nodePath0]))"
  have data: "\<exists>val. getMappingData s np link t = Inr (val, t) \<and> granted root s val" for np link
    using getMappingData_granted 1 by simp
  show ?case
  proof (cases "?paths ! 0 = ''''")
    case True
    have "\<exists>val. mapping_loop s mapping [] t = Inr (val, t) \<and> granted root s val"
      using "1.IH"(1) [OF refl refl True] "1.prems" by simp
    with True show ?thesis by (subst getMappingDatas.simps) (simp add: Let_def)
  next
    case False
    show ?thesis
    proof (cases "map_of mapping (?paths ! 0)")
      case None
      with False show ?thesis by (subst getMappingDatas.simps) (simp add: Let_def)
    next
      case (Some v)
      have "\<exists>val. (case v of VMap sub \<Rightarrow> getMappingDatas s (path_Join (tl ?paths)) sub t
          | _ \<Rightarrow> getMappingData s (path_Join (tl ?paths)) (sprint_v v) t) = Inr (val, t) \<and> granted root s val"
        using "1.IH"(2) [OF refl refl False Some] "1.prems" data by (cases v) simp_all
      with False Some show ?thesis by (subst getMappingDatas.simps) (simp add: Let_def)
    qed
  qed
next
  case (3 s k v m meta t)
  have data: "\<exists>val. getMappingData s np link t = Inr (val, t) \<and> granted root s val" for np link
    using getMappingData_granted "3.prems"(1,2) by simp
  obtain val where val: "(case v of VMap sub \<Rightarrow> getMappingDatas s ''/'' sub t
      | _ \<Rightarrow> getMappingData s ''/'' (sprint_v v) t) = Inr (val, t)" "granted root s val"
    using "3.IH"(1) "3.prems"(1,2) data by (cases v) fastforce+
  have "granted root s (VMap (if val \<noteq> VNil then AList.update k val meta else meta))"
    using val(2) "3.prems"(3) granted_update by simp
  then show ?case using "3.IH"(2) [OF val(1) refl "3.prems"(1,2)] by (simp add: val(1))
qed simp

lemmas getMappingDatas_granted = getMappingDatas_granted_aux [OF refl]


section \<open>Properties of reading\<close>

lemma segs_Join_root: "segs (path_Join [''/'', p]) = path_elems p"
  by (simp add: path_Join_root segs_abs_path)

lemma self_granted:
  assumes "live (rData r)"
  shows "\<exists>v. self r ip p (newTraveller (rData r) root) = Inr (v, newTraveller (rData r) root) \<and>
    granted root (rData r) v"
  using getMappingDatas_granted(1) [OF assms]
  by (cases "GetMapping r (path_Join [''/'', ip])") (simp_all add: self_def)


text \<open>A repository with data at \<^verbatim>\<open>/a/b\<close> and \<^verbatim>\<open>/a/c\<close>, rules for one client and a mapping for another.\<close>

definition sample_repo :: MetadataRepo where
  "sample_repo =
     \<lparr>rMapping = snd (store_Put ''/10.0.0.2/n'' (VStr ''/a'') newStore), rData = sample_data,
      rAccess = accessStore_Put ''10.0.0.1'' [\<lparr>rPath = ''/a/*'', rMode = 1\<rparr>, \<lparr>rPath = ''/a/c'', rMode = 0\<rparr>] []\<rparr>"

lemma repo_ok_sample: "repo_ok sample_repo"
proof -
  have "live (snd (store_Put ''/10.0.0.2/n'' (VStr ''/a'') newStore))"
    using st.ok_put [of newStore] store_ok_new by (simp add: newStore_def)
  then show ?thesis using live_sample_data by (simp add: repo_ok_def sample_repo_def)
qed

lemma sample_repo_tree: "getAccessTree sample_repo ''10.0.0.1'' = Some sample_tree"
  by (simp add: getAccessTree_def sample_repo_def accessStore_Get_def accessStore_Put_def sample_tree_def)




text \<open>C19: When a client's mapping links the key \<open>k\<close> to the path \<^verbatim>\<open>/l\<close>, \<^verbatim>\<open>Self\<close> on \<^verbatim>\<open>/k/rest\<close> returns what the
  client may see in the data store under \<^verbatim>\<open>/l/rest\<close>.\<close>

theorem Self_follows_link:
  assumes "repo_ok r" and "ip \<noteq> ''''" and "getAccessTree r ip = Some root"
    and "GetMapping r (path_Join [''/'', ip]) = VMap m" and "map_of m k = Some (VStr (CHR ''/'' # l))"
    and "path_elems p = k # rest"
  shows "\<exists>v. Self r ip p = Inr v \<and>
    (\<forall>q. val_leaf q v =
      (if permitted root (path_elems l @ rest @ q)
       then leaf (amap (nodes (rData r))) (path_elems l @ rest @ q) else None))"
proof -
  let ?s = "rData r"
  let ?t = "newTraveller ?s root"
  have live: "live ?s" using assms(1) by (simp add: repo_ok_def)
  have c: "\<forall>e\<in>set (k # rest). canon e" using assms(6) path_elems_canon by metis
  have "path_Join [''/'', path_Join [''/'', p]] = abs_path (k # rest)"
    using assms(6) path_elems_abs_path [OF c] by (simp add: path_Join_root)
  moreover have "strings_Split (abs_path (k # rest)) = [] # k # rest" using c by (simp add: strings_Split_abs_path)
  moreover have "k \<noteq> ''''" using c by (auto simp: canon_def seg_def)
  ultimately have "getMappingDatas ?s (path_Join [''/'', p]) m ?t =
      getMappingData ?s (strings_Join rest) (CHR ''/'' # l) ?t"
    using assms(5) c by (subst getMappingDatas.simps) (simp add: Let_def path_Join_canon)
  moreover have "segs (path_Join [CHR ''/'' # l, strings_Join rest]) = path_elems l @ rest"
  proof -
    have "\<forall>e\<in>set (path_elems l @ rest). seg e" using c path_elems_seg [of l] by auto
    then show ?thesis using c by (simp add: path_Join_rooted segs_abs_path)
  qed
  ultimately show ?thesis
    using getMappingData_root [OF live, of "strings_Join rest" "CHR ''/'' # l" root] assms(2-4)
    by (auto simp: Self_def self_def visible_def Let_def)
qed

theorem Self_follows_link_witness:
  "\<exists>v. Self sample_repo ''10.0.0.2'' ''/n/b'' = Inr v \<and> val_leaf [] v = Some ''1''"
proof -
  have "getAccessTree sample_repo ''10.0.0.2'' = Some (ANode ''/'' (- 1) [ANode ''a'' 1 []])" by code_simp
  moreover have "GetMapping sample_repo (path_Join [''/'', ''10.0.0.2'']) = VMap [(''n'', VStr ''/a'')]" by code_simp
  moreover have "path_elems ''/n/b'' = ''n'' # [''b'']" "path_elems ''a'' = [''a'']" by code_simp+
  moreover have "permitted (ANode ''/'' (- 1) [ANode ''a'' 1 []]) [''a'', ''b'']"
    "leaf (amap (nodes (rData sample_repo))) [''a'', ''b''] = Some ''1''" by code_simp+
  ultimately show ?thesis
    using Self_follows_link [OF repo_ok_sample, of "''10.0.0.2''" "ANode ''/'' (- 1) [ANode ''a'' 1 []]"
        "[(''n'', VStr ''/a'')]" "''n''" "''a''" "''/n/b''" "[''b'']"] by fastforce
qed


section \<open>Rules derived from a mapping\<close>

text \<open>A tree of read rules below its root: every node is readable or has rules below it, and no name is
  the wildcard.\<close>

definition read_tree :: "accessNode \<Rightarrow> bool" where
  "read_tree t \<longleftrightarrow>
     (\<forall>q n. alookup q t = Some n \<longrightarrow>
        access_GetChild n ''*'' True = None \<and> (aMode n = AccessModeNil \<or> aMode n = AccessModeRead) \<and>
        (q \<noteq> [] \<longrightarrow> HasChild n \<or> aMode n = AccessModeRead))"

lemma read_treeD:
  assumes "read_tree t" and "access_GetChild t x True = Some c"
  shows "read_tree c" and "HasChild c \<or> aMode c = AccessModeRead"
    and "aMode c = AccessModeNil \<or> aMode c = AccessModeRead"
proof -
  have "alookup (x # q) t = alookup q c" for q using assms(2) by simp
  then have "alookup q c = Some n \<Longrightarrow> access_GetChild n ''*'' True = None \<and>
      (aMode n = AccessModeNil \<or> aMode n = AccessModeRead) \<and> (HasChild n \<or> aMode n = AccessModeRead)" for q n
    using assms(1) unfolding read_tree_def by (metis list.distinct(1))
  from this this [of "[]" c] show "read_tree c" "HasChild c \<or> aMode c = AccessModeRead"
    "aMode c = AccessModeNil \<or> aMode c = AccessModeRead"
    by (auto simp: read_tree_def)
qed

lemma read_tree_wild: "access_ok t \<Longrightarrow> read_tree t \<Longrightarrow> access_GetChild t x False = access_GetChild t x True"
  using GetChild_wildcard [of t x] unfolding read_tree_def
  by (metis alookup.simps(1) option.case_eq_if option.collapse)

lemma access_ok_child: "access_ok t \<Longrightarrow> access_GetChild t x True = Some c \<Longrightarrow> access_ok c"
  by (cases t) (auto simp: GetChild_strict find_Some_iff)

lemma mode_at_step: "mode_at t (x # q) = Option.bind (access_GetChild t x True) (\<lambda>c. mode_at c q)"
  by (simp add: mode_at_Cons GetChild_strict)

lemma admits_read_tree:
  assumes "access_ok t" and "read_tree t" and "m = AccessModeNil \<or> m = AccessModeRead"
  shows "admits (Some t) m es \<noteq> None \<longleftrightarrow>
    m = AccessModeRead \<or> mode_at t es \<noteq> None \<or>
    (\<exists>p. p \<noteq> [] \<and> prefix p es \<and> mode_at t p = Some AccessModeRead)"
  using assms
proof (induction es arbitrary: t m)
  case (Cons x es)
  have ex: "(\<exists>p. p \<noteq> [] \<and> prefix p (x # es) \<and> P p) \<longleftrightarrow> (\<exists>p. prefix p es \<and> P (x # p))" for P
    by (auto simp: prefix_Cons)
  show ?case
  proof (cases "access_GetChild t x True")
    case None
    then have "admit (Some t) m x = (if m = AccessModeRead then Some (None, m) else None)"
      using read_tree_wild [OF Cons.prems(1,2)] Cons.prems(3) by (auto simp: admit_def access_mode_defs)
    then show ?thesis unfolding ex using None by (auto simp: mode_at_step admits_open)
  next
    case (Some c)
    note c = read_treeD [OF Cons.prems(2) Some]
    let ?m = "if aMode c \<noteq> AccessModeNil then aMode c else m"
    have "admit (Some t) m x = Some (Some c, ?m)"
      using Some read_tree_wild [OF Cons.prems(1,2)] c(2) by (auto simp: admit_def)
    then have "admits (Some t) m (x # es) = admits (Some c) ?m es" by simp
    moreover have "?m = AccessModeRead \<longleftrightarrow> aMode c = AccessModeRead \<or> m = AccessModeRead"
      using c(3) by (auto simp: access_mode_defs)
    moreover have "(\<exists>p. prefix p es \<and> mode_at c p = Some AccessModeRead) \<longleftrightarrow> aMode c = AccessModeRead \<or>
        (\<exists>p. p \<noteq> [] \<and> prefix p es \<and> mode_at c p = Some AccessModeRead)"
      by (metis mode_at_Nil option.inject prefix_bot.bot_least)
    ultimately show ?thesis
      unfolding ex using Cons.IH [OF access_ok_child [OF Cons.prems(1) Some] c(1), of ?m] c(3) Cons.prems(3)
      by (auto simp: mode_at_step Some)
  qed
qed simp

text \<open>The tree the repository derives from the data paths of a mapping.\<close>

abbreviation link_rules :: "string list \<Rightarrow> AccessRule list" where
  "link_rules ds \<equiv> map (\<lambda>d. \<lparr>rPath = d, rMode = AccessModeRead\<rparr>) ds"

lemma last_rule_links: "last_rule (link_rules ds) q = (if \<exists>d\<in>set ds. segs d = q then Some AccessModeRead else None)"
  using last_rule_None [of "link_rules ds" q] last_rule_Some [of "link_rules ds" q]
  by (cases "last_rule (link_rules ds) q") auto

lemma mode_at_links:
  "mode_at (NewAccessTree (link_rules ds)) q =
    (if \<exists>d\<in>set ds. segs d = q then Some AccessModeRead
     else if q = [] \<or> (\<exists>d\<in>set ds. prefix q (segs d)) then Some AccessModeNil else None)"
  unfolding mode_at_NewAccessTree last_rule_links by simp

lemma alookup_snoc: "alookup (q @ [y]) t = Option.bind (alookup q t) (\<lambda>n. access_GetChild n y True)"
  by (induction q arbitrary: t) (auto split: option.splits)

lemma read_tree_links:
  assumes "\<forall>d\<in>set ds. ''*'' \<notin> set (segs d)"
  shows "read_tree (NewAccessTree (link_rules ds))"
  unfolding read_tree_def
proof (intro allI impI)
  fix q n
  let ?t = "NewAccessTree (link_rules ds)"
  assume n: "alookup q ?t = Some n"
  have m: "mode_at ?t q = Some (aMode n)" using n by (simp add: mode_at_def)
  have "mode_at ?t (q @ [''*'']) = None"
  proof -
    have "\<not> prefix (q @ [''*'']) (segs d)" if "d \<in> set ds" for d
      using that assms set_mono_prefix [of "q @ [''*'']" "segs d"] by auto
    then show ?thesis unfolding mode_at_links by (metis prefix_order.refl snoc_eq_iff_butlast)
  qed
  then have "access_GetChild n ''*'' True = None" using n by (simp add: mode_at_def alookup_snoc)
  moreover have "aMode n = AccessModeNil \<or> aMode n = AccessModeRead"
    using m unfolding mode_at_links by (auto split: if_splits)
  moreover have "HasChild n" if qn: "q \<noteq> []" and nr: "aMode n \<noteq> AccessModeRead"
  proof -
    have nq: "\<not> (\<exists>d\<in>set ds. segs d = q)"
      using m nr unfolding mode_at_links by (auto split: if_splits)
    then obtain d where d: "d \<in> set ds" "prefix q (segs d)" "segs d \<noteq> q"
      using m qn unfolding mode_at_links by (auto split: if_splits)
    then obtain y where "prefix (q @ [y]) (segs d)"
      by (metis append_Nil2 append_one_prefix list.exhaust prefix_def strict_prefixI' strict_prefix_def within_cases)
    then have "mode_at ?t (q @ [y]) \<noteq> None" using d(1) unfolding mode_at_links by auto
    then have "access_GetChild n y True \<noteq> None" using n by (simp add: mode_at_def alookup_snoc)
    then show ?thesis by (auto simp: GetChild_strict HasChild_def find_None_iff)
  qed
  ultimately show "access_GetChild n ''*'' True = None \<and>
    (aMode n = AccessModeNil \<or> aMode n = AccessModeRead) \<and> (q \<noteq> [] \<longrightarrow> HasChild n \<or> aMode n = AccessModeRead)"
    by blast
qed

lemma permitted_links:
  assumes "\<forall>d\<in>set ds. \<forall>c\<in>set (segs d). canon c \<and> c \<noteq> ''*''"
  shows "permitted (NewAccessTree (link_rules ds)) es \<longleftrightarrow>
    es = [] \<or> (\<exists>d\<in>set ds. prefix (segs d) es \<or> prefix es (segs d))"
proof -
  let ?t = "NewAccessTree (link_rules ds)"
  have ok: "access_ok ?t" using assms by (intro access_ok_NewAccessTree) (auto simp: rules_ok_def)
  have "read_tree ?t" using assms by (intro read_tree_links) auto
  moreover have "mode_at ?t [] = Some (aMode ?t)" by simp
  then have mt: "aMode ?t = (if \<exists>d\<in>set ds. segs d = [] then AccessModeRead else AccessModeNil)"
    unfolding mode_at_links by (auto split: if_splits)
  ultimately have P: "permitted ?t es \<longleftrightarrow> aMode ?t = AccessModeRead \<or> mode_at ?t es \<noteq> None \<or>
      (\<exists>p. p \<noteq> [] \<and> prefix p es \<and> mode_at ?t p = Some AccessModeRead)"
    by (intro admits_read_tree [OF ok]) auto
  have A: "aMode ?t = AccessModeRead \<longleftrightarrow> (\<exists>d\<in>set ds. segs d = [])"
    unfolding mt by (simp add: access_mode_defs)
  have C: "mode_at ?t p = Some AccessModeRead \<longleftrightarrow> (\<exists>d\<in>set ds. segs d = p)" for p
    unfolding mode_at_links by (simp add: access_mode_defs)
  have B: "mode_at ?t es \<noteq> None \<longleftrightarrow> es = [] \<or> (\<exists>d\<in>set ds. prefix es (segs d))"
    unfolding mode_at_links by auto
  have "(\<exists>d\<in>set ds. prefix (segs d) es) \<longleftrightarrow> (\<exists>d\<in>set ds. segs d = []) \<or>
      (\<exists>p. p \<noteq> [] \<and> prefix p es \<and> (\<exists>d\<in>set ds. segs d = p))"
    by (metis prefix_bot.bot_least)
  then show ?thesis unfolding P A B C bex_disj_distrib by blast
qed

text \<open>C20: A client that has a mapping but no access rules of its own sees exactly the mapped parts of the
  data: a path is permitted if and only if it is the root, lies below a path some key is mapped to,
  or lies above one.\<close>

theorem mapping_access:
  assumes "accessStore_Get ip (rAccess r) = None" and "GetMapping r (path_Join [''/'', ip]) = VMap m"
    and "\<forall>kv\<in>set (Flatten_entries m). \<forall>c\<in>set (segs (snd kv)). canon c \<and> c \<noteq> ''*''"
  shows "\<exists>root. getAccessTree r ip = Some root \<and>
    (\<forall>es. permitted root es \<longleftrightarrow> es = [] \<or>
      (\<exists>kv\<in>set (Flatten_entries m). prefix (segs (snd kv)) es \<or> prefix es (segs (snd kv))))"
proof -
  have l: "map (\<lambda>(k, d). \<lparr>rPath = d, rMode = AccessModeRead\<rparr>) kvs = link_rules (map snd kvs)"
    for kvs :: "(string, string) gomap"
    by (induction kvs) auto
  have "getAccessTree r ip = Some (NewAccessTree (link_rules (map snd (Flatten_entries m))))"
    by (simp only: getAccessTree_def assms(1,2) option.case goval.case l)
  then show ?thesis using permitted_links [of "map snd (Flatten_entries m)"] assms(3) by auto
qed

theorem mapping_access_witness:
  "\<exists>root. getAccessTree sample_repo ''10.0.0.2'' = Some root \<and> permitted root [''a'', ''b'', ''x''] \<and>
    \<not> permitted root [''b'']"
proof -
  have m: "GetMapping sample_repo (path_Join [''/'', ''10.0.0.2'']) = VMap [(''n'', VStr ''/a'')]"
    "accessStore_Get ''10.0.0.2'' (rAccess sample_repo) = None" by code_simp+
  have f: "Flatten_entries [(''n'', VStr ''/a'')] = [(''/n'', ''/a'')]" "segs ''/a'' = [''a'']" by code_simp+
  have "canon ''a''" by code_simp
  then have "\<forall>kv\<in>set (Flatten_entries [(''n'', VStr ''/a'')]). \<forall>c\<in>set (segs (snd kv)). canon c \<and> c \<noteq> ''*''"
    using f(2) by (simp add: f(1))
  from mapping_access [OF m(2,1) this] obtain root where root: "getAccessTree sample_repo ''10.0.0.2'' = Some root"
    "\<forall>es. permitted root es \<longleftrightarrow> es = [] \<or>
      (\<exists>kv\<in>set [(''/n'', ''/a'')]. prefix (segs (snd kv)) es \<or> prefix es (segs (snd kv)))"
    unfolding f(1) by blast
  from root(2) have "permitted root es \<longleftrightarrow> es = [] \<or> prefix [''a''] es \<or> prefix es [''a'']" for es
    using f(2) by simp
  from this [of "[''a'', ''b'', ''x'']"] this [of "[''b'']"] root(1) show ?thesis by simp
qed

end
