(* ===== verification/Store_Correct.thy ===== *)
theory Store_Correct
  imports Store_Props Notification
begin

text \<open>
  The properties of the store component: safety of every reachable state, the refinement of the
  map of texts, what \<^verbatim>\<open>Get\<close> returns after \<^verbatim>\<open>Put\<close> and \<^verbatim>\<open>Delete\<close>, who is notified, version counting, and
  the corner cases of watching.
\<close>

section \<open>Sample states\<close>

text \<open>A store with one text at \<^verbatim>\<open>/a/b\<close>, and the same store with a watcher at \<^verbatim>\<open>/a\<close>.\<close>

definition sample_ab :: store where
  "sample_ab = snd (store_Put ''/a/b'' (VStr ''1'') newStore)"

definition sample_watched :: store where
  "sample_watched = snd (store_Watch ''/a'' 10 sample_ab)"

lemma reachable_sample_ab: "reachable sample_ab"
  unfolding sample_ab_def by (rule reachable.step [OF reachable.init store_step.Put])

lemma reachable_sample_watched: "reachable sample_watched"
  unfolding sample_watched_def by (rule reachable.step [OF reachable_sample_ab store_step.Watch])

lemma live_new: "live newStore"
  using store_ok_new by (simp add: newStore_def)

lemma live_sample_ab: "live sample_ab"
  using reachable_store_ok [OF reachable_sample_ab] live_new by (simp add: sample_ab_def)

lemma sample_ab_eq: "sample_ab =
    \<lparr>nodes = \<lparr>tree = Node ''/'' '''' (Some [(''a'', Node ''a'' '''' (Some [(''b'', Node ''b'' ''1'' None [])]) [])]) [],
                wtab = [], sendClosed = False\<rparr>,
     rootNil = False, version = 1, cleanChan = [], cleanClosed = False\<rparr>"
  by code_simp

lemma sample_watched_wtab: "wtab (nodes sample_watched) = [newWatcher [''a''] 10]"
  by code_simp

lemma live_sample_watched: "live sample_watched"
proof -
  have "\<not> rootNil sample_watched" by code_simp
  with reachable_store_ok [OF reachable_sample_watched] show ?thesis by simp
qed

section \<open>Safety\<close>

text \<open>C1: In every reachable state of the store, whatever sequence of puts, deletes, watches, removals,
  receives, cleaning steps and destructions led there: no event was ever sent on a closed channel,
  every buffered channel respects its capacity, the queue of paths to clean holds at most 100
  entries, and the tree is well formed (distinct non-empty child names, each child stored under its
  own name, leaves without children, the root a directory without text).\<close>

theorem reachable_safe:
  assumes "reachable s"
  shows "\<not> sendClosed (nodes s) \<and> (\<forall>w\<in>set (wtab (nodes s)). length (eventChan w) \<le> bufLen w) \<and>
    length (cleanChan s) \<le> 100 \<and> node_ok (tree (nodes s)) \<and>
    IsDir (tree (nodes s)) \<and> nValue (tree (nodes s)) = ''''"
  using reachable_store_ok [OF assms]
  by (auto simp: store_ok_def nodes_ok_def chans_ok_def chan_ok_def root_ok_def cleanChan_cap_def)

theorem reachable_safe_witness: "reachable sample_watched \<and> \<not> sendClosed (nodes sample_watched)"
  using reachable_safe [OF reachable_sample_watched] reachable_sample_watched by blast

text \<open>C12: A node somebody watches is never dropped: in every reachable state, the node of every watcher
  that is still open is in the tree and lists the watcher, and a closed watcher is listed nowhere.\<close>

theorem watched_node_kept:
  assumes "reachable s" and "i < length (wtab (nodes s))"
  shows "(\<not> closed (wtab (nodes s) ! i) \<longrightarrow>
      (\<exists>n. deref (wnode (wtab (nodes s) ! i)) (nodes s) = Some n \<and> i \<in> set (nWatchers n))) \<and>
    (closed (wtab (nodes s) ! i) \<longrightarrow> (\<forall>r n. deref r (nodes s) = Some n \<longrightarrow> i \<notin> set (nWatchers n)))"
proof -
  have reg: "registered (nodes s)"
    using reachable_store_ok [OF assms(1)] nodes_ok_registered by (simp add: store_ok_def)
  have iff: "i \<in> set (wat (nodes s) (rev r)) \<longleftrightarrow>
      \<not> closed (wtab (nodes s) ! i) \<and> wnode (wtab (nodes s) ! i) = r" for r
    using reg assms(2) by (simp add: registered_def)
  have wat: "wat (nodes s) (rev r) = nWatchers n" if "deref r (nodes s) = Some n" for r n
    using deref_amap [OF that] by (simp add: wat_def attr_of_def)
  have "\<exists>n. deref r (nodes s) = Some n" if "i \<in> set (wat (nodes s) (rev r))" for r
    using that by (cases "deref r (nodes s)") (auto simp: wat_def amap_deref)
  with iff wat show ?thesis by metis
qed

theorem watched_node_kept_witness:
  "0 < length (wtab (nodes sample_watched)) \<and>
    (\<exists>n. deref [''a''] (nodes sample_watched) = Some n \<and> 0 \<in> set (nWatchers n))"
  using watched_node_kept [OF reachable_sample_watched, of 0] by (simp add: sample_watched_wtab)

section \<open>The store as a map of texts\<close>

text \<open>C2: Every operation of a live store refines its effect on a plain map from paths to texts: a put of
  a string assigns one text, a put of a container assigns the flattened entries, a bulk put assigns
  its entries in order, a delete clears exactly the subtree, and watching, unwatching, receiving,
  queueing, cleaning and destroying change no text at all.\<close>

theorem store_refines_texts:
  assumes "reachable s" and "\<not> rootNil s" and "store_step s op s'"
  shows "store_texts s' = op_texts op (store_texts s)"
  using store_step_texts [OF assms(3) reachable_store_ok [OF assms(1)] assms(2)] .

theorem store_refines_texts_witness:
  "store_texts (store_Delete ''/a'' sample_ab) = clear_texts (path_elems ''/a'') (store_texts sample_ab)"
  using store_refines_texts [OF reachable_sample_ab _ store_step.Delete] live_sample_ab by simp

text \<open>For any sequence of string puts and deletes on a live store, the last operation that touches a
  path decides its text: the text put there, or the empty text after a delete of the path or of a
  path above it.\<close>

theorem store_last_write:
  assumes "live s" and "path_elems p \<noteq> []" and "\<forall>op\<in>set ops'. \<not> touches path_elems op (path_elems p)"
  shows "store_texts (fold st.exec (ops @ TPut p v # ops') s) (path_elems p) = v \<and>
    (\<forall>q. within (path_elems q) (path_elems p) \<longrightarrow>
      store_texts (fold st.exec (ops @ TDelete q # ops') s) (path_elems p) = '''')"
  using st.last_put [OF assms] st.last_delete [OF assms(1) _ assms(3)] by auto

theorem store_last_write_witness:
  "store_texts (fold st.exec ([TPut ''/a'' ''0''] @ TPut ''/a/b'' ''1'' # [TPut ''/a'' ''2'']) newStore)
    (path_elems ''/a/b'') = ''1''"
proof -
  have "path_elems ''/a/b'' \<noteq> []" by code_simp
  moreover have "\<forall>op\<in>set [TPut ''/a'' ''2'']. \<not> touches path_elems op (path_elems ''/a/b'')" by code_simp
  ultimately show ?thesis using store_last_write [OF live_new] by blast
qed

section \<open>Reading back\<close>

lemma leaf_put_abs:
  "leaf (put_abs p v D) x =
    (if x = p then (if (\<exists>a. D p = Some a \<and> adir a) \<and> \<not> childless D p then None else Some v)
     else if within x p then None else leaf D x)"
  by (auto simp: leaf_def put_abs_def as_dir_def split: option.splits)

text \<open>C5: What every \<^verbatim>\<open>Get\<close> returns after a \<^verbatim>\<open>Put\<close> of a string: the string at the path that was put (unless
  that path has children, which keep it a directory), no string above it, and everything else
  unchanged.  Here \<open>val_leaf r (Get q)\<close> is the string at \<open>r\<close> inside the value returned for \<open>q\<close>.\<close>

theorem store_Get_Put:
  assumes "live s" and "path_elems p \<noteq> []"
  shows "val_leaf r (snd (store_Get q (snd (store_Put p (VStr v) s)))) =
    (if path_elems q @ r = path_elems p
     then (if (\<exists>a. amap (nodes s) (path_elems p) = Some a \<and> adir a) \<and>
             \<not> childless (amap (nodes s)) (path_elems p) then None else Some v)
     else if within (path_elems q @ r) (path_elems p) then None
     else val_leaf r (snd (store_Get q s)))"
proof -
  obtain st' where st': "store_Put p (VStr v) s = (Inr (), s\<lparr>version := version s + 1, nodes := st'\<rparr>)"
    "amap st' = put_abs (path_elems p) v (amap (nodes s))"
    using store_Put_string [of s p v] assms by blast
  have "store_ok (s\<lparr>version := version s + 1, nodes := st'\<rparr>)"
    using store_ok_store_Put [of s p "VStr v"] assms(1) st'(1) by simp
  then show ?thesis using st' assms(1) by (simp add: store_Get_leaves leaf_put_abs)
qed

theorem store_Get_Put_witness:
  "val_leaf [] (snd (store_Get ''/a/c'' (snd (store_Put ''/a/c'' (VStr ''2'') sample_ab)))) = Some ''2'' \<and>
   val_leaf [] (snd (store_Get ''/a/b'' (snd (store_Put ''/a/c'' (VStr ''2'') sample_ab)))) = Some ''1''"
proof -
  have p: "path_elems ''/a/c'' = [''a'', ''c'']" "path_elems ''/a/b'' = [''a'', ''b'']" by code_simp+
  have "amap (nodes sample_ab) (path_elems ''/a/c'') = None" "val_leaf [] (snd (store_Get ''/a/b'' sample_ab)) = Some ''1''"
    by code_simp+
  then show ?thesis
    using store_Get_Put [OF live_sample_ab, of "''/a/c''" "[]" "''/a/c''" "''2''"]
      store_Get_Put [OF live_sample_ab, of "''/a/c''" "[]" "''/a/b''" "''2''"] p by (auto simp del: path_elems_slash)
qed

lemma leaf_clean_rel: "clean_rel (D q) (D' q) \<Longrightarrow> leaf D q = Some v \<Longrightarrow> leaf D' q = Some v"
  by (auto simp: clean_rel_def leaf_def split: option.splits attr.splits bool.splits)

lemma store_Delete_leaf_kept:
  assumes "store_ok s" and "\<not> rootNil s" and "\<not> within (path_elems p) x" and "leaf (amap (nodes s)) x = Some v"
  shows "leaf (amap (nodes (store_Delete p s))) x = Some v"
proof (cases "amap (nodes s) (path_elems p) = None")
  case True
  then show ?thesis using assms by (simp add: store_Delete_missing)
next
  case False
  obtain st' where st': "store_Delete p s = s\<lparr>version := version s + 1, nodes := st'\<rparr>"
    "purged (rev (path_elems p)) (nodes s) st'"
    using store_Delete_effect [OF assms(2) False] assms(1) by (auto simp: store_ok_def nodes_ok_def)
  have "clean_rel (amap (nodes s) x) (amap st' x)" using st'(2) assms(3) unfolding purged_def by simp
  then show ?thesis using st'(1) leaf_clean_rel assms(4) by simp
qed

text \<open>C6: After a \<^verbatim>\<open>Delete\<close> of a path, \<^verbatim>\<open>Get\<close> of the path is nil (for the root: the empty map), every string
  below it is gone, and every string that was readable anywhere else still is.\<close>

theorem store_Get_Delete:
  assumes "live s"
  shows "snd (store_Get p (store_Delete p s)) = (if path_elems p = [] then VMap [] else VNil) \<and>
    (\<forall>q r. if within (path_elems p) (path_elems q @ r)
       then val_leaf r (snd (store_Get q (store_Delete p s))) = None
       else \<forall>v. val_leaf r (snd (store_Get q s)) = Some v \<longrightarrow>
         val_leaf r (snd (store_Get q (store_Delete p s))) = Some v)"
proof -
  let ?s = "store_Delete p s"
  have l: "store_ok ?s" "\<not> rootNil ?s" using assms store_ok_store_Delete by simp_all
  have none: "leaf (amap (nodes ?s)) (path_elems p @ x) = None" for x
    using store_Delete_no_leaf [of s p x] assms by blast
  have "snd (store_Get p ?s) = (if path_elems p = [] then VMap [] else VNil)"
  proof (cases "path_elems p = []")
    case True
    then have "\<And>x. leaf (flat (tree (nodes ?s))) x = None" using none by simp
    moreover have "node_ok (tree (nodes ?s))" using l by (simp add: store_ok_def nodes_ok_def)
    ultimately have "GetValue (tree (nodes ?s)) = VMap []" using GetValue_empty by blast
    with True show ?thesis by (simp add: store_Get_value [OF l])
  next
    case False
    then show ?thesis using store_Get_nil [OF l, of p] none by simp
  qed
  moreover have "val_leaf r (snd (store_Get q ?s)) = None"
    if "within (path_elems p) (path_elems q @ r)" for q r
    unfolding store_Get_leaves [OF l] using that none by (auto elim!: prefixE)
  moreover have "val_leaf r (snd (store_Get q ?s)) = Some v"
    if "\<not> within (path_elems p) (path_elems q @ r)" "val_leaf r (snd (store_Get q s)) = Some v" for q r v
    using that store_Get_leaves [of s r q] store_Delete_leaf_kept [of s p "path_elems q @ r" v] assms
    by (simp add: store_Get_leaves [OF l])
  ultimately show ?thesis by simp
qed

theorem store_Get_Delete_witness:
  "snd (store_Get ''/a'' (store_Delete ''/a'' sample_ab)) = VNil"
proof -
  have "path_elems ''/a'' \<noteq> []" by code_simp
  then show ?thesis using store_Get_Delete [OF live_sample_ab, of "''/a''"] by simp
qed

text \<open>C21: The result of \<^verbatim>\<open>PutBulk\<close> does not depend on the order in which Go iterates over the map, as long
  as the keys denote different nodes: every \<^verbatim>\<open>Get\<close> sees the same strings and the version is the same.\<close>

theorem store_PutBulk_order:
  assumes "live s" and "mset kvs = mset kvs'" and "\<forall>kv\<in>set kvs. strings_TrimSpace (fst kv) \<noteq> ''''"
    and "distinct (map (\<lambda>kv. bulk_elems p (fst kv)) kvs)"
  shows "fst (store_PutBulk p kvs s) = Inr () \<and> fst (store_PutBulk p kvs' s) = Inr () \<and>
    amap (nodes (snd (store_PutBulk p kvs s))) = amap (nodes (snd (store_PutBulk p kvs' s))) \<and>
    version (snd (store_PutBulk p kvs s)) = version (snd (store_PutBulk p kvs' s)) \<and>
    (\<forall>q r. val_leaf r (snd (store_Get q (snd (store_PutBulk p kvs s)))) =
      val_leaf r (snd (store_Get q (snd (store_PutBulk p kvs' s)))))"
proof -
  have k': "\<forall>kv\<in>set kvs'. strings_TrimSpace (fst kv) \<noteq> ''''"
    using assms(2,3) by (metis set_mset_mset)
  have len: "length kvs' = length kvs" using assms(2) by (metis size_mset)
  obtain st1 where st1: "internalPutBulk p kvs s =
      (Inr (), s\<lparr>version := version s + of_nat (length kvs), nodes := st1\<rparr>)"
    "amap st1 = put_all p kvs (amap (nodes s))"
    using internalPutBulk_put_all [OF _ assms(3), of s p] assms(1) by blast
  obtain st2 where st2: "internalPutBulk p kvs' s =
      (Inr (), s\<lparr>version := version s + of_nat (length kvs'), nodes := st2\<rparr>)"
    "amap st2 = put_all p kvs' (amap (nodes s))"
    using internalPutBulk_put_all [OF _ k', of s p] assms(1) by blast
  have eq: "amap st1 = amap st2" using st1(2) st2(2) put_all_perm [OF assms(2,4)] by simp
  have "store_ok (snd (store_PutBulk p kvs s))" "store_ok (snd (store_PutBulk p kvs' s))"
    using assms(1) store_ok_store_PutBulk by blast+
  with st1(1) st2(1) eq assms(1) len show ?thesis
    by (simp add: store_PutBulk_def store_Get_leaves)
qed

theorem store_PutBulk_order_witness:
  "amap (nodes (snd (store_PutBulk ''/p'' [(''x'', ''1''), (''y'', ''2'')] sample_ab))) =
   amap (nodes (snd (store_PutBulk ''/p'' [(''y'', ''2''), (''x'', ''1'')] sample_ab)))"
proof -
  have "\<forall>kv\<in>set [(''x'', ''1''), (''y'', ''2'')]. strings_TrimSpace (fst kv) \<noteq> ''''" by code_simp
  moreover have "distinct (map (\<lambda>kv. bulk_elems ''/p'' (fst kv)) [(''x'', ''1''), (''y'', ''2'')])"
    by code_simp
  ultimately show ?thesis
    using store_PutBulk_order [OF live_sample_ab, of "[(''x'', ''1''), (''y'', ''2'')]"
        "[(''y'', ''2''), (''x'', ''1'')]" "''/p''"] by (simp add: add_mset_commute)
qed

section \<open>Versions and failures\<close>

text \<open>C24: The version counts the changes modulo \<^verbatim>\<open>2^64\<close>: one for a put of a string, one per flattened entry
  of a container, one per entry of a bulk put, one for a delete of a path that exists and none for
  one that does not, none for watching, unwatching, receiving and cleaning.\<close>

theorem store_version_counts:
  assumes "live s" and "store_step s op s'"
  shows "version s' = version s +
    (case op of
       OpPut p v \<Rightarrow> (case v of VStr t \<Rightarrow> 1 | _ \<Rightarrow> (case Flatten v of Inl e \<Rightarrow> 0 | Inr kvs \<Rightarrow> of_nat (length kvs)))
     | OpPutBulk p kvs \<Rightarrow> of_nat (length kvs)
     | OpDelete p \<Rightarrow> if amap (nodes s) (path_elems p) = None then 0 else 1
     | _ \<Rightarrow> 0)"
  using assms(2)
proof cases
  case (Put p v)
  have bulk: "version (snd (internalPutBulk q kvs s)) = version s + of_nat (length kvs)" for q kvs
    using internalPutBulk_effect [of s q kvs] assms(1) by auto
  have str: "version (snd (internalPut q t s)) = version s + 1" for q t
    using internalPut_effect [of s q t] assms(1) by auto
  have "version (snd (store_Put p (VStr t) s)) = version s + 1" for t
    using str [of "path_Clean (path_Join [''/'', p])" t]
    by (auto simp: store_Put_def split: prod.splits sum.splits)
  with Put show ?thesis by (cases v) (simp_all add: store_Put_def Flatten_def bulk)
next
  case (PutBulk p kvs)
  then show ?thesis using internalPutBulk_effect [of s p kvs] assms(1) by (auto simp: store_PutBulk_def)
next
  case (Delete p)
  then show ?thesis
    using assms(1) store_Delete_missing [of s p] store_Delete_effect [of s p]
    by (cases "amap (nodes s) (path_elems p) = None") (auto simp: store_ok_def nodes_ok_def)
next
  case (Watch p buf)
  have "version (snd (store_Watch p buf s)) = version s"
    by (auto simp: store_Watch_def Let_def split: prod.splits sum.splits option.splits)
  with Watch show ?thesis by simp
next
  case (Remove i)
  have "version (snd (store_Clean q u)) = version u" for q u by (simp add: store_Clean_def)
  then have "version (snd (watcher_Remove i s)) = version s"
    by (auto simp: watcher_Remove_def Let_def split: option.splits)
  with Remove show ?thesis by simp
next
  case (Recv i e)
  then show ?thesis by (auto simp: watcher_recv_def split: if_splits option.splits)
next
  case (CleanStep)
  then show ?thesis using clean_step_effect [of s s'] by auto
qed (simp_all add: store_Clean_def store_Destroy_def)

theorem store_version_counts_witness:
  "version (store_Delete ''/a'' sample_ab) = version sample_ab + 1"
proof -
  have "amap (nodes sample_ab) (path_elems ''/a'') \<noteq> None" by code_simp
  then show ?thesis
    using store_version_counts [OF live_sample_ab store_step.Delete, of "''/a''"]
    by (simp del: path_elems_slash)
qed

text \<open>On a live store a put of a string, a map or a slice always succeeds; any other value panics
  with the store unchanged.\<close>

theorem store_Put_total:
  assumes "live s"
  shows "fst (store_Put p v s) = (case v of
      VStr t \<Rightarrow> Inr () | VMap m \<Rightarrow> Inr () | VSlice vs \<Rightarrow> Inr ()
    | _ \<Rightarrow> Inl (Panic ''Unsupport type'')) \<and>
    (fst (store_Put p v s) \<noteq> Inr () \<longrightarrow> snd (store_Put p v s) = s)"
proof -
  have "fst (internalPutBulk q kvs s) = Inr ()" for q kvs
    using internalPutBulk_effect [of s q kvs] assms by auto
  moreover have "fst (store_Put p (VStr t) s) = Inr ()" for t
    using internalPut_effect [of s "path_Clean (path_Join [''/'', p])" t] assms
    by (auto simp: store_Put_def)
  ultimately show ?thesis by (cases v) (simp_all add: store_Put_def Flatten_def)
qed

theorem store_Put_total_witness:
  "fst (store_Put ''/x'' (VMap [(''k'', VNil)]) newStore) = Inr () \<and>
   fst (store_Put ''/x'' VNil newStore) = Inl (Panic ''Unsupport type'')"
  using store_Put_total [OF live_new, of "''/x''" "VMap [(''k'', VNil)]"]
    store_Put_total [OF live_new, of "''/x''" VNil] by simp

section \<open>Notification\<close>

text \<open>C8: The events of a put of \<open>v\<close> at \<open>p\<close>, when no node strictly above \<open>p\<close> is a leaf.  If the text at \<open>p\<close> is
  news (there was no node, an empty directory, or a leaf with another text), every open watcher
  whose node is \<open>p\<close> or above it gets exactly one \<^verbatim>\<open>UPDATE\<close> event with the new text and the path relative
  to its node, dropped only if its buffer is full; every other watcher, and every watcher when the
  text is not news, gets nothing.\<close>

theorem store_Put_events:
  assumes "live s" and "path_elems p = ds @ [n]" and "no_leaf_upto (amap (nodes s)) ds"
  shows "wtab (nodes (snd (store_Put p (VStr v) s))) =
    map (\<lambda>w. if put_is_news (amap (nodes s)) (path_elems p) v \<and> \<not> closed w \<and>
                within (rev (wnode w)) (path_elems p)
             then chan_send (newEvent Update (abs_path (drop (length (wnode w)) (path_elems p))) v) w
             else w) (wtab (nodes s))"
  using wtab_store_Put [OF _ _ assms(2,3)] assms(1) by (simp add: store_ok_def)

theorem store_Put_events_witness:
  "wtab (nodes (snd (store_Put ''/a/c'' (VStr ''2'') sample_watched))) =
    [(newWatcher [''a''] 10)\<lparr>eventChan := [newEvent Update ''/c'' ''2'']\<rparr>]"
proof -
  have p: "path_elems ''/a/c'' = [''a''] @ [''c'']" by code_simp
  have v: "amap (nodes sample_watched) [] = Some (Attr '''' True [])"
    "amap (nodes sample_watched) [''a''] = Some (Attr '''' True [0])"
    "amap (nodes sample_watched) [''a'', ''c''] = None"
    by code_simp+
  then have "no_leaf_upto (amap (nodes sample_watched)) [''a'']"
    by (auto simp: no_leaf_upto_def prefix_Cons)
  then show ?thesis
    using store_Put_events [OF live_sample_watched p, of "''2''"] v
    by (simp add: sample_watched_wtab put_is_news_def p chan_send_def abs_path_def del: path_elems_slash)
qed

section \<open>Watching\<close>

text \<open>\<^verbatim>\<open>Remove\<close> on an open watcher succeeds and takes it off its node; a second \<^verbatim>\<open>Remove\<close> of the same
  watcher panics, although the flag \<^verbatim>\<open>removed\<close> is there to make it harmless.\<close>

theorem watcher_Remove_twice:
  assumes "live s" and "i < length (wtab (nodes s))" and "\<not> closed (wtab (nodes s) ! i)"
  shows "fst (watcher_Remove i s) = Inr () \<and> removed (wtab (nodes (snd (watcher_Remove i s))) ! i) \<and>
    watcher_Remove i (snd (watcher_Remove i s)) =
      (Inl (Panic ''close of closed channel''), snd (watcher_Remove i s))"
proof -
  have nok: "nodes_ok (nodes s)" "\<not> cleanClosed s" using assms(1) by (auto simp: store_ok_def)
  obtain c where c: "snd (watcher_Remove i s) = s\<lparr>nodes := unregister i (nodes s), cleanChan := c\<rparr>"
    using watcher_Remove_open [OF nok(1) assms(2,3)] by blast
  have "fst (watcher_Remove i s) = Inr ()" using watcher_Remove_returns(1) assms by blast
  moreover have "closed (wtab (unregister i (nodes s)) ! i)" "removed (wtab (unregister i (nodes s)) ! i)"
    using assms(2) by simp_all
  ultimately show ?thesis using assms(2) by (simp add: c watcher_Remove_def [of i "s\<lparr>nodes := _, cleanChan := c\<rparr>"])
qed

theorem watcher_Remove_twice_witness:
  "watcher_Remove 0 (snd (watcher_Remove 0 sample_watched)) =
    (Inl (Panic ''close of closed channel''), snd (watcher_Remove 0 sample_watched))"
  using watcher_Remove_twice [OF live_sample_watched, of 0] by (simp add: sample_watched_wtab)

text \<open>Watching a path below a leaf hides the leaf: its string is no longer returned by any \<^verbatim>\<open>Get\<close>,
  although the text is kept, and comes back only when the watched node is cleaned away.\<close>

theorem store_Watch_hides_leaf:
  assumes "live s" and "put_target p = Some d" and "p \<noteq> ''/''"
    and "within (path_elems q @ r) d" and "path_elems q @ r \<noteq> d"
  shows "val_leaf r (snd (store_Get q (snd (store_Watch p buf s)))) = None \<and>
    store_texts (snd (store_Watch p buf s)) (path_elems q @ r) = store_texts s (path_elems q @ r)"
proof -
  have "\<not> rootNil (snd (store_Watch p buf s))"
    using store_Watch_effect [of s p d buf] assms(1-3) by auto
  then show ?thesis
    using store_ok_store_Watch [of s p buf] assms(1) leaf_watch_below [OF _ assms(2-5), of s buf]
    by (simp add: store_Get_leaves texts_store_Watch)
qed

theorem store_Watch_hides_leaf_witness:
  "snd (store_Get ''/a/b'' sample_ab) = VStr ''1'' \<and>
   val_leaf [] (snd (store_Get ''/a/b'' (snd (store_Watch ''/a/b/c'' 10 sample_ab)))) = None"
proof -
  have "path_elems ''/a/b'' = [''a'', ''b'']" "put_target ''/a/b/c'' = Some [''a'', ''b'', ''c'']"
    "snd (store_Get ''/a/b'' sample_ab) = VStr ''1''" by code_simp+
  then show ?thesis
    using store_Watch_hides_leaf [OF live_sample_ab, of "''/a/b/c''" _ "''/a/b''" "[]" 10]
    by (simp del: path_elems_slash)
qed

text \<open>\<^verbatim>\<open>Watch\<close> on a live store succeeds exactly for the root and for paths that do not end in a slash;
  with a trailing slash it panics.\<close>

theorem store_Watch_trailing_slash:
  assumes "live s"
  shows "fst (store_Watch p buf s) =
    (if p = ''/'' \<or> snd (path_Split p) \<noteq> '''' then Inr (length (wtab (nodes s)))
     else Inl (Panic ''nodeName can not be emtpy.''))"
proof -
  have "node_ok (tree (nodes s))" using assms by (simp add: store_ok_def nodes_ok_def)
  then have "fst (store_Watch p buf s) = Inl (Panic ''nodeName can not be emtpy.'')"
    if "p \<noteq> ''/''" "snd (path_Split p) = ''''"
    using store_Watch_panic [of s p buf] that assms by (simp add: put_target_def)
  moreover have "fst (store_Watch p buf s) = Inr (length (wtab (nodes s)))"
    if "p = ''/'' \<or> snd (path_Split p) \<noteq> ''''"
    using store_Watch_effect [of s p _ buf] that assms by (cases "p = ''/''") (auto simp: put_target_def)
  ultimately show ?thesis by auto
qed

theorem store_Watch_trailing_slash_witness:
  "fst (store_Watch ''/a/'' 10 sample_ab) = Inl (Panic ''nodeName can not be emtpy.'')"
proof -
  have "snd (path_Split ''/a/'') = ''''" by code_simp
  then show ?thesis using store_Watch_trailing_slash [OF live_sample_ab, of "''/a/''" 10] by simp
qed

end
