(* ===== verification/Aggregate_Props.thy ===== *)
theory Aggregate_Props
  imports Aggregate Store_Correct
begin

text \<open>
  The aggregate watcher: its goroutines forward every event exactly once, and \<^verbatim>\<open>Remove\<close> returns exactly
  when the events that are under way fit into the aggregated channel.
\<close>

section \<open>The events under way\<close>

fun in_flight :: "goroutine \<Rightarrow> event multiset" where
  "in_flight (Sending e) = {#e#}" | "in_flight Waiting = {#}" | "in_flight Exited = {#}"

definition go_events :: "store \<Rightarrow> string \<times> nat \<times> goroutine \<Rightarrow> event multiset" where
  "go_events s = (\<lambda>(k, w, g). in_flight g + image_mset (agg_event k) (mset (eventChan (wtab (nodes s) ! w))))"

text \<open>The events that a reader of the aggregated channel still has to see.\<close>

definition agg_events :: "aggregateWatcher \<times> store \<Rightarrow> event multiset" where
  "agg_events = (\<lambda>(a, s). mset (aChan a) + (\<Sum>x\<leftarrow>aWatchers a. go_events s x))"

text \<open>A goroutine that is gone has seen its channel closed and drained.\<close>

definition go_ok :: "store \<Rightarrow> string \<times> nat \<times> goroutine \<Rightarrow> bool" where
  "go_ok s = (\<lambda>(k, w, g). w < length (wtab (nodes s)) \<and>
     (g = Exited \<longrightarrow> closed (wtab (nodes s) ! w) \<and> eventChan (wtab (nodes s) ! w) = []))"

definition agg_ok :: "aggregateWatcher \<times> store \<Rightarrow> bool" where
  "agg_ok = (\<lambda>(a, s). distinct (agg_ids a) \<and> length (aChan a) \<le> agg_cap a \<and> (\<forall>x\<in>set (aWatchers a). go_ok s x))"

lemma agg_okD:
  assumes "agg_ok (a, s)" and "i < length (aWatchers a)" and "aWatchers a ! i = (k, w, g)"
  shows "w < length (wtab (nodes s))" "g = Exited \<Longrightarrow> closed (wtab (nodes s) ! w) \<and> eventChan (wtab (nodes s) ! w) = []"
  using assms nth_mem [OF assms(2)] by (auto simp: agg_ok_def go_ok_def)

lemma agg_ok_other:
  assumes "agg_ok (a, s)" and "i < length (aWatchers a)" and "aWatchers a ! i = (k, w, g)"
    and "j < length (aWatchers a)" and "aWatchers a ! j = (k', w, g')"
  shows "j = i"
proof -
  have "distinct (agg_ids a)" using assms(1) by (simp add: agg_ok_def)
  then show ?thesis using assms(2-) nth_eq_iff_index_eq [of "agg_ids a" i j] by (simp add: agg_ids_def)
qed

lemma sum_list_update_monoid:
  fixes f g :: "'a \<Rightarrow> 'b :: comm_monoid_add"
  assumes "i < length xs" and "\<And>j. j < length xs \<Longrightarrow> j \<noteq> i \<Longrightarrow> g (xs ! j) = f (xs ! j)"
  shows "(\<Sum>x\<leftarrow>xs[i := y]. g x) + f (xs ! i) = (\<Sum>x\<leftarrow>xs. f x) + g y"
proof -
  have "map g (take i xs) = map f (take i xs)" "map g (drop (Suc i) xs) = map f (drop (Suc i) xs)"
    using assms by (auto simp del: map_eq_conv simp: map_nth intro!: nth_equalityI)
  then have "(\<Sum>x\<leftarrow>xs[i := y]. g x) = (\<Sum>x\<leftarrow>take i xs. f x) + g y + (\<Sum>x\<leftarrow>drop (Suc i) xs. f x)"
    using assms(1) by (simp only: upd_conv_take_nth_drop map_append list.map sum_list_append sum_list.Cons add.assoc)
  moreover have "(\<Sum>x\<leftarrow>xs. f x) = (\<Sum>x\<leftarrow>take i xs @ xs ! i # drop (Suc i) xs. f x)"
    using id_take_nth_drop [OF assms(1)] by simp
  ultimately show ?thesis by (simp add: ac_simps)
qed

text \<open>An action of a goroutine moves an event on, and neither loses nor invents one.\<close>

lemma agg_events_go:
  assumes "agg_go i (a, s) = Some (a', s')" and "agg_ok (a, s)"
  shows "agg_events (a', s') = agg_events (a, s)"
  using assms(1)
proof (cases rule: agg_go_cases)
  case (recv k w e es)
  have "go_events s' (aWatchers a ! j) = go_events s (aWatchers a ! j)" if "j < length (aWatchers a)" "j \<noteq> i" for j
  proof -
    obtain k' w' g' where j: "aWatchers a ! j = (k', w', g')" by (metis prod_cases3)
    then have "w' \<noteq> w" using agg_ok_other [OF assms(2) recv(1,2) that(1)] that(2) by blast
    then show ?thesis using j recv by (simp add: go_events_def)
  qed
  then have "(\<Sum>x\<leftarrow>(aWatchers a)[i := (k, w, Sending (agg_event k e))]. go_events s' x) + go_events s (aWatchers a ! i) =
      (\<Sum>x\<leftarrow>aWatchers a. go_events s x) + go_events s' (k, w, Sending (agg_event k e))"
    by (intro sum_list_update_monoid [OF recv(1)])
  then
  show ?thesis using recv by (simp add: agg_events_def go_events_def)
next
  case (send k w e)
  from sum_list_update_monoid [OF send(1), of "go_events s" "go_events s" "(k, w, Waiting)"]
  show ?thesis using send by (simp add: agg_events_def go_events_def)
next
  case (exit k w)
  from sum_list_update_monoid [OF exit(1), of "go_events s" "go_events s" "(k, w, Exited)"]
  show ?thesis using exit by (simp add: agg_events_def go_events_def)
qed

lemma agg_ids_update:
  assumes "i < length (aWatchers a)" and "aWatchers a ! i = (k, w, g)" and "aWatchers a' = (aWatchers a)[i := (k, w, g')]"
  shows "agg_ids a' = agg_ids a"
  using assms by (simp add: agg_ids_def map_update list_update_same_conv)

lemma ball_list_update: "(\<And>j. j < length xs \<Longrightarrow> j \<noteq> i \<Longrightarrow> P (xs ! j)) \<Longrightarrow> P y \<Longrightarrow> x \<in> set (xs[i := y]) \<Longrightarrow> P x"
  unfolding in_set_conv_nth by (metis length_list_update nth_list_update_eq nth_list_update_neq)

lemma agg_ok_go:
  assumes "agg_go i (a, s) = Some (a', s')" and "agg_ok (a, s)"
  shows "agg_ok (a', s')" and "map closed (wtab (nodes s')) = map closed (wtab (nodes s))" and "agg_ids a' = agg_ids a"
proof -
  have ok: "distinct (agg_ids a)" "length (aChan a) \<le> agg_cap a" "\<And>j. j < length (aWatchers a) \<Longrightarrow> go_ok s (aWatchers a ! j)"
    using assms(2) by (auto simp: agg_ok_def)
  have *: "agg_ok (a', s') \<and> map closed (wtab (nodes s')) = map closed (wtab (nodes s)) \<and> agg_ids a' = agg_ids a"
    using assms(1)
  proof (cases rule: agg_go_cases)
    case (recv k w e es)
    have c: "map closed (wtab (nodes s')) = map closed (wtab (nodes s))"
      using recv by (simp add: map_update list_update_same_conv)
    have o: "go_ok s' (aWatchers a ! j)" if "j < length (aWatchers a)" "j \<noteq> i" for j
    proof -
      obtain k' w' g' where j: "aWatchers a ! j = (k', w', g')" by (metis prod_cases3)
      then have "w' \<noteq> w" using agg_ok_other [OF assms(2) recv(1,2) that(1)] that(2) by blast
      then show ?thesis using j recv ok(3) [OF that(1)] by (simp add: go_ok_def)
    qed
    have "go_ok s' x" if "x \<in> set (aWatchers a')" for x
      by (rule ball_list_update [of "aWatchers a" i _ "(k, w, Sending (agg_event k e))"])
        (use o that recv in \<open>auto simp: go_ok_def\<close>)
    then show ?thesis using c ok agg_ids_update [OF recv(1,2), of a'] recv by (simp add: agg_ok_def agg_cap_def)
  next
    case (send k w e)
    have "go_ok s x" if "x \<in> set (aWatchers a')" for x
      by (rule ball_list_update [of "aWatchers a" i _ "(k, w, Waiting)"])
        (use ok(3) agg_okD(1) [OF assms(2) send(1,2)] that send in \<open>auto simp: go_ok_def\<close>)
    then show ?thesis using ok agg_ids_update [OF send(1,2), of a'] send by (simp add: agg_ok_def agg_cap_def)
  next
    case (exit k w)
    have "go_ok s x" if "x \<in> set (aWatchers a')" for x
      by (rule ball_list_update [of "aWatchers a" i _ "(k, w, Exited)"])
        (use ok(3) that exit in \<open>auto simp: go_ok_def\<close>)
    then show ?thesis using ok agg_ids_update [OF exit(1,2), of a'] exit by (simp add: agg_ok_def agg_cap_def)
  qed
  then show "agg_ok (a', s')" "map closed (wtab (nodes s')) = map closed (wtab (nodes s))" "agg_ids a' = agg_ids a" by blast+
qed

section \<open>Runs\<close>

text \<open>The goroutines and the reader, interleaved in any order; the list holds the events that were read.\<close>

inductive agg_run :: "aggregateWatcher \<times> store \<Rightarrow> event list \<Rightarrow> aggregateWatcher \<times> store \<Rightarrow> bool" for st where
  start: "agg_run st [] st"
| go: "agg_run st es st' \<Longrightarrow> agg_go i st' = Some st'' \<Longrightarrow> agg_run st es st''"
| read: "agg_run st es (a, s) \<Longrightarrow> agg_recv a = Some (e, a') \<Longrightarrow> agg_run st (es @ [e]) (a', s)"

inductive_cases agg_run_NilE: "agg_run st [] st'"

abbreviation same_subs :: "aggregateWatcher \<times> store \<Rightarrow> aggregateWatcher \<times> store \<Rightarrow> bool" where
  "same_subs st st' \<equiv> agg_ids (fst st') = agg_ids (fst st) \<and>
     map closed (wtab (nodes (snd st'))) = map closed (wtab (nodes (snd st)))"

lemma agg_run_conserves:
  assumes "agg_run st es st'" and "agg_ok st"
  shows "agg_ok st' \<and> agg_events st = mset es + agg_events st' \<and> same_subs st st'"
  using assms
proof induction
  case (go es st' i st'')
  obtain a s a' s' where st: "st' = (a, s)" "st'' = (a', s')" by (cases st'; cases st'')
  with go show ?case using agg_events_go [of i a s a' s'] agg_ok_go [of i a s a' s'] by simp
next
  case (read es a s e a')
  then have "agg_ok (a', s) \<and> add_mset e (agg_events (a', s)) = agg_events (a, s) \<and> same_subs (a, s) (a', s)"
    by (auto simp: agg_recv_def agg_ok_def agg_cap_def agg_ids_def agg_events_def split: list.splits)
  with read show ?case by auto
qed simp

definition subs_closed :: "aggregateWatcher \<times> store \<Rightarrow> bool" where
  "subs_closed = (\<lambda>(a, s). \<forall>w\<in>set (agg_ids a). closed (wtab (nodes s) ! w))"

lemma subs_closed_same:
  assumes "same_subs st st'" and "agg_ok st'" and "subs_closed st"
  shows "subs_closed st'"
proof -
  obtain a s a' s' where st: "st = (a, s)" "st' = (a', s')" by (cases st; cases st')
  have "closed (wtab (nodes s') ! w)" if "w \<in> set (agg_ids a')" for w
  proof -
    have "w < length (wtab (nodes s'))" using that assms(2) by (auto simp: st agg_ok_def go_ok_def agg_ids_def)
    moreover have c: "map closed (wtab (nodes s')) = map closed (wtab (nodes s))" using assms(1) by (simp add: st)
    moreover have "length (wtab (nodes s')) = length (wtab (nodes s))" using c map_eq_imp_length_eq by blast
    moreover have "closed (wtab (nodes s) ! w)" using that assms(1,3) by (auto simp: st subs_closed_def)
    ultimately show ?thesis by (metis nth_map)
  qed
  then show ?thesis by (simp add: st subs_closed_def)
qed

text \<open>When the sub-watchers are closed and no goroutine can act, each is gone or blocked on the full channel.\<close>

lemma agg_stuck:
  assumes "agg_ok (a, s)" and "subs_closed (a, s)" and "\<And>i. agg_go i (a, s) = None" and "(k, w, g) \<in> set (aWatchers a)"
  shows "g = Exited \<or> (\<exists>e. g = Sending e \<and> length (aChan a) = agg_cap a)"
proof -
  from assms(4) obtain i where i: "i < length (aWatchers a)" "aWatchers a ! i = (k, w, g)" by (auto simp: in_set_conv_nth)
  have w: "w < length (wtab (nodes s))" using agg_okD(1) [OF assms(1) i] .
  have "w \<in> set (agg_ids a)" using assms(4) by (force simp: agg_ids_def)
  then have c: "closed (wtab (nodes s) ! w)" using assms(2) by (auto simp: subs_closed_def)
  have l: "length (aChan a) \<le> agg_cap a" using assms(1) by (simp add: agg_ok_def)
  show ?thesis
    using assms(3) [of i] i w c l by (cases g) (auto simp: agg_go_def split: option.splits if_splits)
qed

lemma agg_events_exited:
  assumes "agg_ok (a, s)" and "all_exited a"
  shows "agg_events (a, s) = mset (aChan a)"
proof -
  have "go_events s x = {#}" if "x \<in> set (aWatchers a)" for x
    using that assms by (fastforce simp: all_exited_def agg_ok_def go_ok_def go_events_def)
  then have "map (go_events s) (aWatchers a) = map (\<lambda>_. {#}) (aWatchers a)" by simp
  then show ?thesis by (simp only: agg_events_def prod.case) simp
qed

lemma agg_events_blocked:
  assumes "(k, w, Sending e) \<in> set (aWatchers a)"
  shows "length (aChan a) < size (agg_events (a, s))"
proof -
  have "e \<in># (\<Sum>x\<leftarrow>aWatchers a. go_events s x)"
    using assms by (force simp: go_events_def)
  then have "0 < size (\<Sum>x\<leftarrow>aWatchers a. go_events s x)" by (metis gr_zeroI size_eq_0_iff_empty empty_not_add_mset multi_member_split)
  then show ?thesis by (simp add: agg_events_def)
qed

text \<open>A settled state with closed sub-watchers: everybody is gone exactly when the events fit into the channel.\<close>

lemma agg_settled_iff:
  assumes "agg_ok (a, s)" and "subs_closed (a, s)" and "\<And>i. agg_go i (a, s) = None"
  shows "all_exited a \<longleftrightarrow> size (agg_events (a, s)) \<le> agg_cap a"
proof
  assume "all_exited a"
  then show "size (agg_events (a, s)) \<le> agg_cap a"
    using agg_events_exited [OF assms(1)] assms(1) by (simp add: agg_ok_def)
next
  assume "size (agg_events (a, s)) \<le> agg_cap a"
  then show "all_exited a"
    using agg_stuck [OF assms] agg_events_blocked [of _ _ _ a s] by (fastforce simp: all_exited_def)
qed

lemma agg_next_None: "agg_next st = None \<Longrightarrow> agg_go i st = None"
proof -
  assume n: "agg_next st = None"
  have f: "filter (\<lambda>i. agg_go i st \<noteq> None) [0..<length (aWatchers (fst st))] = []"
  proof (cases "filter (\<lambda>i. agg_go i st \<noteq> None) [0..<length (aWatchers (fst st))]")
    case (Cons j js)
    then have "agg_go j st \<noteq> None" using filter_eq_ConsD [OF Cons] by blast
    then show ?thesis using n Cons by (simp add: agg_next_def)
  qed
  show "agg_go i st = None"
  proof (cases "i < length (aWatchers (fst st))")
    case True
    then show ?thesis using f by (cases "agg_go i st") (auto simp: filter_empty_conv)
  qed (cases st, simp add: agg_go_def)
qed

lemma agg_settle_run: "agg_run st [] (agg_settle st) \<and> (\<forall>i. agg_go i (agg_settle st) = None)"
proof -
  have "agg_run st0 [] st \<Longrightarrow> agg_run st0 [] (agg_settle st) \<and> (\<forall>i. agg_go i (agg_settle st) = None)" for st0
  proof (induction st rule: agg_settle.induct)
    case (1 st)
    show ?case
    proof (cases "agg_next st")
      case None
      then show ?thesis using 1 agg_next_None by (simp add: agg_settle.simps [of st])
    next
      case (Some st')
      then obtain i where "agg_go i st = Some st'" using agg_next_Some by blast
      with 1 Some agg_run.go show ?thesis by (simp add: agg_settle.simps [of st])
    qed
  qed
  then show ?thesis using agg_run.start by blast
qed

section \<open>Removal\<close>

lemma remove_all_effect:
  assumes "live s" and "distinct ws" and "\<forall>w\<in>set ws. w < length (wtab (nodes s)) \<and> \<not> closed (wtab (nodes s) ! w)"
  obtains s' where "remove_all ws s = (Inr (), s')" and "live s'"
    and "map eventChan (wtab (nodes s')) = map eventChan (wtab (nodes s))"
    and "\<And>i. i < length (wtab (nodes s)) \<Longrightarrow> closed (wtab (nodes s') ! i) \<longleftrightarrow> i \<in> set ws \<or> closed (wtab (nodes s) ! i)"
  using assms
proof (induction ws arbitrary: s thesis)
  case (Cons w ws)
  have w: "w < length (wtab (nodes s))" "\<not> closed (wtab (nodes s) ! w)" using Cons.prems(4) by simp_all
  obtain s1 where s1: "watcher_Remove w s = (Inr (), s1)" "\<not> rootNil s1" "store_ok s1"
    using watcher_Remove_returns [OF _ _ w] store_ok_watcher_Remove [of s w] Cons.prems(2) by (cases "watcher_Remove w s") auto
  have t1: "wtab (nodes s1) = (wtab (nodes s))[w := (wtab (nodes s) ! w)\<lparr>closed := True, removed := True\<rparr>]"
    using watcher_Remove_open [OF _ w] s1(1) Cons.prems(2) by (auto simp: store_ok_def)
  obtain s' where s': "remove_all ws s1 = (Inr (), s')" "live s'" "map eventChan (wtab (nodes s')) = map eventChan (wtab (nodes s1))"
    "\<And>i. i < length (wtab (nodes s1)) \<Longrightarrow> closed (wtab (nodes s') ! i) \<longleftrightarrow> i \<in> set ws \<or> closed (wtab (nodes s1) ! i)"
  proof (rule Cons.IH)
    show "\<forall>v\<in>set ws. v < length (wtab (nodes s1)) \<and> \<not> closed (wtab (nodes s1) ! v)"
      using Cons.prems(3,4) t1 by (auto simp: nth_list_update)
  qed (use s1(2,3) Cons.prems(3) in auto)
  show ?case
  proof (rule Cons.prems(1))
    show "remove_all (w # ws) s = (Inr (), s')" using s1(1) s'(1) by simp
    show "map eventChan (wtab (nodes s')) = map eventChan (wtab (nodes s))"
      using s'(3) w(1) t1 by (simp add: map_update list_update_same_conv)
    show "closed (wtab (nodes s') ! i) \<longleftrightarrow> i \<in> set (w # ws) \<or> closed (wtab (nodes s) ! i)" if "i < length (wtab (nodes s))" for i
      using s'(4) [of i] that w t1 by (cases "i = w") auto
  qed (rule s'(2))
qed simp

text \<open>An aggregate before its removal: its sub-watchers are open, so every goroutine is alive.\<close>

definition subs_open :: "aggregateWatcher \<times> store \<Rightarrow> bool" where
  "subs_open = (\<lambda>(a, s). \<forall>w\<in>set (agg_ids a). \<not> closed (wtab (nodes s) ! w))"

lemma agg_events_chans:
  assumes "agg_ok (a, s)" and "map eventChan (wtab (nodes s')) = map eventChan (wtab (nodes s))"
  shows "agg_events (a, s') = agg_events (a, s)"
proof -
  have l: "length (wtab (nodes s')) = length (wtab (nodes s))" using assms(2) map_eq_imp_length_eq by blast
  have "go_events s' x = go_events s x" if "x \<in> set (aWatchers a)" for x
  proof -
    obtain k w g where x: "x = (k, w, g)" by (metis prod_cases3)
    then have "w < length (wtab (nodes s))" using that assms(1) by (auto simp: agg_ok_def go_ok_def)
    then have "eventChan (wtab (nodes s') ! w) = eventChan (wtab (nodes s) ! w)" using assms(2) l by (metis nth_map)
    then show ?thesis by (simp add: x go_events_def)
  qed
  then have "map (go_events s') (aWatchers a) = map (go_events s) (aWatchers a)" by simp
  then show ?thesis by (simp only: agg_events_def prod.case)
qed

lemma agg_removed:
  assumes "live s" and "agg_ok (a, s)" and "subs_open (a, s)"
  obtains s1 where "remove_all (agg_ids a) s = (Inr (), s1)" and "live s1" and "agg_ok (a, s1)" and "subs_closed (a, s1)"
    and "agg_events (a, s1) = agg_events (a, s)"
proof -
  have ids: "distinct (agg_ids a)" "\<forall>w\<in>set (agg_ids a). w < length (wtab (nodes s)) \<and> \<not> closed (wtab (nodes s) ! w)"
    using assms(2,3) by (auto simp: agg_ok_def go_ok_def agg_ids_def subs_open_def)
  obtain s1 where s1: "remove_all (agg_ids a) s = (Inr (), s1)" "live s1" "map eventChan (wtab (nodes s1)) = map eventChan (wtab (nodes s))"
    "\<And>i. i < length (wtab (nodes s)) \<Longrightarrow> closed (wtab (nodes s1) ! i) \<longleftrightarrow> i \<in> set (agg_ids a) \<or> closed (wtab (nodes s) ! i)"
    using remove_all_effect [OF assms(1) ids] by blast
  have l: "length (wtab (nodes s1)) = length (wtab (nodes s))" using s1(3) map_eq_imp_length_eq by blast
  have "go_ok s1 x" if "x \<in> set (aWatchers a)" for x
    using that assms(2,3) l by (fastforce simp: agg_ok_def go_ok_def subs_open_def agg_ids_def)
  then have "agg_ok (a, s1)" using assms(2) by (simp add: agg_ok_def)
  moreover have "subs_closed (a, s1)" using s1(4) ids(2) by (auto simp: subs_closed_def)
  ultimately show ?thesis using that s1 agg_events_chans [OF assms(2) s1(3)] by blast
qed

section \<open>Sample aggregates\<close>

text \<open>One sub-watcher on \<^verbatim>\<open>/a\<close>, reported under \<^verbatim>\<open>/host\<close>; a store where it has one event and is removed, and one with
  51 events.\<close>

definition sample_agg :: aggregateWatcher where
  "sample_agg = NewAggregateWatcher [(''/host'', 0)]"

definition sample_agg_store :: store where
  "sample_agg_store = snd (watcher_Remove 0 (snd (store_Put ''/a/c'' (VStr ''2'') sample_watched)))"

definition flooded :: "nat \<Rightarrow> store" where
  "flooded n = fold (\<lambda>i s. snd (store_Put ''/a/c'' (VStr (if even i then ''x'' else ''y'')) s)) [0..<n]
     (snd (store_Watch ''/a'' 100 sample_ab))"

lemma live_flooded: "live (flooded n)"
proof -
  have "\<not> rootNil (snd (store_Watch ''/a'' 100 sample_ab))" by code_simp
  then have "live (snd (store_Watch ''/a'' 100 sample_ab))" using store_ok_store_Watch live_sample_ab by blast
  then show ?thesis
    unfolding flooded_def by (induction n) (simp_all add: store_ok_store_Put)
qed

section \<open>Claims\<close>

text \<open>C33: The aggregate watcher forwards every event exactly once.  However the goroutines and the reader interleave, the events
  read so far and the events still under way (in the aggregated channel, in a blocked send, or in a sub-watcher's channel,
  with the key of that sub-watcher in front of the path) are together the events there were at the start, as multisets; and
  once the sub-watchers are closed and neither a goroutine nor the reader can act, everything has been read and every
  goroutine is gone.\<close>

theorem agg_forwards_all:
  assumes "agg_ok st" and "agg_run st es (a, s)"
  shows "agg_events st = mset es + agg_events (a, s) \<and>
    (subs_closed st \<and> (\<forall>i. agg_go i (a, s) = None) \<and> agg_recv a = None \<longrightarrow> mset es = agg_events st \<and> all_exited a)"
proof (intro conjI impI)
  have c: "agg_ok (a, s)" "agg_events st = mset es + agg_events (a, s)" "same_subs st (a, s)"
    using agg_run_conserves [OF assms(2,1)] by auto
  show "agg_events st = mset es + agg_events (a, s)" by (rule c(2))
  assume e: "subs_closed st \<and> (\<forall>i. agg_go i (a, s) = None) \<and> agg_recv a = None"
  then have sc: "subs_closed (a, s)" using subs_closed_same [OF c(3,1)] by blast
  have ch: "aChan a = []" using e by (simp add: agg_recv_def split: list.splits)
  show "all_exited a"
  proof (rule ccontr)
    assume "\<not> all_exited a"
    then obtain k w g where g: "(k, w, g) \<in> set (aWatchers a)" "g \<noteq> Exited" by (auto simp: all_exited_def)
    then have "length (aChan a) = agg_cap a" using agg_stuck [OF c(1) sc _ g(1)] e by blast
    moreover have "0 < agg_cap a" using g(1) by (cases "aWatchers a") (simp_all add: agg_cap_def)
    ultimately show False using ch by simp
  qed
  then show "mset es = agg_events st" using agg_events_exited [OF c(1)] c(2) ch by simp
qed

theorem agg_forwards_all_witness:
  "\<exists>es a s. agg_run (sample_agg, sample_agg_store) es (a, s) \<and> mset es = {#newEvent Update ''/host/c'' ''2''#} \<and> all_exited a"
proof -
  let ?st = "(sample_agg, sample_agg_store)" and ?e = "newEvent Update ''/host/c'' ''2''"
  obtain a s where as: "agg_settle ?st = (a, s)" by (cases "agg_settle ?st")
  have ok: "agg_ok ?st" "subs_closed ?st" "agg_events ?st = {#?e#}" by code_simp+
  have v: "agg_recv (fst (agg_settle ?st)) = Some (?e, (fst (agg_settle ?st))\<lparr>aChan := []\<rparr>)"
    "aWatchers (fst (agg_settle ?st)) = [(''/host'', 0, Exited)]" by code_simp+
  have r: "agg_run ?st [?e] (a\<lparr>aChan := []\<rparr>, s)"
    using agg_run.read [of ?st "[]" a s ?e] agg_settle_run [of ?st] v as by simp
  have "agg_go i (a\<lparr>aChan := []\<rparr>, s) = None" for i using v as by (auto simp: agg_go_def)
  then show ?thesis using agg_forwards_all [OF ok(1) r] ok r by (auto simp: agg_recv_def)
qed

text \<open>C34: When \<^verbatim>\<open>Remove\<close> of an aggregate watcher returns.  The sub-watchers are removed without a panic; after that no run of the goroutines
  is infinite, and however they are scheduled, when none of them can act any more they are all gone exactly if the events under way
  at the call fit into the aggregated channel, whose capacity is 50 per sub-watcher.  So \<^verbatim>\<open>Remove\<close> returns, with the channel
  closed, exactly in that case, and otherwise waits for ever: nobody reads the channel while \<^verbatim>\<open>Remove\<close> waits, and the channels of the
  sub-watchers hold up to 100 events each.\<close>

theorem agg_Remove_returns_iff:
  assumes "live s" and "agg_ok (a, s)" and "subs_open (a, s)"
  shows "\<exists>s1. remove_all (agg_ids a) s = (Inr (), s1) \<and>
    (\<nexists>f. f 0 = (a, s1) \<and> (\<forall>n. \<exists>i. agg_go i (f n) = Some (f (Suc n)))) \<and>
    (\<forall>st'. agg_run (a, s1) [] st' \<and> (\<forall>i. agg_go i st' = None) \<longrightarrow>
       (all_exited (fst st') \<longleftrightarrow> size (agg_events (a, s)) \<le> agg_cap a)) \<and>
    (case fst (agg_Remove a s) of
       Inr (Some a') \<Rightarrow> aClosed a' \<and> size (agg_events (a, s)) \<le> agg_cap a
     | Inr None \<Rightarrow> agg_cap a < size (agg_events (a, s))
     | Inl p \<Rightarrow> False)"
proof -
  obtain s1 where s1: "remove_all (agg_ids a) s = (Inr (), s1)" "agg_ok (a, s1)" "subs_closed (a, s1)"
    "agg_events (a, s1) = agg_events (a, s)"
    using agg_removed [OF assms] by blast
  have no_inf: "\<nexists>f. f 0 = (a, s1) \<and> (\<forall>n. \<exists>i. agg_go i (f n) = Some (f (Suc n)))"
  proof
    assume "\<exists>f. f 0 = (a, s1) \<and> (\<forall>n. \<exists>i. agg_go i (f n) = Some (f (Suc n)))"
    then obtain f where "\<forall>n. (f (Suc n), f n) \<in> measure agg_weight" using agg_weight_go by (metis in_measure)
    then show False using wf_no_infinite_down_chainE [OF wf_measure] by metis
  qed
  have ends: "all_exited (fst st') \<longleftrightarrow> size (agg_events (a, s)) \<le> agg_cap a"
    if r: "agg_run (a, s1) [] st'" and n: "\<And>i. agg_go i st' = None" for st'
  proof -
    obtain a' s' where st': "st' = (a', s')" by (cases st')
    have c: "agg_ok (a', s')" "agg_events (a, s1) = agg_events (a', s')" "same_subs (a, s1) (a', s')"
      using agg_run_conserves [OF r s1(2)] by (auto simp: st')
    then have "length (agg_ids a') = length (agg_ids a)" by simp
    then have "agg_cap a' = agg_cap a" by (simp add: agg_cap_def agg_ids_def)
    then show ?thesis
      using agg_settled_iff [OF c(1) subs_closed_same [OF c(3,1) s1(3)]] n c(2) s1(4) by (simp add: st')
  qed
  have "case fst (agg_Remove a s) of Inr (Some a') \<Rightarrow> aClosed a' \<and> size (agg_events (a, s)) \<le> agg_cap a
     | Inr None \<Rightarrow> agg_cap a < size (agg_events (a, s)) | Inl p \<Rightarrow> False"
    using ends [of "agg_settle (a, s1)"] agg_settle_run [of "(a, s1)"] s1(1)
    by (cases "agg_settle (a, s1)") (auto simp: agg_Remove_def agg_close_def)
  with s1(1) no_inf ends show ?thesis by blast
qed

theorem agg_Remove_returns_iff_witness:
  "fst (agg_Remove sample_agg (flooded 51)) = Inr None \<and> live (flooded 51)"
proof -
  have "map (\<lambda>w. (length (eventChan w), closed w)) (wtab (nodes (flooded 51))) = [(51, False)]" by code_simp
  then obtain w where w: "wtab (nodes (flooded 51)) = [w]" "length (eventChan w) = 51" "\<not> closed w" by auto
  have a: "aWatchers sample_agg = [(''/host'', 0, Waiting)]" "aChan sample_agg = []" by code_simp+
  have "agg_ok (sample_agg, flooded 51)" "subs_open (sample_agg, flooded 51)" "size (agg_events (sample_agg, flooded 51)) = 51"
    "agg_cap sample_agg = 50"
    using w by (simp_all add: a agg_ok_def go_ok_def subs_open_def agg_ids_def agg_events_def go_events_def agg_cap_def)
  then show ?thesis
    using agg_Remove_returns_iff [OF live_flooded, of sample_agg 51] live_flooded [of 51]
    by (auto split: sum.splits option.splits)
qed

end
