(* ===== verification/Watching_Props.thy ===== *)
theory Watching_Props
  imports Watching MetaRepo_Props Aggregate_Props
begin

text \<open>What a waiting request returns, and what it leaves behind in the timer pool and the store.\<close>

section \<open>The loop\<close>

text \<open>The changes collected from a list of events, and the last change at a path.\<close>

definition collect :: "event list \<Rightarrow> (string, string) gomap \<Rightarrow> (string, string) gomap" where
  "collect es m = fold (\<lambda>e. AList.update (Path e) (change_text e)) es m"

definition last_change :: "event list \<Rightarrow> string \<Rightarrow> string option" where
  "last_change es p = map_option change_text (find (\<lambda>e. Path e = p) (rev es))"

lemma map_of_collect: "map_of (collect es m) p = (case last_change es p of Some x \<Rightarrow> Some x | None \<Rightarrow> map_of m p)"
proof (induction es rule: rev_induct)
  case (snoc e es)
  have "map_of (collect (es @ [e]) m) p = (if p = Path e then Some (change_text e) else map_of (collect es m) p)"
    by (simp add: collect_def)
  with snoc show ?case by (auto simp: last_change_def)
qed (simp add: collect_def last_change_def)

lemma path_keys_collect:
  assumes "\<forall>e\<in>set es. \<exists>q. q \<noteq> [] \<and> (\<forall>x\<in>set q. canon x) \<and> Path e = abs_path q"
  shows "path_keys (collect es [])"
  unfolding collect_def
proof (rule fold_invariant [where P = path_keys])
  fix e m
  assume "e \<in> set es" "path_keys m"
  with assms path_keys_update [OF \<open>path_keys m\<close>] pre_abs_path
  show "path_keys (AList.update (Path e) (change_text e) m)" by metis
qed (simp add: path_keys_def)

abbreviation held_with :: "nat option \<Rightarrow> nat list \<Rightarrow> nat list" where
  "held_with timer held \<equiv> (case timer of None \<Rightarrow> held | Some t \<Rightarrow> t # held)"

text \<open>The timers during the loop: the loop holds at most one, and that one is running.\<close>

definition loop_ok :: "nat option \<Rightarrow> nat list \<Rightarrow> TimerPool \<Rightarrow> bool" where
  "loop_ok timer held tp \<longleftrightarrow> pool_inv (tp, held_with timer held) \<and>
     (\<forall>t. timer = Some t \<longrightarrow> armed (timers tp ! t) \<and> t < length (timers tp))"

lemma release_timer_inv: "loop_ok timer held tp \<Longrightarrow> pool_inv (release_timer timer tp, held)"
  using ReleaseTimer_inv [of tp "the timer # held" "the timer"]
  by (auto simp: loop_ok_def release_timer_def split: option.splits)

lemma acquire_loop_ok:
  assumes "loop_ok timer held tp" and "AcquireTimer pick (release_timer timer tp) = (t, tp')"
  shows "loop_ok (Some t) held tp'"
  using AcquireTimer_inv [OF release_timer_inv [OF assms(1)] assms(2)] by (auto simp: loop_ok_def pool_inv_def)

lemma change_loop_events:
  assumes "\<forall>e\<in>set es. Path e \<noteq> ''/''" and "loop_ok timer held tp"
  shows "\<exists>timer' tp'. change_loop pick (map SigEvent es @ sigs) m timer tp = change_loop pick sigs (collect es m) timer' tp' \<and>
    loop_ok timer' held tp' \<and> (es \<noteq> [] \<longrightarrow> timer' \<noteq> None)"
  using assms
proof (induction es arbitrary: m timer tp)
  case Nil
  then show ?case by (auto simp: collect_def)
next
  case (Cons e es)
  obtain t tp1 where a: "AcquireTimer pick (release_timer timer tp) = (t, tp1)" by force
  have "\<forall>e\<in>set es. Path e \<noteq> ''/''" using Cons.prems(1) by simp
  from Cons.IH [OF this acquire_loop_ok [OF Cons.prems(2) a], of "AList.update (Path e) (change_text e) m"] obtain timer' tp' where
    *: "change_loop pick (map SigEvent es @ sigs) (AList.update (Path e) (change_text e) m) (Some t) tp1 =
      change_loop pick sigs (collect es (AList.update (Path e) (change_text e) m)) timer' tp'"
    "loop_ok timer' held tp'" "es \<noteq> [] \<longrightarrow> timer' \<noteq> None" by blast
  show ?case
  proof (cases "es = []")
    case True
    then show ?thesis
      using Cons.prems(1) a acquire_loop_ok [OF Cons.prems(2) a]
      by (intro exI [of _ "Some t"] exI [of _ tp1]) (simp add: collect_def)
  next
    case False
    then show ?thesis using * Cons.prems(1) a by (auto simp: collect_def)
  qed
qed

lemma timer_fires:
  assumes "loop_ok (Some t) held tp"
  shows "\<exists>tp'. timer_recv t (tp\<lparr>timers := (timers tp)[t := timer_expire (timers tp ! t)]\<rparr>) = Some tp' \<and>
    pool_inv (release_timer (Some t) tp', held)"
proof -
  let ?tp1 = "tp\<lparr>timers := (timers tp)[t := timer_expire (timers tp ! t)]\<rparr>"
  have t: "armed (timers tp ! t)" "t < length (timers tp)" and inv: "pool_inv (tp, t # held)"
    using assms by (auto simp: loop_ok_def)
  have "pool_inv (?tp1, t # held)" using pool_step_inv [OF expire [OF t(2)] inv] .
  moreover obtain tp' where r: "timer_recv t ?tp1 = Some tp'" using t by (simp add: timer_recv_def timer_expire_def)
  ultimately have "pool_inv (tp', t # held)" using pool_step_inv [OF receive [OF _ r]] by auto
  then have "pool_inv (ReleaseTimer t tp', held)" using ReleaseTimer_inv [of tp' "t # held" t] by simp
  with r show ?thesis by (simp add: release_timer_def)
qed

lemma Expand_empty: "Expand [] ''/'' = Inr []"
  by code_simp

lemma change_loop_timer:
  assumes "loop_ok None held tp" and "es \<noteq> []" and "\<forall>e\<in>set es. Path e \<noteq> ''/''"
  shows "\<exists>tp'. change_loop pick (map SigEvent es @ SigTimer # sigs) [] None tp =
      Some (map_sum id VMap (Expand (collect es []) ''/''), tp') \<and> pool_inv (tp', held)"
proof -
  obtain timer' tp1 where l: "change_loop pick (map SigEvent es @ SigTimer # sigs) [] None tp =
      change_loop pick (SigTimer # sigs) (collect es []) timer' tp1" "loop_ok timer' held tp1" "timer' \<noteq> None"
    using change_loop_events [OF assms(3,1)] assms(2) by blast
  then obtain t where t: "timer' = Some t" by auto
  with timer_fires [of t held tp1] l show ?thesis by (auto simp: finish_change_def)
qed

lemma not_root_event:
  assumes "\<forall>e\<in>set es. \<exists>q. q \<noteq> [] \<and> (\<forall>x\<in>set q. canon x) \<and> Path e = abs_path q"
  shows "\<forall>e\<in>set es. Path e \<noteq> ''/''"
proof
  fix e
  assume "e \<in> set es"
  then obtain q where "q \<noteq> []" "\<forall>x\<in>set q. canon x" "Path e = abs_path q" using assms by blast
  then show "Path e \<noteq> ''/''" using abs_path_eq_root [of q] by simp
qed

text \<open>The result of a call that ends by the timer, path by path.\<close>

lemma change_loop_collects:
  assumes "pool_inv (tp, held)" and "es \<noteq> []"
    and "\<forall>e\<in>set es. \<exists>q. q \<noteq> [] \<and> (\<forall>x\<in>set q. canon x) \<and> Path e = abs_path q"
  obtains m tp' where "change_loop pick (map SigEvent es @ SigTimer # sigs) [] None tp = Some (Inr (VMap m), tp')"
    and "pool_inv (tp', held)"
    and "\<And>ks. \<forall>x\<in>set ks. seg x \<Longrightarrow> val_leaf ks (VMap m) =
      (if \<exists>ks'. strict_prefix ks' ks \<and> ks' \<noteq> [] \<and> last_change es (abs_path ks') \<noteq> None then None
       else if ks = [] then None else last_change es (abs_path ks))"
proof -
  have l0: "loop_ok None held tp" using assms(1) by (simp add: loop_ok_def)
  note n = not_root_event [OF assms(3)]
  obtain tp1 where t: "change_loop pick (map SigEvent es @ SigTimer # sigs) [] None tp =
      Some (map_sum id VMap (Expand (collect es []) ''/''), tp1)" "pool_inv (tp1, held)"
    using change_loop_timer [OF l0 assms(2) n] by blast
  obtain m where m: "Expand (collect es []) ''/'' = Inr m" "expands (collect es []) [] (VMap m)"
    using Expand_expands [OF path_keys_collect [OF assms(3)], of "''/''"] by auto
  have k: "map_of (collect es []) (pre z) = (if z = [] then None else last_change es (abs_path z))" for z
  proof (cases "z = []")
    case True
    have "\<forall>e\<in>set es. Path e \<noteq> ''''" using assms(3) by auto
    then have "find (\<lambda>e. Path e = '''') (rev es) = None" by (simp add: find_None_iff)
    then show ?thesis using True map_of_collect [of es "[]" "''''"] by (simp add: last_change_def)
  next
    case False
    then show ?thesis using map_of_collect [of es "[]" "pre z"] pre_abs_path [of z] by (simp split: option.splits)
  qed
  show ?thesis
  proof (rule that)
    show "change_loop pick (map SigEvent es @ SigTimer # sigs) [] None tp = Some (Inr (VMap m), tp1)" using t(1) m(1) by simp
    show "val_leaf ks (VMap m) =
      (if \<exists>ks'. strict_prefix ks' ks \<and> ks' \<noteq> [] \<and> last_change es (abs_path ks') \<noteq> None then None
       else if ks = [] then None else last_change es (abs_path ks))" if "\<forall>x\<in>set ks. seg x" for ks
      using m(2) that k unfolding expands_def shadowed_def by auto
  qed (rule t(2))
qed

section \<open>A watched put\<close>

text \<open>Registering a watcher on a live store: where the watcher is, and what the store keeps.\<close>

lemma store_Watch_at:
  assumes "live s" and "p = ''/'' \<and> q = [] \<or> p \<noteq> ''/'' \<and> put_target p = Some q"
  obtains d where "store_Watch p len s = (Inr (length (wtab (nodes s))), d)" and "live d"
    and "store_texts d = store_texts s" and "map closed (wtab (nodes d)) = map closed (wtab (nodes s)) @ [False]"
    and "map wnode (wtab (nodes d)) = map wnode (wtab (nodes s)) @ [rev q]"
    and "wtab (nodes d) ! length (wtab (nodes s)) = newWatcher (rev q) len"
    and "\<And>z. \<not> within z q \<Longrightarrow> amap (nodes d) z = amap (nodes s) z"
    and "\<And>z. no_leaf_upto (amap (nodes s)) z \<Longrightarrow> no_leaf_upto (amap (nodes d)) z"
proof -
  obtain st1 where st1: "calm (nodes s) st1" "amap st1 = mkdir_abs q (amap (nodes s))" "deref (rev q) st1 \<noteq> None"
    "store_Watch p len s = (Inr (length (wtab (nodes s))), s\<lparr>nodes := snd (node_Watch (rev q) len st1)\<rparr>)"
    using store_Watch_effect [OF _ assms(2)] assms(1) by blast
  let ?d = "s\<lparr>nodes := snd (node_Watch (rev q) len st1)\<rparr>"
  from st1(3) obtain n where n: "deref (rev q) st1 = Some n" by auto
  have stat: "statics st1 = statics (nodes s)" using st1(1) by (simp add: calm_def)
  note l = statics_length [OF stat]
  have a: "amap (nodes ?d) = (mkdir_abs q (amap (nodes s)))
      (q \<mapsto> Attr (nValue n) (IsDir n) (nWatchers n @ [length (wtab st1)]))"
    using node_Watch_effect(1) [OF n] st1(2) by simp
  have w: "mkdir_abs q (amap (nodes s)) q = Some (attr_of n)" using deref_amap [OF n] st1(2) by simp
  show ?thesis
  proof (rule that [OF st1(4)])
    show "live ?d" using store_ok_store_Watch [of s p len] assms(1) st1(4) by simp
    show "store_texts ?d = store_texts s" using texts_store_Watch [of s p len] assms(1) st1(4) by simp
    show "wtab (nodes ?d) ! length (wtab (nodes s)) = newWatcher (rev q) len"
      using node_Watch_effect(2) [OF n] l by (simp add: nth_append)
    have "map closed (wtab st1) = map closed (wtab (nodes s))" "map wnode (wtab st1) = map wnode (wtab (nodes s))"
      using l statics_nth [OF stat] by (auto intro!: nth_equalityI simp del: map_eq_conv)
    then show "map closed (wtab (nodes ?d)) = map closed (wtab (nodes s)) @ [False]"
      and "map wnode (wtab (nodes ?d)) = map wnode (wtab (nodes s)) @ [rev q]"
      using node_Watch_effect(2) [OF n] by (simp_all del: map_eq_conv)
    show "amap (nodes ?d) z = amap (nodes s) z" if "\<not> within z q" for z
      using that a by (auto simp: mkdir_abs_def)
    show "no_leaf_upto (amap (nodes ?d)) z" if "no_leaf_upto (amap (nodes s)) z" for z
    proof -
      have adir: "adir x" if "within y z" "mkdir_abs q (amap (nodes s)) y = Some x" for y x
        using that \<open>no_leaf_upto (amap (nodes s)) z\<close>
        by (auto simp: no_leaf_upto_def mkdir_abs_def as_dir_def split: option.splits if_splits)
      have "adir (attr_of n)" if "within q z" using adir that w by blast
      with adir show ?thesis unfolding a by (auto simp: no_leaf_upto_def attr_of_def)
    qed
  qed
qed

lemma watch_target: "path_Join [''/'', p] = ''/'' \<and> path_elems p = [] \<or>
    path_Join [''/'', p] \<noteq> ''/'' \<and> put_target (path_Join [''/'', p]) = Some (path_elems p)"
proof -
  have j: "path_Join [''/'', p] = abs_path (path_elems p)" by (simp add: path_simps)
  show ?thesis
    unfolding j using put_target_canon [of "path_elems p"] abs_path_eq_root [of "path_elems p"] path_elems_canon [of _ p]
    by (cases "path_elems p = []") auto
qed

text \<open>A put during a watch, whose event the waiting call receives before its timer fires.\<close>

definition put_during :: "string \<Rightarrow> string \<Rightarrow> nat \<Rightarrow> store \<Rightarrow> store \<times> signal list" where
  "put_during q v w d =
     (let d1 = snd (store_Put q (VStr v) d)
      in case watcher_recv w d1 of None \<Rightarrow> (d1, []) | Some (e, d2) \<Rightarrow> (d2, [SigEvent e, SigTimer]))"

lemma put_during_event:
  assumes "live d" and "w < length (wtab (nodes d))" and "wtab (nodes d) ! w = newWatcher (rev a) len" and "0 < len"
    and "path_elems q = a @ ks" and "path_elems q = ds @ [n]" and "no_leaf_upto (amap (nodes d)) ds"
    and "put_is_news (amap (nodes d)) (path_elems q) v"
  obtains d2 where "put_during q v w d = (d2, [SigEvent (newEvent Update (abs_path ks) v), SigTimer])"
    and "live d2" and "store_texts d2 = (store_texts d)(path_elems q := v)"
    and "w < length (wtab (nodes d2))" and "\<not> closed (wtab (nodes d2) ! w)"
proof -
  let ?d1 = "snd (store_Put q (VStr v) d)" and ?e = "newEvent Update (abs_path ks) v"
  have wt: "wtab (nodes ?d1) =
    map (\<lambda>w. if put_is_news (amap (nodes d)) (path_elems q) v \<and> \<not> closed w \<and> within (rev (wnode w)) (path_elems q)
             then chan_send (newEvent Update (abs_path (drop (length (wnode w)) (path_elems q))) v) w
             else w) (wtab (nodes d))"
    using wtab_store_Put [OF _ _ assms(6,7)] assms(1) by (simp add: store_ok_def)
  then have w1: "wtab (nodes ?d1) ! w = chan_send ?e (newWatcher (rev a) len)" "w < length (wtab (nodes ?d1))"
    using assms(2,3,5,8) by simp_all
  let ?d2 = "?d1\<lparr>nodes := (nodes ?d1)\<lparr>wtab := (wtab (nodes ?d1))[w := (newWatcher (rev a) len)]\<rparr>\<rparr>"
  have r: "watcher_recv w ?d1 = Some (?e, ?d2)"
    using w1 assms(4) by (simp add: watcher_recv_def chan_recv_def chan_send_def newWatcher_def)
  have l1: "live ?d1" using assms(1) by (simp add: store_ok_store_Put)
  show ?thesis
  proof (rule that)
    show "put_during q v w d = (?d2, [SigEvent ?e, SigTimer])" using r by (simp add: put_during_def Let_def)
    show "live ?d2" using store_step_ok [OF store_step.Recv [OF r]] l1 by simp
    have "store_texts ?d1 = (store_texts d)(path_elems q := v)"
      using texts_store_Put [of d q "VStr v"] assms(1,6) assign_clean [of q v] by (simp add: put_texts_def)
    then show "store_texts ?d2 = (store_texts d)(path_elems q := v)" by simp
    show "w < length (wtab (nodes ?d2))" "\<not> closed (wtab (nodes ?d2) ! w)" using w1(2) by simp_all
  qed
qed

section \<open>The watchers of WatchSelf\<close>

text \<open>The node a link leads to; a link that ends in a slash has none.\<close>

definition link_target :: "string \<Rightarrow> string list option" where
  "link_target v = (if v = ''/'' then Some [] else put_target v)"

lemma link_target_cases: "link_target v = Some q \<Longrightarrow> v = ''/'' \<and> q = [] \<or> v \<noteq> ''/'' \<and> put_target v = Some q"
  by (auto simp: link_target_def split: if_splits)

lemma watch_links_effect:
  assumes "live d" and "\<forall>(k, v)\<in>set kvs. link_target v \<noteq> None"
  obtains ws d' where "watch_links kvs d = (Inr ws, d')" and "live d'" and "store_texts d' = store_texts d"
    and "map fst ws = map fst kvs" and "map snd ws = [length (wtab (nodes d))..<length (wtab (nodes d'))]"
    and "map wnode (wtab (nodes d')) = map wnode (wtab (nodes d)) @ map (rev \<circ> the \<circ> link_target \<circ> snd) kvs"
    and "map closed (wtab (nodes d')) = map closed (wtab (nodes d)) @ replicate (length kvs) False"
  using assms
proof (induction kvs arbitrary: d thesis)
  case (Cons kv kvs)
  obtain k v where kv: "kv = (k, v)" by (cases kv)
  obtain q where q: "link_target v = Some q" using Cons.prems(3) kv by auto
  from store_Watch_at [OF Cons.prems(2) link_target_cases [OF this]] obtain d1 where
    d1: "store_Watch v DEFAULT_WATCH_BUF_LEN d = (Inr (length (wtab (nodes d))), d1)" "live d1" "store_texts d1 = store_texts d"
    "map closed (wtab (nodes d1)) = map closed (wtab (nodes d)) @ [False]"
    "map wnode (wtab (nodes d1)) = map wnode (wtab (nodes d)) @ [rev q]" by metis
  have l1: "length (wtab (nodes d1)) = Suc (length (wtab (nodes d)))" using arg_cong [OF d1(4), of length] by simp
  obtain ws d' where w: "watch_links kvs d1 = (Inr ws, d')" "live d'" "store_texts d' = store_texts d1" "map fst ws = map fst kvs"
    "map snd ws = [length (wtab (nodes d1))..<length (wtab (nodes d'))]"
    "map wnode (wtab (nodes d')) = map wnode (wtab (nodes d1)) @ map (rev \<circ> the \<circ> link_target \<circ> snd) kvs"
    "map closed (wtab (nodes d')) = map closed (wtab (nodes d1)) @ replicate (length kvs) False"
  proof (rule Cons.IH)
    show "\<forall>(k, v)\<in>set kvs. link_target v \<noteq> None" using Cons.prems(3) by simp
  qed (rule that d1(2); assumption)+
  have "length (wtab (nodes d1)) \<le> length (wtab (nodes d'))" using arg_cong [OF w(7), of length] by simp
  then have "[length (wtab (nodes d))..<length (wtab (nodes d'))] =
      length (wtab (nodes d)) # [length (wtab (nodes d1))..<length (wtab (nodes d'))]" using l1 by (simp add: upt_conv_Cons)
  then show ?case
    using Cons.prems(1) [of "(k, length (wtab (nodes d))) # ws" d'] d1 w kv q by (simp add: append_assoc)
qed simp

section \<open>Claims\<close>

text \<open>C35: What a waiting request returns.  After at least one change, none of them at the watched node itself, and 100 ms
  without a further one: a nested map that holds, at every changed path, the action and value of
  the last change there (unless a change above it hides it).  A change of the watched node itself is
  returned at once as a string, and a stop signal returns the empty map, whatever was collected
  before.  In every case without such an immediate return the timer of the loop is back in the pool.\<close>

theorem changeToResult_collects:
  assumes "pool_reachable (tp, held)" and "es \<noteq> []"
    and "\<forall>e\<in>set es. \<exists>q. q \<noteq> [] \<and> (\<forall>x\<in>set q. canon x) \<and> Path e = abs_path q"
  shows "(\<exists>m tp'. change_loop pick (map SigEvent es @ SigTimer # sigs) [] None tp = Some (Inr (VMap m), tp') \<and>
      pool_inv (tp', held) \<and>
      (\<forall>ks. (\<forall>x\<in>set ks. seg x) \<longrightarrow> val_leaf ks (VMap m) =
         (if \<exists>ks'. strict_prefix ks' ks \<and> ks' \<noteq> [] \<and> last_change es (abs_path ks') \<noteq> None then None
          else if ks = [] then None else last_change es (abs_path ks)))) \<and>
    (\<exists>tp'. change_loop pick (map SigEvent es @ SigStop # sigs) [] None tp = Some (Inr (VMap []), tp') \<and> pool_inv (tp', held)) \<and>
    (Path e = ''/'' \<longrightarrow> (\<exists>tp'. change_loop pick (map SigEvent es @ SigEvent e # sigs) [] None tp = Some (Inr (VStr (change_text e)), tp')))"
proof -
  have inv: "pool_inv (tp, held)" using pool_reachable_inv [OF assms(1)] .
  then have l0: "loop_ok None held tp" by (simp add: loop_ok_def)
  note n = not_root_event [OF assms(3)]
  have s: "\<exists>tp'. change_loop pick (map SigEvent es @ SigStop # sigs) [] None tp = Some (Inr (VMap []), tp') \<and> pool_inv (tp', held)"
    using change_loop_events [OF n l0, of pick "SigStop # sigs" "[]"] release_timer_inv
    by (auto simp: finish_change_def Expand_empty)
  have e: "\<exists>tp'. change_loop pick (map SigEvent es @ SigEvent e # sigs) [] None tp = Some (Inr (VStr (change_text e)), tp')" if "Path e = ''/''"
    using change_loop_events [OF n l0, of pick "SigEvent e # sigs" "[]"] that by auto
  show ?thesis
    by (intro conjI impI; (rule change_loop_collects [OF inv assms(2,3), of pick sigs]; blast)?) (use s e in blast)+
qed

theorem changeToResult_collects_witness:
  "\<exists>m tp'. change_loop (\<lambda>p. Some (hd p)) (map SigEvent [newEvent Update ''/a'' ''1'', newEvent Update ''/a'' ''2''] @ [SigTimer]) [] None sample_pool =
      Some (Inr (VMap m), tp') \<and> val_leaf [''a''] (VMap m) = Some ''UPDATE|2''"
proof -
  let ?es = "[newEvent Update ''/a'' ''1'', newEvent Update ''/a'' ''2'']"
  have "\<forall>e\<in>set ?es. \<exists>q. q \<noteq> [] \<and> (\<forall>x\<in>set q. canon x) \<and> Path e = abs_path q"
    by (auto simp: newEvent_def abs_path_def canon_def seg_def intro!: exI [of _ "[''a'']"])
  from changeToResult_collects [OF sample_pool_reachable _ this, of "\<lambda>p. Some (hd p)" "[]" undefined]
  obtain m tp' where m: "change_loop (\<lambda>p. Some (hd p)) (map SigEvent ?es @ [SigTimer]) [] None sample_pool = Some (Inr (VMap m), tp')"
    "\<And>ks. \<forall>x\<in>set ks. seg x \<Longrightarrow> val_leaf ks (VMap m) =
         (if \<exists>ks'. strict_prefix ks' ks \<and> ks' \<noteq> [] \<and> last_change ?es (abs_path ks') \<noteq> None then None
          else if ks = [] then None else last_change ?es (abs_path ks))"
    by blast
  have "last_change ?es (abs_path [''a'']) = Some ''UPDATE|2''"
    by (simp add: last_change_def newEvent_def abs_path_def change_text_def Update_def)
  moreover have "\<not> (\<exists>ks'. strict_prefix ks' [''a''] \<and> ks' \<noteq> [] \<and> last_change ?es (abs_path ks') \<noteq> None)"
    by (auto simp: strict_prefix_def prefix_Cons)
  ultimately have "val_leaf [''a''] (VMap m) = Some ''UPDATE|2''" using m(2) [of "[''a'']"] by (simp add: seg_def)
  with m(1) show ?thesis by blast
qed



text \<open>The aggregate watcher over freshly registered links.\<close>

lemma links_aggregate:
  assumes "map snd ws = [length (wtab st)..<length (wtab (nodes d))]"
    and "map wnode (wtab (nodes d)) = map wnode (wtab st) @ map (rev \<circ> the \<circ> link_target \<circ> snd) kvs"
    and "map closed (wtab (nodes d)) = map closed (wtab st) @ replicate (length kvs) False"
  shows "map (\<lambda>(k, w). wnode (wtab (nodes d) ! w)) ws = map (\<lambda>(k, v). rev (the (link_target v))) kvs"
    and "subs_open (NewAggregateWatcher ws, d)" and "agg_ok (NewAggregateWatcher ws, d)"
proof -
  let ?n = "length (wtab st)"
  have l: "length (wtab (nodes d)) = ?n + length kvs" using arg_cong [OF assms(3), of length] by simp
  have "map (\<lambda>w. wnode (wtab (nodes d) ! w)) (map snd ws) = drop ?n (map wnode (wtab (nodes d)))"
    unfolding assms(1) using l by (auto intro!: nth_equalityI simp del: map_eq_conv)
  then show "map (\<lambda>(k, w). wnode (wtab (nodes d) ! w)) ws = map (\<lambda>(k, v). rev (the (link_target v))) kvs"
    unfolding assms(2) by (simp add: comp_def case_prod_unfold del: map_eq_conv)
  have ids: "agg_ids (NewAggregateWatcher ws) = map snd ws"
    by (simp add: agg_ids_def NewAggregateWatcher_def case_prod_unfold)
  have "\<not> closed (wtab (nodes d) ! i)" if "i \<in> set (map snd ws)" for i
    using that assms(1) l arg_cong [OF assms(3), of "\<lambda>xs. xs ! i"] by (auto simp: nth_append)
  then show "subs_open (NewAggregateWatcher ws, d)" unfolding subs_open_def prod.case ids by blast
  have "w < length (wtab (nodes d))" if "(k, w) \<in> set ws" for k w
  proof -
    have "w \<in> set (map snd ws)" using that by force
    then show ?thesis unfolding assms(1) by simp
  qed
  then show "agg_ok (NewAggregateWatcher ws, d)"
    unfolding agg_ok_def prod.case ids assms(1) by (auto simp: go_ok_def NewAggregateWatcher_def)
qed

text \<open>What \<^verbatim>\<open>WatchSelf\<close> watches.  Without a mapping for the client and path it returns nil and registers nothing.  With a mapping that is a
  tree of links it registers one open watcher per link, at the node the link leads to, reported under the flattened key of
  the link, besides the one on the mapping; the data the stores hold does not change, and the aggregate watcher over them
  starts in a correct state (so that its forwarding and removal behave as proved for aggregate watchers).\<close>

theorem WatchSelf_watches_links:
  assumes "repo_ok r" and "link_target (path_Join [ip, ''/'', np]) \<noteq> None"
  shows "(GetMapping r (path_Join [ip, ''/'', np]) = VNil \<longrightarrow> repo_WatchSelf pick ip np during r tp = Some (Inr VNil, r, tp)) \<and>
    (GetMapping r (path_Join [ip, ''/'', np]) = VMap mapping \<and> (\<forall>(k, v)\<in>set (Flatten_entries mapping). link_target v \<noteq> None) \<longrightarrow>
      (\<exists>mw ws r'. WatchSelf_begin ip np r = (Inr (WatchLinks mw ws), r') \<and> repo_ok r' \<and>
         store_texts (rData r') = store_texts (rData r) \<and> store_texts (rMapping r') = store_texts (rMapping r) \<and>
         map fst ws = map fst (Flatten_entries mapping) \<and>
         map (\<lambda>(k, w). wnode (wtab (nodes (rData r')) ! w)) ws = map (\<lambda>(k, v). rev (the (link_target v))) (Flatten_entries mapping) \<and>
         agg_ok (NewAggregateWatcher ws, rData r') \<and> subs_open (NewAggregateWatcher ws, rData r')))"
    (is "?none \<and> (?links \<longrightarrow> ?watch)")
proof (intro conjI impI)
  let ?p = "path_Join [ip, ''/'', np]"
  show "repo_WatchSelf pick ip np during r tp = Some (Inr VNil, r, tp)" if "GetMapping r ?p = VNil"
    using that by (simp add: repo_WatchSelf_def WatchSelf_begin_def Let_def)
  assume links: ?links
  obtain q where "link_target ?p = Some q" using assms(2) by auto
  note q = link_target_cases [OF this]
  obtain mp where mp: "store_Watch ?p DEFAULT_WATCH_BUF_LEN (rMapping r) = (Inr (length (wtab (nodes (rMapping r)))), mp)"
    "live mp" "store_texts mp = store_texts (rMapping r)"
    using store_Watch_at [OF _ q, of "rMapping r"] assms(1) by (metis repo_ok_def)
  obtain ws d where w: "watch_links (Flatten_entries mapping) (rData r) = (Inr ws, d)" "live d" "store_texts d = store_texts (rData r)"
    "map fst ws = map fst (Flatten_entries mapping)" "map snd ws = [length (wtab (nodes (rData r)))..<length (wtab (nodes d))]"
    "map wnode (wtab (nodes d)) = map wnode (wtab (nodes (rData r))) @ map (rev \<circ> the \<circ> link_target \<circ> snd) (Flatten_entries mapping)"
    "map closed (wtab (nodes d)) = map closed (wtab (nodes (rData r))) @ replicate (length (Flatten_entries mapping)) False"
    using watch_links_effect [of "rData r" "Flatten_entries mapping"] assms(1) links by (metis repo_ok_def)
  note agg = links_aggregate [OF w(5-7)]
  have "WatchSelf_begin ip np r = (Inr (WatchLinks (length (wtab (nodes (rMapping r)))) ws), r\<lparr>rMapping := mp, rData := d\<rparr>)"
    using links mp(1) w(1) by (simp add: WatchSelf_begin_def Let_def)
  then show ?watch
    using agg mp(2,3) w(2-4) by (intro exI [of _ "length (wtab (nodes (rMapping r)))"] exI [of _ ws] exI [of _ "r\<lparr>rMapping := mp, rData := d\<rparr>"])
      (simp add: repo_ok_def)
qed

theorem WatchSelf_watches_links_witness:
  "\<exists>mw ws r'. WatchSelf_begin ''10.0.0.2'' ''/'' sample_repo = (Inr (WatchLinks mw ws), r') \<and>
    map (\<lambda>(k, w). wnode (wtab (nodes (rData r')) ! w)) ws = [[''a'']]"
proof -
  have v: "link_target (path_Join [''10.0.0.2'', ''/'', ''/'']) \<noteq> None"
    "GetMapping sample_repo (path_Join [''10.0.0.2'', ''/'', ''/'']) = VMap [(''n'', VStr ''/a'')]"
    "Flatten_entries [(''n'', VStr ''/a'')] = [(''/n'', ''/a'')]" "link_target ''/a'' = Some [''a'']"
    by code_simp+
  show ?thesis
    using WatchSelf_watches_links [OF repo_ok_sample v(1), of undefined undefined undefined "[(''n'', VStr ''/a'')]"] v(2-)
    by simp metis
qed

text \<open>A link that ends in a slash, which \<^verbatim>\<open>checkMappingPath\<close> admits, makes \<^verbatim>\<open>WatchSelf\<close> panic.\<close>

lemma WatchSelf_panics_on_slash:
  "checkMappingPath (VStr ''/a/'') = None"
  "fst (WatchSelf_begin ''10.0.0.2'' ''/'' (sample_repo\<lparr>rMapping := snd (store_Put ''/10.0.0.2/n'' (VStr ''/a/'') newStore)\<rparr>)) =
    Inl (Panic ''nodeName can not be emtpy.'')"
  by code_simp+

end
