(* ===== verification/Http_Props.thy ===== *)
theory Http_Props
  imports Http Json_Props Watching_Props
begin

text \<open>
  What the server writes: the shape of the values it reads from the stores, the lines of a text
  response, the JSON text and its decoding, and which status each handler answers with.
\<close>

section \<open>The shape of what is read\<close>

text \<open>Nested maps with distinct keys, and strings at the leaves.\<close>

fun text_tree :: "goval \<Rightarrow> bool" where
  "text_tree (VStr s) \<longleftrightarrow> True"
| "text_tree (VMap m) \<longleftrightarrow> map_ok m \<and> (\<forall>kv\<in>set m. text_tree (snd kv))"
| "text_tree _ \<longleftrightarrow> False"

lemma text_tree_update:
  assumes "text_tree (VMap m)" and "text_tree v"
  shows "text_tree (VMap (AList.update k v m))"
proof -
  have "map_ok (AList.update k v m)" using assms(1) by (simp add: distinct_update)
  moreover have "text_tree (snd kv)" if "kv \<in> set (AList.update k v m)" for kv
    using that assms by (induction m) (auto split: if_splits)
  ultimately show ?thesis by simp
qed

lemma text_tree_GetValue: "node_ok n \<Longrightarrow> text_tree (GetValue n)"
proof (induction n rule: GetValue.induct)
  case (1 nm v cs wl)
  show ?case
  proof (cases cs)
    case (Some l)
    have "distinct (map fst (filter P (map (\<lambda>(k, c). (k, GetValue c)) l)))" for P
      using 1(2) Some by (auto simp: node_ok.simps case_prod_unfold comp_def intro!: distinct_map_filter)
    then show ?thesis using 1 Some by (auto simp: node_ok.simps)
  qed simp
qed

lemma text_tree_GetValue_fuel:
  "GetValue_fuel fuel s t = Some (Inr (v, t')) \<Longrightarrow> text_tree v"
  "GetValue_children fuel s ks vals t = Some (Inr (v, t')) \<Longrightarrow> text_tree (VMap vals) \<Longrightarrow> text_tree v"
proof (induction fuel s t and fuel s ks vals t arbitrary: v t' and v t' rule: GetValue_fuel_GetValue_children.induct)
  case (4 fuel s k name ks vals t)
  consider t1 where "traveller_Enter s name t = Inr (False, t1)"
    | t1 w t2 t3 where "traveller_Enter s name t = Inr (True, t1)" "GetValue_fuel fuel s t1 = Some (Inr (w, t2))"
      "traveller_Back t2 = Inr t3"
    using "4.prems"(1) by (auto split: sum.splits prod.splits bool.splits option.splits)
  then show ?case
  proof cases
    case 1
    then show ?thesis using "4.IH"(4) [OF 1 refl refl] "4.prems" by simp
  next
    case 2
    then have w: "text_tree w" using "4.IH"(1) [OF 2(1) refl refl 2(2)] by simp
    show ?thesis
    proof (cases "is_empty_map w")
      case True
      then show ?thesis using "4.IH"(2) [OF 2(1) refl refl 2(2) refl refl 2(3) True] "4.prems" 2 by simp
    next
      case False
      then show ?thesis
        using "4.IH"(3) [OF 2(1) refl refl 2(2) refl refl 2(3) False] "4.prems" 2 text_tree_update [OF _ w] by simp
    qed
  qed
qed (auto split: if_splits option.splits)

lemma text_tree_read_value:
  assumes "read_value s t = Inr (v, t')"
  shows "text_tree v"
  using assms text_tree_GetValue_fuel(1)
  by (auto simp: read_value_def traveller_GetValue_def simp del: GetValue_fuel.simps split: option.splits)

abbreviation answer :: "goval \<Rightarrow> bool" where
  "answer v \<equiv> v = VNil \<or> text_tree v"

lemma answer_getMappingData:
  assumes "getMappingData s p link t = Inr (v, t')"
  shows "answer v"
  using assms text_tree_read_value by (auto simp: getMappingData_def Let_def split: sum.splits prod.splits bool.splits)

lemma answer_getMappingDatas:
  "getMappingDatas s p mapping t = Inr (v, t') \<Longrightarrow> answer v"
  "mapping_loop s mapping meta t = Inr (v, t') \<Longrightarrow> text_tree (VMap meta) \<Longrightarrow> text_tree v"
proof (induction s p mapping t and s mapping meta t arbitrary: v t' and v t' rule: getMappingDatas_mapping_loop.induct)
  case (1 s nodePath0 mapping t)
  then show ?case
    using answer_getMappingData
    by (subst (asm) getMappingDatas.simps) (auto simp: Let_def split: if_splits option.splits goval.splits)
next
  case (3 s k w m meta t)
  let ?sub = "case w of VMap submapping \<Rightarrow> getMappingDatas s ''/'' submapping t | _ \<Rightarrow> getMappingData s ''/'' (sprint_v w) t"
  obtain val t1 where sub: "?sub = Inr (val, t1)" using "3.prems"(1) by (auto split: sum.splits)
  then have "answer val" using "3.IH"(1) answer_getMappingData by (cases w) auto
  then have "text_tree (VMap (if val \<noteq> VNil then AList.update k val meta else meta))"
    using "3.prems"(2) text_tree_update by auto
  then show ?case using "3.IH"(2) [OF sub refl] "3.prems"(1) sub by simp
qed simp

lemma answer_self: "self r ip p t = Inr (v, t') \<Longrightarrow> answer v"
  using answer_getMappingDatas(1) by (auto simp: self_def split: goval.splits)

lemma Root_found:
  assumes "Root r ip p = Inr (ver, v)" and "v \<noteq> VNil"
  obtains t w t2 where "ver = DataVersion r" and "read_value (rData r) t = Inr (w, t2)"
    and "v = w \<or> (\<exists>sv t3 m. self r ip ''/'' t2 = Inr (sv, t3) \<and> sv \<noteq> VNil \<and> w = VMap m \<and> v = VMap (AList.update ''self'' sv m))"
proof -
  let ?p = "path_Join [''/'', p]"
  obtain tr where tr: "ip \<noteq> ''''" "getAccessTree r ip = Some tr"
    using assms by (auto simp: Root_def Let_def split: if_splits option.splits)
  obtain t where t: "traveller_Enter (rData r) ?p (newTraveller (rData r) tr) = Inr (True, t)"
    using assms tr by (auto simp: Root_def Let_def split: sum.splits bool.splits)
  obtain ver' where ver: "traveller_GetVersion (rData r) t = Inr ver'"
    using assms tr t by (auto simp: Root_def Let_def split: sum.splits)
  then have ver': "ver' = DataVersion r" by (auto simp: traveller_GetVersion_def DataVersion_def split: if_splits)
  obtain w t2 where w: "read_value (rData r) t = Inr (w, t2)"
    using assms tr t ver by (auto simp: Root_def Let_def split: sum.splits)
  show ?thesis
  proof (cases "w \<noteq> VNil \<and> ?p = ''/''")
    case True
    obtain sv t3 where sv: "self r ip ''/'' t2 = Inr (sv, t3)"
      using assms tr t ver w True by (auto simp: Root_def Let_def split: sum.splits)
    have "ver = ver' \<and> v = (if sv \<noteq> VNil then (case w of VMap m \<Rightarrow> VMap (AList.update ''self'' sv m) | _ \<Rightarrow> w) else w)"
      using assms tr t ver w True sv by (simp add: Root_def Let_def)
    then show ?thesis using that [OF _ w] ver' sv by (cases w) (auto split: if_splits)
  next
    case False
    then have "v = w" "ver = ver'" using assms tr t ver w by (auto simp: Root_def Let_def)
    then show ?thesis using that [OF _ w] ver' by blast
  qed
qed

lemma answer_Root:
  assumes "Root r ip p = Inr (ver, v)"
  shows "answer v"
proof (cases "v = VNil")
  case False
  from Root_found [OF assms False] obtain t w t2 where w: "read_value (rData r) t = Inr (w, t2)"
    "v = w \<or> (\<exists>sv t3 m. self r ip ''/'' t2 = Inr (sv, t3) \<and> sv \<noteq> VNil \<and> w = VMap m \<and> v = VMap (AList.update ''self'' sv m))"
    by metis
  then show ?thesis
    using text_tree_read_value [OF w(1)] answer_self [of r ip "''/''" t2] text_tree_update by blast
qed simp

lemma answer_store_Get: "live s \<Longrightarrow> answer (snd (store_Get p s))"
  using text_tree_GetValue node_ok_lookup
  by (auto simp: store_Get_value store_ok_def nodes_ok_def split: option.splits)

section \<open>Lines of text\<close>

lemma sorted_lines:
  fixes fm :: "('a :: linorder \<times> 'b) list"
  assumes "map_ok fm"
  shows "sorted_wrt (<) (sort (map fst fm))" and "map_of (map (\<lambda>k. (k, the (map_of fm k))) (sort (map fst fm))) = map_of fm"
proof -
  show "sorted_wrt (<) (sort (map fst fm))"
    using assms by (simp add: strict_sorted_iff)
  show "map_of (map (\<lambda>k. (k, the (map_of fm k))) (sort (map fst fm))) = map_of fm"
  proof
    fix k
    have g: "map_of (map (\<lambda>k. (k, f k)) xs) k = (if k \<in> set xs then Some (f k) else None)" for f :: "'a \<Rightarrow> 'b" and xs
      by (induction xs) auto
    show "map_of (map (\<lambda>k. (k, the (map_of fm k))) (sort (map fst fm))) k = map_of fm k"
      using map_of_eq_None_iff [of fm k] unfolding g by auto
  qed
qed

section \<open>JSON texts\<close>

text \<open>Documents of strings and objects, in valid UTF-8.\<close>

fun text_doc :: "jval \<Rightarrow> bool" where
  "text_doc (JStr s) \<longleftrightarrow> utf8_valid s"
| "text_doc (JObj m) \<longleftrightarrow> (\<forall>kv\<in>set m. utf8_valid (fst kv) \<and> text_doc (snd kv))"
| "text_doc _ \<longleftrightarrow> False"

abbreviation json_member :: "string \<times> jval \<Rightarrow> string" where
  "json_member \<equiv> (\<lambda>(k, v). json_string k @ '':'' @ json_Marshal v)"

lemma p_members_text:
  assumes "\<And>kv r. kv \<in> set m \<Longrightarrow> p_val (json_Marshal (snd kv) @ r) = Some (snd kv, r)"
    and "\<forall>kv\<in>set m. utf8_valid (fst kv)" and "m \<noteq> []"
  shows "p_members (join_with '','' (map json_member m) @ CHR ''}'' # r) = Some (m, r)"
  using assms
proof (induction m rule: induct_list012)
  case (2 kv)
  obtain k v where kv: "kv = (k, v)" by (cases kv)
  have v: "p_val (json_Marshal v @ CHR ''}'' # r) = Some (v, CHR ''}'' # r)" using "2.prems"(1) kv by simp
  have k: "p_str (enc_str k @ quote # x) = Some (k, x)" for x using p_str_enc [of k x] "2.prems"(2) kv sanitize_valid by simp
  show ?case using v k by (simp add: kv json_string_def p_members.simps)
next
  case (3 kv kv2 m)
  obtain k v where kv: "kv = (k, v)" by (cases kv)
  let ?r = "join_with '','' (map json_member (kv2 # m)) @ CHR ''}'' # r"
  have v: "p_val (json_Marshal v @ CHR '','' # ?r) = Some (v, CHR '','' # ?r)" using "3.prems"(1) [of kv] kv by simp
  have k: "p_str (enc_str k @ quote # x) = Some (k, x)" for x using p_str_enc [of k x] "3.prems"(2) kv sanitize_valid by simp
  have "p_members ?r = Some (kv2 # m, r)" using 3 by simp
  then show ?case using v k by (simp add: kv json_string_def p_members.simps [of "quote # enc_str k @ _"])
qed simp

lemma p_val_text: "text_doc d \<Longrightarrow> p_val (json_Marshal d @ r) = Some (d, r)"
proof (induction d arbitrary: r)
  case (JStr s)
  then show ?case using p_val_str [of s r] by (simp add: json_string_def sanitize_valid)
next
  case (JObj m)
  show ?case
  proof (cases "m = []")
    case True
    then show ?thesis by (simp add: p_val.simps)
  next
    case False
    have *: "p_members (join_with '','' (map json_member m) @ CHR ''}'' # r) = Some (m, r)"
    proof (rule p_members_text [OF _ _ False])
      show "p_val (json_Marshal (snd kv) @ r) = Some (snd kv, r)" if "kv \<in> set m" for kv r
        using JObj that by (cases kv) auto
    qed (use JObj.prems in auto)
    obtain w where "join_with '','' (map json_member m) = quote # w"
      using False by (cases m rule: remdups_adj.cases) (auto simp: json_string_def)
    with * show ?thesis by (simp add: p_val.simps [of "CHR ''{'' # _"])
  qed
qed simp_all

text \<open>Every key and every string of the value is valid UTF-8.\<close>

fun utf8_tree :: "goval \<Rightarrow> bool" where
  "utf8_tree (VStr s) \<longleftrightarrow> utf8_valid s"
| "utf8_tree (VMap m) \<longleftrightarrow> (\<forall>kv\<in>set m. utf8_valid (fst kv) \<and> utf8_tree (snd kv))"
| "utf8_tree _ \<longleftrightarrow> True"

lemma text_doc_json_doc: "text_tree v \<Longrightarrow> utf8_tree v \<Longrightarrow> text_doc (json_doc env v)"
proof (induction v)
  case (VMap m)
  have "text_doc (json_doc env w)" if "(k, w) \<in> set m" for k w
    using VMap.IH [of "(k, w)" w] VMap.prems that by force
  then show ?case using VMap.prems by auto
qed auto

lemma those_map: "(\<And>x. x \<in> set xs \<Longrightarrow> f x = Some (g x)) \<Longrightarrow> those (map f xs) = Some (map g xs)"
  by (induction xs) auto

lemma map_ok_fold_update: "map_ok m \<Longrightarrow> map_ok (fold (\<lambda>(k, v). AList.update k v) kvs m)"
  by (induction kvs arbitrary: m) (auto simp: distinct_update)

text \<open>Decoding the document of a value gives the value back, up to the order of the entries of its maps.\<close>

lemma dec_value_json_doc:
  assumes "text_tree v"
  shows "\<exists>w. dec_value env (json_doc env v) = Some w \<and> (\<forall>p. val_leaf p w = val_leaf p v)"
  using assms
proof (induction v)
  case (VMap m)
  let ?M = "map (\<lambda>(k, v). (k, json_doc env v)) m"
  let ?L = "sort_key fst ?M"
  define g where "g d = the (dec_value env d)" for d
  have k: "map fst ?M = map fst m" by (simp add: case_prod_unfold comp_def)
  have d: "dec_value env (json_doc env w) = Some (g (json_doc env w)) \<and> (\<forall>p. val_leaf p (g (json_doc env w)) = val_leaf p w)"
    if xw: "(x, w) \<in> set m" for x w
  proof -
    have "text_tree w" using VMap.prems xw by force
    then obtain w' where "dec_value env (json_doc env w) = Some w'" "\<forall>p. val_leaf p w' = val_leaf p w"
      using VMap.IH [of "(x, w)" w] xw by auto
    then show ?thesis by (simp add: g_def)
  qed
  have th: "those (map (\<lambda>(k, v). dec_value env v) ?L) = Some (map (g \<circ> snd) ?L)"
    by (rule those_map) (use d in force)
  have zip: "zip (map fst ?L) (map (g \<circ> snd) ?L) = map (\<lambda>(k, d). (k, g d)) ?L"
    by (simp add: zip_map1 zip_map2 zip_same_conv_map comp_def case_prod_unfold)
  have distM: "distinct (map fst ?M)" unfolding k using VMap.prems by simp
  have dist: "distinct (map fst ?L)"
  proof -
    have "mset (map fst ?L) = mset (map fst ?M)" by (simp only: mset_map mset_sort)
    then have "mset (map fst ?L) = mset (map fst m)" unfolding k .
    from mset_eq_imp_distinct_iff [OF this] show ?thesis using VMap.prems by simp
  qed
  let ?w = "fold (\<lambda>(k, v). AList.update k v) (map (\<lambda>(k, d). (k, g d)) ?L) []"
  have "map_of ?L = map_of ?M" using map_of_inject_set [OF dist distM] by simp
  then have ml: "map_of ?L x = map_option (json_doc env) (map_of m x)" for x by (simp add: map_of_map)
  have "map fst (map (\<lambda>(k, d). (k, g d)) ?L) = map fst ?L" by (simp add: case_prod_unfold)
  then have "distinct (map fst (map (\<lambda>(k, d). (k, g d)) ?L))" using dist by (simp only:)
  then have mw: "map_of ?w x = map_option (\<lambda>v. g (json_doc env v)) (map_of m x)" for x
    using map_of_fold_update [of "map (\<lambda>(k, d). (k, g d)) ?L" "\<lambda>v. v" "[]" x] ml [of x]
    by (simp add: map_of_map option.map_comp comp_def split: option.splits)
  have "val_leaf p (VMap ?w) = val_leaf p (VMap m)" for p
  proof (cases p)
    case (Cons x p)
    then show ?thesis using mw [of x] d map_of_SomeD [of m x] by (auto split: option.splits)
  qed simp
  moreover have "dec_value env (json_doc env (VMap m)) = Some (VMap ?w)" using th zip by simp
  ultimately show ?case by blast
qed auto

section \<open>Request identifiers\<close>

lemma show_int_inj:
  assumes "show_int i = show_int j" and "- (2 ^ 63) \<le> i" "i < 2 ^ 63" "- (2 ^ 63) \<le> j" "j < 2 ^ 63"
  shows "i = j"
  using arg_cong [OF assms(1), of strconv_Atoi] assms(2-) unfolding strconv_Atoi_show_int by auto

lemma sint64_range: "- (2 ^ 63) \<le> sint (w :: int64)" "sint (w :: int64) < 2 ^ 63"
  using sint_range_size [of w] by (simp_all add: word_size)

text \<open>The identifiers of \<open>n\<close> requests in a row.\<close>

fun request_ids :: "nat \<Rightarrow> 'c metad \<Rightarrow> string list" where
  "request_ids 0 m = []"
| "request_ids (Suc n) m = (let (r, m1) = generateRequestID m in r # request_ids n m1)"

lemma request_ids_eq:
  "request_ids n m = map (\<lambda>i. ''REQ-'' @ show_int (sint (mRequestIDGen m + of_nat (Suc i)))) [0..<n]"
proof (induction n arbitrary: m)
  case (Suc n)
  have "[0..<Suc n] = 0 # map Suc [0..<n]" by (simp add: upt_conv_Cons map_Suc_upt del: upt_Suc)
  then show ?case
    using Suc by (simp add: generateRequestID_def AtomicLong_IncrementAndGet_def Let_def comp_def add.assoc del: upt_Suc)
qed simp

section \<open>Samples\<close>

text \<open>A server that trusts \<^verbatim>\<open>X-Forwarded-For\<close>, and requests of one client.\<close>

definition sample_metad :: "(localClient \<times> accessStore) metad" where
  "sample_metad = \<lparr>mEnableXff = True, mRepo = sample_repo, mClient = (NewLocalClient, NewAccessStore),
     mTimerPool = sample_pool, mRequestIDGen = 0\<rparr>"

definition sample_request :: "(string, string) gomap \<Rightarrow> http_request" where
  "sample_request form =
     \<lparr>rqMethod = ''GET'', rqNodePath = ''a'', rqForm = form, rqBody = Inr '''', rqXff = ''10.0.0.1'', rqRemoteAddr = ''127.0.0.1:5000''\<rparr>"

section \<open>Claims\<close>



definition sample_env :: http_env where
  "sample_env = \<lparr>negotiate = (\<lambda>req offers def. def), yaml_Marshal = (\<lambda>v. Inl ''''), parse_float = (\<lambda>l. None),
     json_float = (\<lambda>f. fmt_v f), json_error = (\<lambda>b. ''unexpected end of JSON input'')\<rparr>"

text \<open>C38: A JSON response can be read back.  Without the parameter \<^verbatim>\<open>pretty\<close> the status is 200, and the body written for a value in valid
  UTF-8 is accepted by the JSON decoder that reads the bodies of the manage port, whatever follows it, and decodes to a
  value with the same string at every path.\<close>

theorem json_response_roundtrip:
  assumes "text_tree v" and "utf8_tree v" and "FormValue req ''pretty'' \<in> {'''', ''false''}"
  shows "rsStatus (fst (respondJSON env req (RVal v))) = 200 \<and>
    (\<exists>w. Decode env (Inr (rsBody (fst (respondJSON env req (RVal v))) @ rest)) = Inr w \<and> same_leaves w v)"
proof -
  have b: "respondJSON env req (RVal v) =
      (\<lparr>rsStatus = 200, rsContentType = ''application/json'', rsBody = json_Marshal (json_doc env v)\<rparr>, length (json_Marshal (json_doc env v)))"
    using assms(3) by (auto simp: respondJSON_def Let_def)
  obtain w where "dec_value env (json_doc env v) = Some w" "\<forall>p. val_leaf p w = val_leaf p v"
    using dec_value_json_doc [OF assms(1)] by blast
  with p_val_text [OF text_doc_json_doc [OF assms(1,2)], of env rest] show ?thesis by (simp add: b Decode_def same_leaves_def)
qed

theorem json_response_roundtrip_witness:
  "\<exists>w. Decode sample_env (Inr (rsBody (fst (respondJSON sample_env (sample_request []) (RVal (VMap [(''b'', VStr ''<1>''), (''a'', VStr ''2'')])))) @ ''x'')) = Inr w \<and>
    val_leaf [''b''] w = Some ''<1>''"
proof -
  let ?v = "VMap [(''b'', VStr ''<1>''), (''a'', VStr ''2'')]"
  have "text_tree ?v" "utf8_tree ?v" "FormValue (sample_request []) ''pretty'' \<in> {'''', ''false''}" by code_simp+
  from json_response_roundtrip [OF this, of sample_env "''x''"] show ?thesis by (auto simp: same_leaves_def)
qed

text \<open>A text response to a map is a list of lines key, tab, value: the keys are strictly increasing in byte order, each is the path of a
  scalar of the value, and the line of a path holds exactly the scalar there.\<close>

theorem text_body_lines:
  assumes "keys_ok (VMap m)"
  shows "\<exists>ls. text_body (RVal (VMap m)) = concat (map (\<lambda>(k, v). k @ CHR 0x09 # v @ [CHR 0x0A]) ls) \<and>
    sorted_wrt (<) (map fst ls) \<and>
    (\<forall>q. q \<noteq> [] \<longrightarrow> (\<forall>e\<in>set q. seg e) \<longrightarrow> map_of ls (abs_path q) = flat_at q (VMap m)) \<and>
    (\<forall>k\<in>set (map fst ls). \<exists>q. q \<noteq> [] \<and> (\<forall>e\<in>set q. canon e) \<and> k = abs_path q)"
proof -
  let ?fm = "Flatten_entries m"
  let ?ls = "map (\<lambda>k. (k, the (map_of ?fm k))) (sort (map fst ?fm))"
  have pk: "map_ok ?fm" "\<forall>k\<in>set (map fst ?fm). \<exists>q. q \<noteq> [] \<and> (\<forall>e\<in>set q. canon e) \<and> k = pre q"
    using path_keys_Flatten [OF assms] by (simp_all add: path_keys_def)
  have "text_body (RVal (VMap m)) = concat (map (\<lambda>(k, v). k @ CHR 0x09 # v @ [CHR 0x0A]) ?ls)"
    by (simp add: text_body_def Let_def comp_def)
  moreover have k: "map fst ?ls = sort (map fst ?fm)" by (simp add: comp_def)
  moreover have "sorted_wrt (<) (map fst ?ls)" unfolding k by (rule sorted_lines(1) [OF pk(1)])
  moreover have "\<exists>q. q \<noteq> [] \<and> (\<forall>e\<in>set q. canon e) \<and> x = abs_path q" if "x \<in> set (map fst ?ls)" for x
    using that pk(2) pre_abs_path unfolding k set_sort by metis
  ultimately show ?thesis
    using sorted_lines(2) [OF pk(1)] Flatten_at [OF assms] by (intro exI [of _ ?ls]) simp
qed

theorem text_body_lines_witness:
  "\<exists>ls. text_body (RVal sample_value) = concat (map (\<lambda>(k, v). k @ CHR 0x09 # v @ [CHR 0x0A]) ls) \<and>
    map_of ls ''/nodes/1/up'' = Some ''true''"
proof -
  have "keys_ok sample_value" by (simp add: sample_value_def canon_def seg_def)
  then obtain ls where ls: "text_body (RVal sample_value) = concat (map (\<lambda>(k, v). k @ CHR 0x09 # v @ [CHR 0x0A]) ls)"
    "\<And>q. q \<noteq> [] \<Longrightarrow> \<forall>e\<in>set q. seg e \<Longrightarrow> map_of ls (abs_path q) = flat_at q sample_value"
    unfolding sample_value_def using text_body_lines by blast
  have "map_of ls ''/nodes/1/up'' = Some ''true''"
    using ls(2) [of "[''nodes'', ''1'', ''up'']"] sample_flat(1) by (simp add: abs_path_def seg_def)
  with ls(1) show ?thesis by blast
qed

text \<open>Request identifiers are unique as long as fewer than 2^64 requests have been served since the counter had its value: no two of
  \<open>n\<close> consecutive requests get the same one, although the counter is a signed 64-bit integer that wraps around.\<close>

theorem request_ids_distinct:
  assumes "n \<le> 2 ^ 64"
  shows "distinct (request_ids n m)"
proof -
  have "i = j" if i: "i < n" "j < n" and e: "show_int (sint (mRequestIDGen m + of_nat (Suc i))) = show_int (sint (mRequestIDGen m + of_nat (Suc j)))" for i j
  proof -
    have "sint (mRequestIDGen m + of_nat (Suc i)) = sint (mRequestIDGen m + of_nat (Suc j))"
      using show_int_inj [OF e] sint64_range by blast
    then have "mRequestIDGen m + of_nat (Suc i) = mRequestIDGen m + of_nat (Suc j)" by (rule signed_word_eqI)
    then have "(of_nat i :: int64) = of_nat j" by simp
    then have "unat (of_nat i :: int64) = unat (of_nat j :: int64)" by simp
    moreover have "i < 2 ^ 64" "j < 2 ^ 64" using i assms by simp_all
    ultimately show ?thesis by (simp add: unat_of_nat)
  qed
  then show ?thesis unfolding request_ids_eq by (auto simp: distinct_map inj_on_def)
qed

theorem request_ids_distinct_witness: "distinct (request_ids 3 sample_metad) \<and> request_ids 1 sample_metad = [''REQ-1'']"
proof
  show "distinct (request_ids 3 sample_metad)" by (rule request_ids_distinct) simp
qed code_simp

section \<open>Waiting\<close>

lemma root_read_version:
  assumes "root_read ip p m = Inr (ver, res, None)"
  shows "ver = DataVersion (mRepo m)"
proof -
  obtain u v where r: "Root (mRepo m) ip p = Inr (u, v)"
    using assms unfolding root_read_def by (cases "Root (mRepo m) ip p") auto
  then have "u = ver" "v \<noteq> VNil" using assms by (simp_all add: root_read_def or_404_def split: if_splits)
  with r Root_found show ?thesis by blast
qed

lemma rootHandler_version:
  assumes "rootHandler pick during req m = Some (Inr (ver, res, None), m')"
  shows "ver = DataVersion (mRepo m')"
proof (cases "must_wait req (DataVersion (mRepo m))")
  case True
  then obtain x r tp where "repo_Watch pick (node_path req) during (mRepo m) (mTimerPool m) = Some (Inr x, r, tp)"
    "m' = m\<lparr>mRepo := r, mTimerPool := tp\<rparr>" "root_read (requestIP (mEnableXff m) req) (node_path req) m' = Inr (ver, res, None)"
    using assms by (auto simp: rootHandler_def Let_def split: option.splits sum.splits)
  then show ?thesis using root_read_version by blast
next
  case False
  then show ?thesis using assms root_read_version by (auto simp: rootHandler_def Let_def)
qed



section \<open>Status codes of the manage port\<close>

lemma rsStatus_http_Error [simp]: "rsStatus (http_Error msg st) = st"
  by (simp add: http_Error_def)

lemma rsStatus_respondError: "rsStatus (respondError env req msg st) \<in> {st, 500}"
  by (simp add: respondError_def Let_def split: content.splits sum.splits)

lemma rsStatus_respondYAML: "rsStatus (fst (respondYAML env req v)) \<in> {200, 500}"
  using rsStatus_respondError [of env req _ 500] by (auto simp: respondYAML_def split: sum.splits)

lemma rsStatus_respondSuccess: "rsStatus (fst (respondSuccess env req v)) \<in> {200, 500}"
  using rsStatus_respondYAML [of env req v]
  by (auto simp: respondSuccess_def respondText_def respondJSON_def Let_def split: content.splits)

lemma rsStatus_respondSuccessDefault: "rsStatus (respondSuccessDefault env req) \<in> {200, 500}"
  using rsStatus_respondYAML [of env req "RVal (VMap [(''type'', VStr ''OK''), (''code'', VInt 200)])"]
  by (auto simp: respondSuccessDefault_def respondText_def respondJSON_def Let_def split: content.splits)

text \<open>The status of a reply is the one the handler chose, or 500 when the YAML library fails.\<close>

lemma rsStatus_respond: "rsStatus (respond env req (res, err)) \<in> {case err of None \<Rightarrow> 200 | Some e \<Rightarrow> Status e, 500}"
  using rsStatus_respondError rsStatus_respondSuccess rsStatus_respondSuccessDefault
  by (auto simp: respond_def split: option.splits)

lemma generateRequestID_keeps: "mRepo (snd (generateRequestID m)) = mRepo m" "mClient (snd (generateRequestID m)) = mClient m"
  by (simp_all add: generateRequestID_def AtomicLong_IncrementAndGet_def)

text \<open>
  What a handler of the manage port may do: the repository is left to the synchronisation, an answer 400 or 404 goes
  with an untouched backend.
\<close>

definition polite :: "'c metad \<Rightarrow> (panic + result \<times> HttpError option) \<times> 'c metad \<Rightarrow> bool" where
  "polite m out \<longleftrightarrow> mRepo (snd out) = mRepo m \<and> mRequestIDGen (snd out) = mRequestIDGen m \<and>
     (\<forall>res e. fst out = Inr (res, Some e) \<longrightarrow> Status e \<in> {400, 404, 500} \<and>
        (Status e \<noteq> 500 \<longrightarrow> snd out = m))"

lemma polite_finish_call: "polite m (finish_call out m)"
  by (auto simp: polite_def finish_call_def NewServerError_def NewHttpError_def split: prod.splits sum.splits option.splits)

lemma polite_manage_handler: "polite m (manage_handler env ops route meth req m)"
proof -
  have bad: "polite m (Inr (bad_request a b), m)" for a b by (simp add: polite_def bad_request_def NewHttpError_def)
  have found: "polite m (Inr (found_or_404 v), m)" for v
    by (simp add: polite_def found_or_404_def not_found_def NewHttpError_def)
  have upd: "polite m (dataUpdate env ops req m)" "polite m (mappingUpdate env ops req m)" "polite m (accessRuleUpdate env ops req m)"
    by (simp_all add: dataUpdate_def mappingUpdate_def accessRuleUpdate_def bad polite_finish_call split: sum.splits)
  have "polite m (accessRuleDelete ops req m)"
    by (auto simp: polite_def accessRuleDelete_def NewServerError_def NewHttpError_def split: prod.splits sum.splits option.splits)
  moreover have "polite m (accessRuleGet req m)" by (simp add: polite_def accessRuleGet_def)
  ultimately show ?thesis
    using upd
    by (cases route; cases meth)
      (simp_all add: manage_handler_def dataGet_def mappingGet_def dataDelete_def mappingDelete_def found polite_finish_call)
qed

text \<open>C32: The replies of the manage port.  The status is 200, 400, 404 or 500; no handler changes the
  repository (the access store it shares with a local client is part of the client's state here); a reply 400 or 404,
  and any reply to a \<^verbatim>\<open>GET\<close>, comes with an unchanged backend.  A \<^verbatim>\<open>DELETE\<close> of access rules is never answered with 200: on success
  the handler dereferences a nil error, so the client gets no reply although the rules are gone.\<close>

theorem manage_status:
  assumes "manage_serve env ops route meth req m = (out, m')"
  shows "mRepo m' = mRepo m \<and>
    (\<forall>reply. out = Inr reply \<longrightarrow> rsStatus (ryResponse reply) \<in> {200, 400, 404, 500} \<and>
       (rsStatus (ryResponse reply) \<in> {400, 404} \<or> meth = GET \<longrightarrow> mClient m' = mClient m) \<and>
       (route = RuleRoute \<and> meth = DELETE \<longrightarrow> rsStatus (ryResponse reply) = 500)) \<and>
    (route = RuleRoute \<and> meth = DELETE \<and> fst (DeleteAccessRule ops (list_param req ''hosts'') (mClient m)) = Inr None \<longrightarrow>
       out = Inl nil_deref \<and> mClient m' = snd (DeleteAccessRule ops (list_param req ''hosts'') (mClient m)))"
proof -
  let ?req = "req\<lparr>rqMethod := method_name meth\<rparr>"
  let ?m1 = "snd (generateRequestID m)"
  obtain res m2 where h: "manage_handler env ops route meth ?req ?m1 = (res, m2)" by force
  note m1 = generateRequestID_keeps [of m]
  have out: "out = map_sum id (make_reply env ?req (fst (generateRequestID m)) (DataVersion (mRepo m2))) res" "m' = m2"
    using assms h by (auto simp: manage_serve_def manageWrapper_def Let_def case_prod_unfold)
  have p: "polite ?m1 (res, m2)" using polite_manage_handler [of ?m1 env ops route meth ?req] h by simp
  have get: "meth = GET \<Longrightarrow> m2 = ?m1"
    using h by (cases route) (auto simp: manage_handler_def dataGet_def mappingGet_def accessRuleGet_def)
  have lp: "list_param ?req ''hosts'' = list_param req ''hosts''" by (simp add: list_param_def FormValue_def)
  have del: "(\<forall>r. res = Inr r \<longrightarrow> (\<exists>e. snd r = Some e \<and> Status e = 500)) \<and>
      (fst (DeleteAccessRule ops (list_param req ''hosts'') (mClient m)) = Inr None \<longrightarrow>
        res = Inl nil_deref \<and> mClient m2 = snd (DeleteAccessRule ops (list_param req ''hosts'') (mClient m)))"
    if "route = RuleRoute" "meth = DELETE"
    using h that m1(2) lp
    by (auto simp: manage_handler_def accessRuleDelete_def NewServerError_def NewHttpError_def
        split: prod.splits sum.splits option.splits)
  have st: "rsStatus (ryResponse reply) \<in> {case err of None \<Rightarrow> 200 | Some e \<Rightarrow> Status e, 500}"
    if "out = Inr reply" "res = Inr (x, err)" for reply x err
    using that out(1) rsStatus_respond [of env ?req x err] by (auto simp: make_reply_def)
  show ?thesis
  proof (intro conjI allI impI)
    show "mRepo m' = mRepo m" using p m1(1) out(2) by (simp add: polite_def)
  next
    fix reply
    assume o: "out = Inr reply"
    then obtain x err where r: "res = Inr (x, err)" using out(1) by (cases res) auto
    show "rsStatus (ryResponse reply) \<in> {200, 400, 404, 500}"
      using st [OF o r] p r by (cases err) (auto simp: polite_def)
    show "mClient m' = mClient m" if "rsStatus (ryResponse reply) \<in> {400, 404} \<or> meth = GET"
      using that st [OF o r] p r get m1(2) out(2) by (cases err) (auto simp: polite_def)
    show "rsStatus (ryResponse reply) = 500" if "route = RuleRoute \<and> meth = DELETE"
      using that st [OF o r] del r by auto
  qed (use del out in auto)
qed

theorem manage_status_witness:
  "\<exists>m'. manage_serve sample_env local_storeClient RuleRoute DELETE (sample_request []) sample_metad = (Inl nil_deref, m')"
proof -
  obtain out m' where o: "manage_serve sample_env local_storeClient RuleRoute DELETE (sample_request []) sample_metad = (out, m')" by force
  have "fst (DeleteAccessRule local_storeClient (list_param (sample_request []) ''hosts'') (mClient sample_metad)) = Inr None" by code_simp
  with manage_status [OF o] o show ?thesis by simp
qed

end
