(* ===== verification/Config_Props.thy ===== *)
theory Config_Props
  imports Config Http_Props
begin

text \<open>Which of the three layers a setting comes from, and what start-up makes of it.\<close>

section \<open>Flags\<close>

text \<open>The configuration in which each field comes from the flag variables if its flag is among \<open>fs\<close>.\<close>

definition merge :: "Config \<Rightarrow> string set \<Rightarrow> Config \<Rightarrow> Config" where
  "merge vars fs config =
     \<lparr>Backend = (if ''backend'' \<in> fs then Backend vars else Backend config),
          LogLevel = (if ''log_level'' \<in> fs then LogLevel vars else LogLevel config),
          PIDFile = (if ''pid_file'' \<in> fs then PIDFile vars else PIDFile config),
          EnableXff = (if ''xff'' \<in> fs then EnableXff vars else EnableXff config),
          Prefix = (if ''prefix'' \<in> fs then Prefix vars else Prefix config),
          Listen = (if ''listen'' \<in> fs then Listen vars else Listen config),
          ListenManage = (if ''listen_manage'' \<in> fs then ListenManage vars else ListenManage config),
          BasicAuth = (if ''basic_auth'' \<in> fs then BasicAuth vars else BasicAuth config),
          ClientCaKeys = (if ''client_ca_keys'' \<in> fs then ClientCaKeys vars else ClientCaKeys config),
          ClientCert = (if ''client_cert'' \<in> fs then ClientCert vars else ClientCert config),
          ClientKey = (if ''client_key'' \<in> fs then ClientKey vars else ClientKey config),
          BackendNodes = (if ''nodes'' \<in> fs then BackendNodes vars else BackendNodes config),
          Username = (if ''username'' \<in> fs then Username vars else Username config),
          Password = (if ''password'' \<in> fs then Password vars else Password config),
          Group = (if ''group'' \<in> fs then Group vars else Group config)\<rparr>"

text \<open>The flags that set a field of the configuration.\<close>

definition config_flags :: "string list" where
  "config_flags =
     [''backend'', ''log_level'', ''pid_file'', ''xff'', ''prefix'', ''group'', ''listen'', ''listen_manage'', ''basic_auth'',
      ''client_cert'', ''client_key'', ''client_ca_keys'', ''nodes'', ''username'', ''password'']"

lemma setConfigFromFlag_merge: "setConfigFromFlag vars f (merge vars fs config) = merge vars (insert f fs) config"
  by (cases "f \<in> set config_flags")
    (auto simp: config_flags_def setConfigFromFlag_def merge_def split del: if_split)

lemma merge_empty: "merge vars {} config = config"
  by (simp add: merge_def)

lemma processFlags_merge: "processFlags fl config = merge (fvars fl) (set (set_flags fl)) config"
proof -
  have "fold (setConfigFromFlag vars) xs (merge vars fs config) = merge vars (set xs \<union> fs) config" for vars xs fs
    by (induction xs arbitrary: fs) (simp_all add: setConfigFromFlag_merge)
  from this [of "fvars fl" "sort (remdups (set_flags fl))" "{}"] show ?thesis
    by (simp add: processFlags_def merge_empty)
qed

section \<open>Claims\<close>

text \<open>C39: The layers of the configuration.  When start-up gets a configuration, every field is that of the command line if its flag was given,
  otherwise that of the configuration file if one was named (it was then read and parsed without an error), otherwise
  the default; only an empty list of nodes is replaced, by the default node of the etcd backends.  The log level, if any, is
  a valid one, and the file for the process id, if any, was written.\<close>

theorem initConfig_layers:
  assumes "initConfig env fl = Returns (Inr config)"
  shows "\<exists>base. (configFile fl = '''' \<longrightarrow> base = default_config) \<and>
    (configFile fl \<noteq> '''' \<longrightarrow> (\<exists>data. read_config env (configFile fl) = Inr data \<and> yaml_Unmarshal env data default_config = Inr base)) \<and>
    (let c = merge (fvars fl) (set (set_flags fl)) base
     in config = c\<lparr>BackendNodes := if BackendNodes c = [] then GetDefaultBackends (Backend c) else BackendNodes c\<rparr> \<and>
        (LogLevel c \<noteq> '''' \<longrightarrow> logrus_ParseLevel (LogLevel c) \<noteq> None) \<and> (PIDFile c \<noteq> '''' \<longrightarrow> write_pid env (PIDFile c) = None))"
proof -
  let ?load = "if configFile fl \<noteq> '''' then loadConfigFile env (configFile fl) default_config else Inr default_config"
  obtain base where b: "?load = Inr base" using assms by (auto simp: initConfig_def split: sum.splits)
  let ?c = "merge (fvars fl) (set (set_flags fl)) base"
  have i: "initConfig env fl =
      (case (if LogLevel ?c \<noteq> '''' then SetLevel (LogLevel ?c) else Returns InfoLevel) of
         Fatal msg \<Rightarrow> Fatal msg
       | Returns _ \<Rightarrow>
           (case (if PIDFile ?c \<noteq> '''' then write_pid env (PIDFile ?c) else None) of
              Some err \<Rightarrow> Fatal (''Failed to write pid file '' @ PIDFile ?c @ '': '' @ err)
            | None \<Rightarrow> Returns (Inr (if BackendNodes ?c = [] then ?c\<lparr>BackendNodes := GetDefaultBackends (Backend ?c)\<rparr> else ?c))))"
    unfolding initConfig_def b by (simp add: processFlags_merge Let_def)
  have "logrus_ParseLevel (LogLevel ?c) \<noteq> None" if "LogLevel ?c \<noteq> ''''"
    using assms that unfolding i by (auto simp: SetLevel_def split: if_splits option.splits)
  moreover have "write_pid env (PIDFile ?c) = None" if "PIDFile ?c \<noteq> ''''"
    using assms that unfolding i by (auto split: outcome.splits option.splits)
  moreover have "config = ?c\<lparr>BackendNodes := if BackendNodes ?c = [] then GetDefaultBackends (Backend ?c) else BackendNodes ?c\<rparr>"
    using assms unfolding i by (auto split: outcome.splits option.splits if_splits)
  ultimately show ?thesis
    using b by (intro exI [of _ base]) (auto simp: Let_def loadConfigFile_def split: if_splits sum.splits)
qed

text \<open>A file that sets the prefix and the address of the service, and a command line that sets the prefix again.\<close>

definition sample_start :: start_env where
  "sample_start =
     \<lparr>read_config = (\<lambda>f. if f = ''metad.yml'' then Inr ''prefix: /app'' else Inl ''no such file''),
      yaml_Unmarshal = (\<lambda>data c. Inr (c\<lparr>Prefix := ''/app'', Listen := '':8080''\<rparr>)),
      write_pid = (\<lambda>f. None)\<rparr>"

definition sample_flags :: flags where
  "sample_flags = default_flags\<lparr>configFile := ''metad.yml'', fvars := default_config\<lparr>Prefix := ''/cli''\<rparr>, set_flags := [''prefix'', ''config'']\<rparr>"

theorem initConfig_layers_witness:
  "\<exists>config. initConfig sample_start sample_flags = Returns (Inr config) \<and> Prefix config = ''/cli'' \<and> Listen config = '':8080''"
proof -
  have "case initConfig sample_start sample_flags of Returns (Inr c) \<Rightarrow> True | _ \<Rightarrow> False" by code_simp
  then obtain config where i: "initConfig sample_start sample_flags = Returns (Inr config)"
    by (auto split: outcome.splits sum.splits)
  have "configFile sample_flags \<noteq> ''''" by (simp add: sample_flags_def)
  with initConfig_layers [OF i] obtain base data where
    "read_config sample_start (configFile sample_flags) = Inr data" "yaml_Unmarshal sample_start data default_config = Inr base"
    "Prefix config = Prefix (merge (fvars sample_flags) (set (set_flags sample_flags)) base)"
    "Listen config = Listen (merge (fvars sample_flags) (set (set_flags sample_flags)) base)"
    unfolding Let_def by fastforce
  then have "Prefix config = ''/cli''" "Listen config = '':8080''" by (auto simp: sample_flags_def sample_start_def merge_def)
  with i show ?thesis by blast
qed

text \<open>With \<^verbatim>\<open>-pprof\<close> the service never starts: \<^verbatim>\<open>main\<close> stays in the profiling server or dies with it.\<close>

lemma main_pprof_never_serves: "\<not> printVersion fl \<Longrightarrow> pprof fl \<Longrightarrow> main env cenv err fl \<in> {InPprof, Died (the err)}"
  by (simp add: main_def split: option.splits)

text \<open>What start-up leads to.  Without the flags \<^verbatim>\<open>version\<close> and \<^verbatim>\<open>pprof\<close>, start-up ends in an error or in a server whose repository is empty
  and well formed, over a local client for the backend \<^verbatim>\<open>local\<close> and over an etcd client for \<^verbatim>\<open>etcd\<close> and \<^verbatim>\<open>etcdv3\<close>, whose prefix is a
  canonical absolute path and whose mapping and rule directories are those of the configured group; any other backend is an error.\<close>

theorem main_serves:
  assumes "main env cenv err fl = Serving config m"
  shows "repo_ok (mRepo m) \<and> mEnableXff m = EnableXff config \<and>
    (case mClient m of
       LocalBackendClient c \<Rightarrow> Backend config = ''local'' \<and> c = NewLocalClient
     | EtcdBackend c \<Rightarrow> Backend config \<in> {'''', ''etcd'', ''etcdv3''} \<and> ePrefix c = abs_path (path_elems (Prefix config)) \<and>
         mappingPrefix c = path_Join [SELF_MAPPING_PATH, if Group config = '''' then ''default'' else Group config] \<and>
         rulePrefix c = path_Join [RULE_PATH, if Group config = '''' then ''default'' else Group config])"
proof -
  have n: "metad_New cenv config = Inr m"
    using assms by (auto simp: main_def split: if_splits option.splits outcome.splits sum.splits)
  have m: "backends_New cenv config = Inr (mClient m)" "mRepo m = newMetadataRepo" "mEnableXff m = EnableXff config"
    using n by (auto simp: metad_New_def split: sum.splits)
  have e: "ePrefix c = p \<and> mappingPrefix c = path_Join [SELF_MAPPING_PATH, g] \<and> rulePrefix c = path_Join [RULE_PATH, g]"
    if "NewEtcdClient cenv g p a b d f h i j = Inr c" for g p a b d f h i j c
    using that by (auto simp: NewEtcdClient_def Let_def split: if_splits sum.splits option.splits)
  let ?b = "if Backend config = '''' then ''etcdv3'' else Backend config"
  let ?g = "if Group config = '''' then ''default'' else Group config"
  let ?etcd = "NewEtcdClient cenv ?g (abs_path (path_elems (Prefix config)))
      (if BackendNodes config = [] then GetDefaultBackends ?b else BackendNodes config) (ClientCert config) (ClientKey config)
      (ClientCaKeys config) (BasicAuth config) (Username config) (Password config)"
  have b: "backends_New cenv config =
      (if ?b = ''etcd'' \<or> ?b = ''etcdv3'' then map_sum id EtcdBackend ?etcd
       else if ?b = ''local'' then Inr (LocalBackendClient NewLocalClient) else Inl ''Invalid backend'')"
    by (simp add: backends_New_def Let_def path_Join_root)
  have "case mClient m of
       LocalBackendClient c \<Rightarrow> Backend config = ''local'' \<and> c = NewLocalClient
     | EtcdBackend c \<Rightarrow> Backend config \<in> {'''', ''etcd'', ''etcdv3''} \<and> ePrefix c = abs_path (path_elems (Prefix config)) \<and>
         mappingPrefix c = path_Join [SELF_MAPPING_PATH, ?g] \<and> rulePrefix c = path_Join [RULE_PATH, ?g]"
  proof (cases "?b = ''etcd'' \<or> ?b = ''etcdv3''")
    case True
    then obtain c where c: "?etcd = Inr c" "mClient m = EtcdBackend c" using m(1) b by (cases ?etcd) simp_all
    moreover have "Backend config \<in> {'''', ''etcd'', ''etcdv3''}" using True by (auto split: if_splits)
    ultimately show ?thesis using e [OF c(1)] by simp
  next
    case False
    then have "?b = ''local''" "mClient m = LocalBackendClient NewLocalClient" using m(1) b by (auto split: if_splits)
    then show ?thesis by (auto split: if_splits)
  qed
  with m show ?thesis using repo_ok_new by simp
qed

definition sample_etcd_env :: "unit etcd_env" where
  "sample_etcd_env = \<lparr>ReadFile = (\<lambda>f. Inl ''no such file''), AppendCertsFromPEM = (\<lambda>s. True), LoadX509KeyPair = (\<lambda>c k. Inr ()),
     client_New = (\<lambda>c. None)\<rparr>"

theorem main_serves_witness:
  "\<exists>config m c. main sample_start sample_etcd_env None (sample_flags\<lparr>fvars := default_config\<lparr>Backend := ''etcd'', Prefix := ''a/./b''\<rparr>,
      set_flags := [''backend'', ''prefix'']\<rparr>) = Serving config m \<and>
    mClient m = EtcdBackend c \<and> ePrefix c = ''/a/b''"
proof -
  let ?fl = "sample_flags\<lparr>fvars := default_config\<lparr>Backend := ''etcd'', Prefix := ''a/./b''\<rparr>, set_flags := [''backend'', ''prefix'']\<rparr>"
  have "case main sample_start sample_etcd_env None ?fl of
      Serving config m \<Rightarrow> (case mClient m of EtcdBackend c \<Rightarrow> True | _ \<Rightarrow> False) \<and> Prefix config = ''a/./b'' | _ \<Rightarrow> False" by code_simp
  then obtain config m c where m: "main sample_start sample_etcd_env None ?fl = Serving config m" "mClient m = EtcdBackend c"
    "Prefix config = ''a/./b''"
    by (auto split: main_state.splits backend_client.splits)
  have "abs_path (path_elems ''a/./b'') = ''/a/b''" by code_simp
  then have "ePrefix c = ''/a/b''" using main_serves [OF m(1)] m(2,3) by simp
  with m show ?thesis by blast
qed


end
