(* ===== verification/Delete_Events.thy ===== *)
theory Delete_Events
  imports Notification
begin

text \<open>
  The events of a deletion: every leaf of the removed subtree is reported, and an ancestor that is left without children
  and turns back into a leaf reports its own text.
\<close>

section \<open>Sequences of changes\<close>

text \<open>A change as \<^verbatim>\<open>internalNotify\<close> is given it: the action, the node and its value.\<close>

type_synonym change = "string \<times> noderef \<times> string"

definition emit :: "change list \<Rightarrow> watcher list \<Rightarrow> watcher list" where
  "emit chs ws = fold (\<lambda>(action, r, v). map (deliver action r v r)) chs ws"

lemma emit_simps [simp]:
  "emit [] ws = ws" "emit ((action, r, v) # chs) ws = emit chs (map (deliver action r v r) ws)"
  "emit (chs @ chs') ws = emit chs' (emit chs ws)"
  by (simp_all add: emit_def)

lemma registered_calm': "calm st st' \<Longrightarrow> registered st \<Longrightarrow> registered st'"
  by (rule registered_calm) (simp_all add: calm_def)

text \<open>The text of a node.\<close>

definition text_at :: "nstate \<Rightarrow> string list \<Rightarrow> string option" where
  "text_at st p = map_option aval (amap st p)"

lemma text_at_clean: "clean_rel (amap st p) (amap st' p) \<Longrightarrow> text_at st' p = Some v \<Longrightarrow> text_at st p = Some v"
  by (auto simp: clean_rel_def text_at_def)

section \<open>Cleaning\<close>

text \<open>What cleaning from \<open>r\<close> upwards reports: texts of nodes on the way.\<close>

definition clean_changes :: "noderef \<Rightarrow> nstate \<Rightarrow> change list \<Rightarrow> bool" where
  "clean_changes r st chs \<longleftrightarrow>
     (\<forall>(action, q, v)\<in>set chs. action = Update \<and> v \<noteq> '''' \<and> within (rev q) (rev r) \<and> text_at st (rev q) = Some v)"

lemma clean_changes_Nil [simp]: "clean_changes r st []"
  by (simp add: clean_changes_def)

lemma AsLeaf_emits:
  assumes "registered st" and "deref r st = Some n" and "kids n = []"
  shows "wtab (AsLeaf r st) = emit [(Update, r, nValue n)] (wtab st)"
proof -
  let ?f = "\<lambda>n. if IsDir n then set_Children None n else n"
  let ?st = "modify r ?f st"
  have a: "amap ?st = (amap st)(rev r := map_option (\<lambda>a. Attr (aval a) False (awat a)) (amap st (rev r)))"
    using amap_AsLeaf [of st r] childless_deref [OF assms(2)] assms(3) by (simp add: AsLeaf_def)
  then have "wat ?st = wat st" by (auto simp: wat_def fun_eq_iff split: option.splits)
  then have reg: "registered ?st" by (intro registered_calm [OF _ _ assms(1)]) (simp_all add: statics_def)
  have "amap ?st (rev r) = Some (Attr (nValue n) False (nWatchers n))"
    using a deref_amap [OF assms(2)] by (simp add: attr_of_def)
  from Notify_wtab [OF reg this, of Update] show ?thesis by (simp add: AsLeaf_def)
qed

lemma Clean_emits:
  "registered st \<Longrightarrow> (\<forall>n. deref r st = Some n \<longrightarrow> IsDir n \<and> nValue n = '''') \<Longrightarrow>
    \<exists>chs. wtab (snd (remove_end r st)) = emit chs (wtab st) \<and> clean_changes r st chs"
  "registered st' \<Longrightarrow> \<exists>chs. wtab (snd (node_Clean r' st')) = emit chs (wtab st') \<and> clean_changes r' st' chs"
proof (induction r st and r' st' rule: remove_end_node_Clean.induct)
  case (1 st)
  then show ?case by (intro exI [of _ "[]"]) (simp add: remove_end.simps)
next
  case (2 x q st)
  show ?case
  proof (cases "\<exists>n. deref (x # q) st = Some n \<and> ChildrenCount n = 0 \<and> \<not> HasWatcher n")
    case True
    then obtain n where n: "deref (x # q) st = Some n" "ChildrenCount n = 0" "\<not> HasWatcher n" by blast
    let ?st = "detach (x # q) st"
    have c: "childless (amap st) (rev (x # q))" using childless_deref [OF n(1)] n(2) by (simp add: ChildrenCount_kids)
    have "wat st (rev (x # q)) = []" using deref_amap [OF n(1)] n(3) by (simp add: wat_def HasWatcher_def attr_of_def)
    then have "registered ?st" using registered_calm' [OF calm_detach [OF c]] "2.prems"(1) by blast
    then obtain chs where chs: "wtab (snd (node_Clean q ?st)) = emit chs (wtab ?st)" "clean_changes q ?st chs"
      using "2.IH" [OF n(1)] n(2,3) by auto
    have "within (rev p) (rev (x # q)) \<and> text_at ?st (rev p) = text_at st (rev p)" if "within (rev p) (rev q)" for p
    proof -
      have "rev p \<noteq> rev (x # q)" using that by (auto simp: prefix_def)
      then show ?thesis using that amap_detach [OF c] by (simp add: text_at_def)
    qed
    then have "clean_changes (x # q) st chs" using chs(2) unfolding clean_changes_def by fastforce
    moreover have "wtab ?st = wtab st" by (simp add: detach_def)
    ultimately show ?thesis using chs(1) n by (intro exI [of _ chs]) (simp add: remove_end.simps)
  next
    case False
    then show ?thesis by (intro exI [of _ "[]"]) (auto simp: remove_end.simps split: option.splits)
  qed
next
  case (3 r st)
  show ?case
  proof (cases "deref r st")
    case None
    then show ?thesis by (intro exI [of _ "[]"]) (simp add: node_Clean.simps)
  next
    case (Some n)
    consider (skip) "\<not> IsDir n \<or> ChildrenCount n \<noteq> 0 \<or> (nValue n = '''' \<and> HasWatcher n)"
      | (leaf) "IsDir n" "ChildrenCount n = 0" "nValue n \<noteq> ''''"
      | (rem) "IsDir n" "ChildrenCount n = 0" "nValue n = ''''" "\<not> HasWatcher n"
      by blast
    then show ?thesis
    proof cases
      case skip
      with Some show ?thesis by (intro exI [of _ "[]"]) (auto simp: node_Clean.simps)
    next
      case leaf
      then have "wtab (AsLeaf r st) = emit [(Update, r, nValue n)] (wtab st)"
        using AsLeaf_emits [OF "3.prems" Some] by (simp add: ChildrenCount_kids)
      moreover have "clean_changes r st [(Update, r, nValue n)]"
        using leaf(3) deref_amap [OF Some] by (simp add: clean_changes_def text_at_def attr_of_def)
      ultimately show ?thesis using Some leaf by (intro exI [of _ "[(Update, r, nValue n)]"]) (simp add: node_Clean.simps)
    next
      case rem
      let ?st = "modify r (set_Value '''') st"
      have a: "amap ?st = amap st" using amap_set_Value [of r "''''" st] deref_amap [OF Some] rem(1,3)
        by (auto simp: fun_eq_iff attr_of_def simp del: modify_fields)
      then have "wat ?st = wat st" by (auto simp: wat_def fun_eq_iff)
      then have reg: "registered ?st" by (intro registered_calm [OF _ _ "3.prems"]) (simp_all add: statics_def)
      moreover have "\<forall>m. deref r ?st = Some m \<longrightarrow> IsDir m \<and> nValue m = ''''" using Some rem by (auto simp: deref_modify_same)
      ultimately obtain chs where "wtab (snd (remove_end r ?st)) = emit chs (wtab ?st)" "clean_changes r ?st chs"
        using "3.IH" [OF Some] rem by auto
      moreover have "text_at ?st = text_at st" using a by (simp add: text_at_def fun_eq_iff)
      ultimately show ?thesis using Some rem by (intro exI [of _ chs]) (simp add: node_Clean.simps clean_changes_def)
    qed
  qed
qed

section \<open>Removing\<close>

text \<open>
  What removing the node at \<open>r\<close> reports: deletions at and below it, among them every leaf, and texts of nodes strictly above.
\<close>

definition remove_changes :: "noderef \<Rightarrow> nstate \<Rightarrow> change list \<Rightarrow> bool" where
  "remove_changes r st chs \<longleftrightarrow>
     (\<forall>(action, q, v)\<in>set chs.
        action = Delete \<and> within (rev r) (rev q) \<and> amap st (rev q) \<noteq> None \<or>
        action = Update \<and> v \<noteq> '''' \<and> within (rev q) (rev r) \<and> q \<noteq> r \<and> text_at st (rev q) = Some v) \<and>
     (\<forall>p a. within (rev r) p \<and> amap st p = Some a \<and> \<not> adir a \<longrightarrow> (\<exists>v. (Delete, rev p, v) \<in> set chs))"

text \<open>A report by cleaning from the parent of \<open>r\<close> on.\<close>

definition above_changes :: "noderef \<Rightarrow> nstate \<Rightarrow> change list \<Rightarrow> bool" where
  "above_changes r st chs \<longleftrightarrow>
     (\<forall>ch\<in>set chs. \<exists>q v. ch = (Update, q, v) \<and> v \<noteq> '''' \<and> within (rev q) (rev r) \<and> q \<noteq> r \<and> text_at st (rev q) = Some v)"

lemma remove_changes_leaf:
  assumes "deref r st = Some n" and "\<not> IsDir n" and "above_changes r st chs"
  shows "remove_changes r st ((Delete, r, v) # chs)"
  unfolding remove_changes_def
proof (intro conjI allI impI)
  note a = deref_amap [OF assms(1)]
  show "\<forall>(action, q, v)\<in>set ((Delete, r, v) # chs).
      action = Delete \<and> within (rev r) (rev q) \<and> amap st (rev q) \<noteq> None \<or>
      action = Update \<and> v \<noteq> '''' \<and> within (rev q) (rev r) \<and> q \<noteq> r \<and> text_at st (rev q) = Some v"
  proof clarify
    fix action q w
    assume "(action, q, w) \<in> set ((Delete, r, v) # chs)"
      and "\<not> (action = Update \<and> w \<noteq> '''' \<and> within (rev q) (rev r) \<and> q \<noteq> r \<and> text_at st (rev q) = Some w)"
    then show "action = Delete \<and> within (rev r) (rev q) \<and> amap st (rev q) \<noteq> None" using a assms(3) unfolding above_changes_def by (cases "(action, q, w) \<in> set chs") auto
  qed
  fix p a
  assume p: "within (rev r) p \<and> amap st p = Some a \<and> \<not> adir a"
  have "amap st (rev r) = Some (Attr (nValue n) False (nWatchers n))" using deref_amap [OF assms(1)] assms(2) by (simp add: attr_of_def)
  then have "childless (amap st) (rev r)" by (rule flat_leaf_childless)
  then have "p = rev r" using childless_below [of "tree st" "rev r" p] p by auto
  then show "\<exists>w. (Delete, rev p, w) \<in> set ((Delete, r, v) # chs)" by auto
qed

lemma watched_leaf_emits:
  assumes "registered st" and "deref r st = Some n" and "\<not> IsDir n" and "r \<noteq> []"
  shows "\<exists>chs. wtab (AsDir r (modify r (set_Value '''') st)) = emit chs (wtab st) \<and> remove_changes r st chs"
proof -
  let ?t = "modify r (set_Value '''') st"
  let ?u = "modify r (\<lambda>n. if IsDir n then n else set_Children (Some []) n) ?t"
  have "calm st (AsDir r ?t)" using calm_trans [OF calm_set_Value [of r "''''" st] calm_AsDir [of ?t r]] by simp
  moreover have "wat (AsDir r ?t) = wat ?u" unfolding AsDir_def by (rule wat_tree) simp
  ultimately have "wat ?u = wat st" by (simp only: calm_def)
  then have reg: "registered ?u" by (intro registered_calm [OF _ _ assms(1)]) (simp_all add: statics_def)
  have "amap (AsDir r ?t) (rev r) = Some (Attr '''' True (nWatchers n))"
    using deref_amap [OF assms(2)] by (simp add: amap_AsDir amap_set_Value attr_of_def del: modify_fields)
  then have "amap ?u (rev r) = Some (Attr '''' True (nWatchers n))" by (simp only: AsDir_def Notify_tree)
  from Notify_wtab [OF reg this, of Delete] have "wtab (AsDir r ?t) = emit [(Delete, r, '''')] (wtab st)" by (simp add: AsDir_def)
  moreover have "remove_changes r st [(Delete, r, '''')]" by (rule remove_changes_leaf [OF assms(2,3)]) (simp add: above_changes_def)
  ultimately show ?thesis by blast
qed

lemma leaf_emits:
  assumes "registered st" and "deref (x # q) st = Some n" and "\<not> IsDir n" and "nWatchers n = []"
  shows "\<exists>chs. wtab (snd (node_Clean q (internalNotify Delete (x # q) v (x # q) (detach (x # q) st)))) = emit chs (wtab st) \<and>
    remove_changes (x # q) st chs"
proof -
  let ?r = "x # q" and ?d = "detach (x # q) st"
  let ?t = "internalNotify Delete ?r v ?r ?d"
  have a: "amap st (rev ?r) = Some (Attr (nValue n) False [])"
    using deref_amap [OF assms(2)] assms(3,4) by (simp add: attr_of_def)
  then have c: "childless (amap st) (rev ?r)" by (rule flat_leaf_childless)
  have "calm st ?d" using a by (intro calm_detach [OF c]) (simp add: wat_def)
  then have rd: "registered ?d" using registered_calm' assms(1) by blast
  then have rt: "registered ?t" using registered_calm' calm_internalNotify by blast
  obtain chs where chs: "wtab (snd (node_Clean q ?t)) = emit chs (wtab ?t)" "clean_changes q ?t chs"
    using Clean_emits(2) [OF rt] by blast
  have emitted: "wtab ?t = emit [(Delete, ?r, v)] (wtab st)" using internalNotify_wtab [OF rd] by (simp add: detach_def)
  have "text_at ?t p = text_at st p" if "within p (rev q)" for p
  proof -
    have "p \<noteq> rev ?r" using that by (auto simp: prefix_def)
    then show ?thesis unfolding text_at_def internalNotify_tree amap_detach [OF c] by simp
  qed
  moreover have "within (rev p) (rev ?r) \<and> p \<noteq> ?r" if "within (rev p) (rev q)" for p using that by (auto simp: prefix_def)
  ultimately have "above_changes ?r st chs" using chs(2) unfolding clean_changes_def above_changes_def by fastforce
  then show ?thesis
    using emitted chs(1) remove_changes_leaf [OF assms(2,3), of chs v] by (intro exI [of _ "(Delete, ?r, v) # chs"]) simp
qed

text \<open>The reports of the loop over the children \<open>l\<close> of \<open>r\<close>, where \<open>r\<close> itself has no text.\<close>

definition loop_changes :: "noderef \<Rightarrow> string set \<Rightarrow> nstate \<Rightarrow> change list \<Rightarrow> bool" where
  "loop_changes r K st chs \<longleftrightarrow>
     (\<forall>(action, q, v)\<in>set chs.
        action = Delete \<and> within (rev r) (rev q) \<and> amap st (rev q) \<noteq> None \<or>
        action = Update \<and> v \<noteq> '''' \<and> within (rev q) (rev r) \<and> text_at st (rev q) = Some v) \<and>
     (\<forall>k\<in>K. \<forall>p a. within (rev r @ [k]) p \<and> amap st p = Some a \<and> \<not> adir a \<longrightarrow> (\<exists>v. (Delete, rev p, v) \<in> set chs))"

lemma purged_back: "purged r s t \<Longrightarrow> amap t q \<noteq> None \<Longrightarrow> amap s q \<noteq> None"
  by (cases "within (rev r) q") (auto simp: purged_def purge_rel_def clean_rel_def)

lemma loop_changes_step:
  assumes "purged (k # r) s t" and "remove_changes (k # r) s chs1" and "loop_changes r K t chs2" and "k \<notin> K"
  shows "loop_changes r (insert k K) s (chs1 @ chs2)"
  unfolding loop_changes_def
proof (intro conjI ballI allI impI)
  have up: "text_at s p = Some v" if "text_at t p = Some v" "within p (rev r)" for p v
  proof -
    have "\<not> within (rev (k # r)) p" using that(2) by (auto simp: prefix_def)
    then have "clean_rel (amap s p) (amap t p)" using assms(1) by (simp add: purged_def)
    then show ?thesis using that(1) by (rule text_at_clean)
  qed
  fix ch
  assume "ch \<in> set (chs1 @ chs2)"
  then consider "ch \<in> set chs1" | "ch \<in> set chs2" by auto
  then show "case ch of (action, q, v) \<Rightarrow> action = Delete \<and> within (rev r) (rev q) \<and> amap s (rev q) \<noteq> None \<or>
      action = Update \<and> v \<noteq> '''' \<and> within (rev q) (rev r) \<and> text_at s (rev q) = Some v"
  proof cases
    case 1
    obtain action q v where ch: "ch = (action, q, v)" by (cases ch)
    from 1 consider "action = Delete" "within (rev (k # r)) (rev q)" "amap s (rev q) \<noteq> None"
      | "action = Update" "v \<noteq> ''''" "within (rev q) (rev (k # r))" "q \<noteq> k # r" "text_at s (rev q) = Some v"
      using assms(2) ch unfolding remove_changes_def by blast
    then show ?thesis
    proof cases
      case 1
      then have "within (rev r) (rev q)" using within_snoc [of "rev r" k "rev q"] by simp
      with 1 ch show ?thesis by simp
    next
      case 2
      then have "within (rev q) (rev r)" using within_rev_Cons [of q k r] by auto
      with 2 ch show ?thesis by simp
    qed
  next
    case 2
    obtain action q v where ch: "ch = (action, q, v)" by (cases ch)
    from 2 have "action = Delete \<and> within (rev r) (rev q) \<and> amap t (rev q) \<noteq> None \<or>
        action = Update \<and> v \<noteq> '''' \<and> within (rev q) (rev r) \<and> text_at t (rev q) = Some v"
      using assms(3) ch unfolding loop_changes_def by blast
    then show ?thesis using up purged_back [OF assms(1)] ch by auto
  qed
next
  fix j p a
  assume j: "j \<in> insert k K" and p: "within (rev r @ [j]) p \<and> amap s p = Some a \<and> \<not> adir a"
  show "\<exists>v. (Delete, rev p, v) \<in> set (chs1 @ chs2)"
  proof (cases "j = k")
    case True
    then show ?thesis using p assms(2) unfolding remove_changes_def by auto
  next
    case False
    have "\<not> within (rev (k # r)) p" "\<not> within p (rev (k # r))"
    proof -
      show "\<not> within (rev (k # r)) p" using p False apart_snoc [of j k "rev r" p] by auto
      show "\<not> within p (rev (k # r))" using p False by (auto simp: prefix_def)
    qed
    then have "amap t p = amap s p" using assms(1) by (intro amap_lookup) (simp add: purged_def)
    moreover have "j \<in> K" using j False by simp
    ultimately show ?thesis using p assms(3) unfolding loop_changes_def by fastforce
  qed
qed

lemma loop_emits:
  assumes "\<And>k c s. (k, c) \<in> set l \<Longrightarrow> lookup_path (rev r @ [k]) (tree s) = Some c \<Longrightarrow>
      purged (k # r) s (snd (node_Remove c (k # r) s))"
    and "\<And>k c s. (k, c) \<in> set l \<Longrightarrow> lookup_path (rev r @ [k]) (tree s) = Some c \<Longrightarrow> registered s \<Longrightarrow> root_ok s \<Longrightarrow>
      \<exists>chs. wtab (snd (node_Remove c (k # r) s)) = emit chs (wtab s) \<and> remove_changes (k # r) s chs"
    and "map_ok l" and "\<forall>(k, c)\<in>set l. lookup_path (rev r @ [k]) (tree st) = Some c"
    and "registered st" and "root_ok st"
  shows "\<exists>chs. wtab (fold (\<lambda>(k, c) s. snd (node_Remove c (k # r) s)) l st) = emit chs (wtab st) \<and>
    loop_changes r (set (keys l)) st chs"
  using assms
proof (induction l arbitrary: st)
  case Nil
  then show ?case by (intro exI [of _ "[]"]) (simp add: loop_changes_def)
next
  case (Cons kc l)
  obtain k c where kc: "kc = (k, c)" by force
  let ?t = "snd (node_Remove c (k # r) st)"
  have lk: "lookup_path (rev r @ [k]) (tree st) = Some c" using Cons.prems(4) kc by auto
  have p: "purged (k # r) st ?t" using Cons.prems(1) [OF _ lk] kc by auto
  obtain chs1 where chs1: "wtab ?t = emit chs1 (wtab st)" "remove_changes (k # r) st chs1"
    using Cons.prems(2) [OF _ lk Cons.prems(5,6)] kc by auto
  have c: "calm st ?t" using p Cons.prems(6) by (simp add: purged_def)
  have kn: "k \<notin> set (keys l)" using Cons.prems(3) kc by simp
  have "\<forall>(j, d)\<in>set l. lookup_path (rev r @ [j]) (tree ?t) = Some d"
  proof clarify
    fix j d
    assume jd: "(j, d) \<in> set l"
    with kn have "j \<noteq> k" by force
    then have "\<not> within (rev (k # r)) (rev r @ [j])" "\<not> within (rev r @ [j]) (rev (k # r))" by (auto simp: prefix_def)
    then show "lookup_path (rev r @ [j]) (tree ?t) = Some d" using p jd Cons.prems(4) by (auto simp: purged_def)
  qed
  then obtain chs2 where "wtab (fold (\<lambda>(k, c) s. snd (node_Remove c (k # r) s)) l ?t) = emit chs2 (wtab ?t)"
    "loop_changes r (set (keys l)) ?t chs2"
    using Cons.IH [of ?t] Cons.prems(1-3) registered_calm' [OF c Cons.prems(5)] c Cons.prems(6) by (auto simp: calm_def)
  then show ?case
    using chs1 loop_changes_step [OF p chs1(2) _ kn, of chs2] by (intro exI [of _ "chs1 @ chs2"]) (simp add: kc)
qed

lemma dir_emits:
  assumes n: "deref r st = Some n" "IsDir n" and "registered st" and "root_ok st"
    and loop: "loop_purged r (set (keys (kids n))) (modify r (set_Value '''') st) s"
    and chs: "wtab s = emit chs (wtab st)" "loop_changes r (set (keys (kids n))) (modify r (set_Value '''') st) chs"
  shows "\<exists>chs. wtab (snd (remove_end r s)) = emit chs (wtab st) \<and> remove_changes r st chs"
proof -
  let ?t = "modify r (set_Value '''') st"
  have at: "amap ?t = (amap st)(rev r \<mapsto> Attr '''' True (nWatchers n))"
    using n by (simp add: amap_set_Value amap_deref attr_of_def del: modify_fields)
  have nw: "\<not> within (rev r @ [k]) p" if "within p (rev r)" for k p using that by (auto simp: prefix_def)
  have clean: "clean_rel (amap ?t p) (amap s p)" if "within p (rev r)" for p
    using loop nw [OF that] unfolding loop_purged_def by blast
  have "calm st ?t" by (rule calm_set_Value) simp
  moreover from this have "root_ok ?t" using assms(4) by (simp add: calm_def)
  then have "calm ?t s" using loop by (simp add: loop_purged_def)
  ultimately have reg: "registered s" using registered_calm' assms(3) by blast
  have "clean_rel (Some (Attr '''' True (nWatchers n))) (amap s (rev r))" using clean [of "rev r"] at by simp
  then have "\<forall>m. deref r s = Some m \<longrightarrow> IsDir m \<and> nValue m = ''''" by (auto simp: clean_rel_def amap_deref attr_of_def)
  from Clean_emits(1) [OF reg this] obtain chs2 where
    chs2: "wtab (snd (remove_end r s)) = emit chs2 (wtab s)" "clean_changes r s chs2" by blast
  have up: "q \<noteq> r \<and> text_at st (rev q) = Some v" if "text_at ?t (rev q) = Some v" "v \<noteq> ''''" for q v
  proof -
    have "rev q \<noteq> rev r" using that unfolding text_at_def at by auto
    then show ?thesis using that(1) unfolding text_at_def at by auto
  qed
  have dom: "amap ?t p \<noteq> None \<Longrightarrow> amap st p \<noteq> None" for p using at deref_amap [OF n(1)] by (cases "p = rev r") auto
  have "remove_changes r st (chs @ chs2)"
    unfolding remove_changes_def
  proof (intro conjI ballI allI impI)
    fix ch
    assume ch: "ch \<in> set (chs @ chs2)"
    obtain action q v where q: "ch = (action, q, v)" by (cases ch)
    have "action = Delete \<and> within (rev r) (rev q) \<and> amap ?t (rev q) \<noteq> None \<or>
        action = Update \<and> v \<noteq> '''' \<and> within (rev q) (rev r) \<and> text_at ?t (rev q) = Some v"
    proof (cases "ch \<in> set chs")
      case True
      then show ?thesis using chs(2) q unfolding loop_changes_def by blast
    next
      case False
      then have c: "action = Update" "v \<noteq> ''''" "within (rev q) (rev r)" "text_at s (rev q) = Some v"
        using ch chs2(2) q unfolding clean_changes_def by auto
      then show ?thesis using text_at_clean [OF clean [OF c(3)] c(4)] by blast
    qed
    then show "case ch of (action, q, v) \<Rightarrow> action = Delete \<and> within (rev r) (rev q) \<and> amap st (rev q) \<noteq> None \<or>
        action = Update \<and> v \<noteq> '''' \<and> within (rev q) (rev r) \<and> q \<noteq> r \<and> text_at st (rev q) = Some v"
      using up dom q by blast
  next
    fix p a
    assume p: "within (rev r) p \<and> amap st p = Some a \<and> \<not> adir a"
    have "p \<noteq> rev r" using p deref_amap [OF n(1)] n(2) by (auto simp: attr_of_def)
    then obtain x where x: "within (rev r @ [x]) p" using p by (auto elim: within_cases)
    then have "amap st (rev r @ [x]) \<noteq> None" using p flat_within by force
    then have "x \<in> set (keys (kids n))"
      using n(1) by (auto simp: flat_def lookup_path_snoc deref_def dest: map_of_SomeD) (metis fst_conv image_eqI map_of_SomeD)
    moreover have "amap ?t p = amap st p" using at \<open>p \<noteq> rev r\<close> by simp
    ultimately show "\<exists>v. (Delete, rev p, v) \<in> set (chs @ chs2)" using chs(2) x p unfolding loop_changes_def by fastforce
  qed
  then show ?thesis using chs(1) chs2(1) by (intro exI [of _ "chs @ chs2"]) simp
qed

lemma node_Remove_emits:
  assumes "deref r st = Some n" and "node_ok n" and "r = [] \<Longrightarrow> IsDir n" and "registered st" and "root_ok st"
  shows "\<exists>chs. wtab (snd (node_Remove n r st)) = emit chs (wtab st) \<and> remove_changes r st chs"
  using assms
proof (induction n r st rule: node_Remove.induct)
  case (1 nm v cs ws r st)
  let ?n = "Node nm v cs ws"
  show ?case
  proof (cases cs)
    case None
    then have leaf: "\<not> IsDir ?n" by (simp add: IsDir_def)
    then obtain x q where r: "r = x # q" using "1.prems"(3) by (cases r) auto
    show ?thesis
    proof (cases "ws = []")
      case False
      then show ?thesis using None r watched_leaf_emits [OF "1.prems"(4,1) leaf] by simp
    next
      case True
      then show ?thesis using None r leaf_emits [of st x q ?n v] leaf "1.prems"(1,4) by simp
    qed
  next
    case (Some l)
    let ?t = "modify r (set_Value '''') st"
    let ?s = "fold (\<lambda>(k, c) s. snd (node_Remove c (k # r) s)) l ?t"
    have k: "kids ?n = l" and d: "IsDir ?n" using Some by (simp_all add: kids_def IsDir_def)
    have ok: "map_ok l" "\<forall>kc\<in>set l. node_ok (snd kc)" using "1.prems"(2) node_ok_kids [of ?n] k by auto
    have "lookup_path (rev r @ [j]) (tree ?t) = map_of l j" for j
    proof -
      have "lookup_path (rev r @ [j]) (tree ?t) = lookup_path (rev r @ [j]) (tree st)"
        by (rule lookup_set_Value_below) (simp add: prefix_def)
      then show ?thesis using "1.prems"(1) k by (simp add: lookup_path_snoc deref_def)
    qed
    then have lk: "\<forall>(j, c)\<in>set l. lookup_path (rev r @ [j]) (tree ?t) = Some c" using ok(1) by auto
    have pu: "purged (j # r) s (snd (node_Remove c (j # r) s))"
      if "(j, c) \<in> set l" "lookup_path (rev r @ [j]) (tree s) = Some c" for j c s
      using that ok(2) by (intro purged_node_Remove) (auto simp: deref_def)
    have em: "\<exists>chs. wtab (snd (node_Remove c (j # r) s)) = emit chs (wtab s) \<and> remove_changes (j # r) s chs"
      if "(j, c) \<in> set l" "lookup_path (rev r @ [j]) (tree s) = Some c" "registered s" "root_ok s" for j c s
      using "1.IH" [OF Some that(1) refl, of s] that ok(2) by (auto simp: deref_def)
    have ct: "calm st ?t" by (rule calm_set_Value) simp
    have "registered ?t" "root_ok ?t" using registered_calm' [OF ct "1.prems"(4)] ct "1.prems"(5) by (auto simp: calm_def)
    then obtain chs where "wtab ?s = emit chs (wtab ?t)" "loop_changes r (set (keys l)) ?t chs"
      using loop_emits [OF pu em ok(1) lk] by blast
    moreover have "loop_purged r (set (keys l)) ?t ?s" using loop_purged_fold [OF pu ok(1) lk] .
    ultimately show ?thesis using dir_emits [OF "1.prems"(1) d "1.prems"(4,5)] k Some by simp
  qed
qed

text \<open>The channels after \<^verbatim>\<open>Delete\<close> of a path that exists.\<close>

lemma store_Delete_emits:
  assumes "store_ok s" and "\<not> rootNil s" and "amap (nodes s) (path_elems p) \<noteq> None"
  shows "\<exists>chs. wtab (nodes (store_Delete p s)) = emit chs (wtab (nodes s)) \<and> remove_changes (rev (path_elems p)) (nodes s) chs"
proof -
  let ?r = "rev (path_elems p)"
  have nok: "nodes_ok (nodes s)" using assms(1) by (simp add: store_ok_def)
  then have ok: "node_ok (tree (nodes s))" "root_ok (nodes s)" "registered (nodes s)"
    using nodes_ok_registered by (simp_all add: nodes_ok_def)
  obtain n where n: "deref ?r (nodes s) = Some n" using assms(3) by (auto simp: flat_None_iff deref_def)
  have "node_ok n" using node_ok_lookup [OF ok(1)] n by (simp add: deref_def)
  moreover have "IsDir n" if "?r = []" using that n ok(2) by (simp add: deref_def root_ok_def)
  ultimately obtain chs where "wtab (snd (node_Remove n ?r (nodes s))) = emit chs (wtab (nodes s))" "remove_changes ?r (nodes s) chs"
    using node_Remove_emits [OF n _ _ ok(3,2)] by blast
  moreover have "internalGet (path_Clean (path_Join [''/'', p])) s = Some ?r"
    using assms by (simp add: clean_join_root internalGet_abs_path)
  ultimately show ?thesis using n by (auto simp: store_Delete_def Let_def)
qed


end
