(* ===== verification/Sync.thy ===== *)
theory Sync
  imports Http
begin

text \<open>
  \<^verbatim>\<open>StartSync\<close> and \<^verbatim>\<open>StopSync\<close> of \<^verbatim>\<open>metadata/metarepo.go\<close> over the local backend: the goroutines that copy the
  backend's stores into those of the repository, one event at a time, and their end.
\<close>

text \<open>\<^verbatim>\<open>Sync\<close> and \<^verbatim>\<open>SyncMapping\<close> of the local backend up to the first wait of the goroutine they start.\<close>

definition local_Sync :: "localClient \<Rightarrow> store \<Rightarrow> (panic + nat) \<times> localClient \<times> store" where
  "local_Sync c s = (let (res, from1, to1) = sync_init (cData c) s in (res, c\<lparr>cData := from1\<rparr>, to1))"

definition local_SyncMapping :: "localClient \<Rightarrow> store \<Rightarrow> (panic + nat) \<times> localClient \<times> store" where
  "local_SyncMapping c s = (let (res, from1, to1) = sync_init (cMapping c) s in (res, c\<lparr>cMapping := from1\<rparr>, to1))"

text \<open>
  \<^verbatim>\<open>StartSync\<close>: two goroutines register a watcher on the backend's store and copy it, the rules are copied at
  once.  The watchers are those of the data and of the mapping.
\<close>

definition startMetaSync :: "MetadataRepo \<Rightarrow> localClient \<Rightarrow> (panic + nat) \<times> MetadataRepo \<times> localClient" where
  "startMetaSync r c = (let (res, c1, s) = local_Sync c (rData r) in (res, r\<lparr>rData := s\<rparr>, c1))"

definition startMappingSync :: "MetadataRepo \<Rightarrow> localClient \<Rightarrow> (panic + nat) \<times> MetadataRepo \<times> localClient" where
  "startMappingSync r c = (let (res, c1, s) = local_SyncMapping c (rMapping r) in (res, r\<lparr>rMapping := s\<rparr>, c1))"

definition startAccessRuleSync :: "MetadataRepo \<Rightarrow> localClient \<Rightarrow> MetadataRepo \<times> localClient" where
  "startAccessRuleSync r c = (let (c1, acc) = local_SyncAccessRule (c, rAccess r) in (r\<lparr>rAccess := acc\<rparr>, c1))"

definition StartSync :: "MetadataRepo \<Rightarrow> localClient \<Rightarrow> (panic + nat \<times> nat) \<times> MetadataRepo \<times> localClient" where
  "StartSync r c =
     (case startMetaSync r c of
        (Inl p, r1, c1) \<Rightarrow> (Inl p, r1, c1)
      | (Inr w, r1, c1) \<Rightarrow>
          (case startMappingSync r1 c1 of
             (Inl p, r2, c2) \<Rightarrow> (Inl p, r2, c2)
           | (Inr mw, r2, c2) \<Rightarrow> (let (r3, c3) = startAccessRuleSync r2 c2 in (Inr (w, mw), r3, c3))))"

text \<open>One event of the data goroutine, or of the mapping goroutine.\<close>

definition sync_data :: "nat \<Rightarrow> MetadataRepo \<Rightarrow> localClient \<Rightarrow> ((panic + unit) \<times> MetadataRepo \<times> localClient) option" where
  "sync_data w r c =
     map_option (\<lambda>(from1, res, to1). (res, r\<lparr>rData := to1\<rparr>, c\<lparr>cData := from1\<rparr>)) (sync_event w (cData c) (rData r))"

definition sync_mapping :: "nat \<Rightarrow> MetadataRepo \<Rightarrow> localClient \<Rightarrow> ((panic + unit) \<times> MetadataRepo \<times> localClient) option" where
  "sync_mapping w r c =
     map_option (\<lambda>(from1, res, to1). (res, r\<lparr>rMapping := to1\<rparr>, c\<lparr>cMapping := from1\<rparr>)) (sync_event w (cMapping c) (rMapping r))"

text \<open>\<^verbatim>\<open>StopSync\<close>: the three stop signals, received by the three goroutines, and then the end of both stores.\<close>

definition StopSync :: "nat \<times> nat \<Rightarrow> MetadataRepo \<Rightarrow> localClient \<Rightarrow> (panic + unit) \<times> MetadataRepo \<times> localClient" where
  "StopSync chans r c =
     (case sync_stop (fst chans) (cData c) of
        (Inl p, d) \<Rightarrow> (Inl p, r, c\<lparr>cData := d\<rparr>)
      | (Inr _, d) \<Rightarrow>
          (case sync_stop (snd chans) (cMapping c) of
             (Inl p, mp) \<Rightarrow> (Inl p, r, c\<lparr>cData := d, cMapping := mp\<rparr>)
           | (Inr _, mp) \<Rightarrow>
               (let c1 = local_stopAccessRule (c\<lparr>cData := d, cMapping := mp\<rparr>)
                in case store_Destroy (rData r) of
                     (Inl p, rd) \<Rightarrow> (Inl p, r\<lparr>rData := rd\<rparr>, c1)
                   | (Inr _, rd) \<Rightarrow>
                       (let (res, rm) = store_Destroy (rMapping r) in (res, r\<lparr>rData := rd, rMapping := rm\<rparr>, c1)))))"

section \<open>The server over the local backend\<close>

text \<open>
  The access store the local client writes through is the repository's own: \<^verbatim>\<open>SyncAccessRule\<close> hands over the pointer.  The
  client's state is a pair whose second component is that store; after each call it is the repository's.
\<close>

definition share_access :: "(localClient \<times> accessStore) metad \<Rightarrow> (localClient \<times> accessStore) metad" where
  "share_access m = m\<lparr>mRepo := (mRepo m)\<lparr>rAccess := snd (mClient m)\<rparr>\<rparr>"

definition local_manage_serve :: "http_env \<Rightarrow> manage_route \<Rightarrow> manage_method \<Rightarrow> http_request \<Rightarrow> (localClient \<times> accessStore) metad \<Rightarrow>
    (panic + http_reply) \<times> (localClient \<times> accessStore) metad" where
  "local_manage_serve env route meth req m = apsnd share_access (manage_serve env local_storeClient route meth req m)"

text \<open>\<^verbatim>\<open>Init\<close> and \<^verbatim>\<open>Stop\<close> of \<^verbatim>\<open>metad.go\<close>; the routes \<^verbatim>\<open>Init\<close> registers do not depend on the state.\<close>

definition metad_Init :: "(localClient \<times> accessStore) metad \<Rightarrow> (panic + nat \<times> nat) \<times> (localClient \<times> accessStore) metad" where
  "metad_Init m =
     (let (res, r, c) = StartSync (mRepo m) (fst (mClient m)) in (res, m\<lparr>mRepo := r, mClient := (c, rAccess r)\<rparr>))"

definition metad_Stop :: "nat \<times> nat \<Rightarrow> (localClient \<times> accessStore) metad \<Rightarrow> (panic + unit) \<times> (localClient \<times> accessStore) metad" where
  "metad_Stop chans m =
     (let (res, r, c) = StopSync chans (mRepo m) (fst (mClient m)) in (res, m\<lparr>mRepo := r, mClient := (c, snd (mClient m))\<rparr>))"


end
