(* ===== verification/Util_Props.thy ===== *)
theory Util_Props
  imports Flatmap_Props
begin

text \<open>Adding a path prefix and taking it off again, on canonical paths.\<close>

section \<open>Blank strings\<close>

lemma trim_left_keeps:
  assumes "\<forall>r\<in>set rs. c \<notin> set r" and "c \<in> set s"
  shows "c \<in> set (trim_left_n rs n s)"
  using assms(2)
proof (induction n arbitrary: s)
  case (Suc n)
  show ?case
  proof (cases "filter (strings_HasPrefix s) rs")
    case Nil
    then show ?thesis using Suc.prems by simp
  next
    case (Cons r ys)
    then have "r \<in> set (filter (strings_HasPrefix s) rs)" by simp
    then have r: "r \<in> set rs" "take (length r) s = r" by (auto simp: strings_HasPrefix_def)
    have "c \<notin> set (take (length r) s)" using assms(1) r by simp
    moreover have "set s = set (take (length r) s) \<union> set (drop (length r) s)"
      by (metis append_take_drop_id set_append)
    ultimately have "c \<in> set (drop (length r) s)" using Suc.prems by blast
    then show ?thesis using Suc.IH Cons by simp
  qed
qed simp

lemma slash_not_space: "\<forall>r\<in>set space_runes. CHR ''/'' \<notin> set r"
proof -
  have "list_all (\<lambda>r. \<not> List.member r (CHR ''/'')) space_runes" by code_simp
  then show ?thesis by (auto simp: list_all_iff)
qed

text \<open>A string with a slash is not blank.\<close>

lemma TrimSpace_slash: "CHR ''/'' \<in> set s \<Longrightarrow> strings_TrimSpace s \<noteq> ''''"
proof -
  assume "CHR ''/'' \<in> set s"
  then have "CHR ''/'' \<in> set (trim_left_n space_runes (length s) s)"
    using trim_left_keeps [OF slash_not_space] by blast
  then have "CHR ''/'' \<in> set (rev (trim_left_n space_runes (length s) s))" by simp
  moreover have "\<forall>r\<in>set (map rev space_runes). CHR ''/'' \<notin> set r" using slash_not_space by auto
  ultimately have "CHR ''/'' \<in> set (trim_left_n (map rev space_runes) (length (trim_left_n space_runes (length s) s))
      (rev (trim_left_n space_runes (length s) s)))"
    by (intro trim_left_keeps)
  then show ?thesis unfolding strings_TrimSpace_def Let_def by (metis empty_iff list.set(1) set_rev)
qed

section \<open>Prefixes\<close>

lemma AppendPathPrefix_canon:
  assumes "\<forall>e\<in>set qs. canon e"
  shows "AppendPathPrefix (abs_path qs) p = abs_path (path_elems p @ qs)"
proof -
  let ?a = "strings_Join (path_elems p)"
  have "strings_TrimSpace (abs_path qs) \<noteq> ''''" by (rule TrimSpace_slash) (simp add: abs_path_def)
  moreover have "path_elems (?a @ CHR ''/'' # abs_path qs) = path_elems p @ qs"
    using path_elems_append_canon [OF assms, of "?a @ ''/''"] path_elems_append_slash [of ?a "[]"] path_elems_Join [of "path_elems p"]
    by (simp add: abs_path_def)
  moreover have "\<forall>e\<in>set (path_elems p @ qs). canon e" using assms by auto
  ultimately show ?thesis
    by (simp add: AppendPathPrefix_def path_Join_root path_Join_abs path_Clean_abs_path)
qed

lemma HasPrefix_append: "strings_HasPrefix (p @ s) p"
  by (simp add: strings_HasPrefix_def)

lemma HasPrefix_prefix: "strings_HasPrefix s p \<longleftrightarrow> prefix p s"
  by (metis HasPrefix_append append_take_drop_id prefix_def strings_HasPrefix_def)

text \<open>One canonical path with a slash is a prefix of another as a string exactly when its elements are.\<close>

lemma abs_path_append: "es \<noteq> [] \<Longrightarrow> fs \<noteq> [] \<Longrightarrow> abs_path (es @ fs) = abs_path es @ CHR ''/'' # strings_Join fs"
  by (simp add: abs_path_def strings_Join_append)

lemma HasPrefix_dir:
  assumes "es \<noteq> []" and "\<forall>e\<in>set es. seg e" and "\<forall>e\<in>set qs. seg e"
  shows "strings_HasPrefix (abs_path qs) (abs_path es @ ''/'') \<longleftrightarrow> strict_prefix es qs"
proof
  assume h: "strings_HasPrefix (abs_path qs) (abs_path es @ ''/'')"
  then obtain t where t: "abs_path qs = abs_path es @ CHR ''/'' # t" by (auto simp: HasPrefix_prefix prefix_def)
  have q: "qs = es @ segs t"
    using segs_abs_path [OF assms(3)] segs_append_slash [of "abs_path es" t] segs_abs_path [OF assms(2)] t by simp
  moreover have "segs t \<noteq> []"
  proof
    assume "segs t = []"
    with q have "qs = es" by simp
    with t show False by simp
  qed
  ultimately show "strict_prefix es qs" by (simp add: strict_prefix_def)
next
  assume "strict_prefix es qs"
  then obtain fs where "qs = es @ fs" "fs \<noteq> []" by (auto simp: strict_prefix_def prefix_def)
  then show "strings_HasPrefix (abs_path qs) (abs_path es @ ''/'')"
    using abs_path_append [OF assms(1)] by (simp add: HasPrefix_prefix)
qed

lemma last_abs_path: "\<forall>e\<in>set es. seg e \<Longrightarrow> es \<noteq> [] \<Longrightarrow> last (abs_path es) \<noteq> CHR ''/''"
proof -
  assume es: "\<forall>e\<in>set es. seg e" "es \<noteq> []"
  then obtain ds n where n: "es = ds @ [n]" by (metis append_butlast_last_id)
  have "seg n" using es n by simp
  then have "last n \<noteq> CHR ''/''" "n \<noteq> []" using last_in_set by (force simp: seg_def)+
  then show ?thesis
    using n by (cases "ds = []") (simp_all add: abs_path_def strings_Join_append)
qed

lemma TrimPathPrefix_canon:
  assumes "\<forall>e\<in>set qs. canon e"
  shows "TrimPathPrefix (abs_path (path_elems p @ qs)) p = abs_path qs"
proof (cases "path_elems p = []")
  case True
  then show ?thesis by (simp add: TrimPathPrefix_def path_Join_root)
next
  case False
  let ?es = "path_elems p"
  have c: "\<forall>e\<in>set (?es @ qs). canon e" using assms by auto
  have n: "abs_path ?es \<noteq> ''/''" using abs_path_eq_root [of ?es] False by auto
  show ?thesis
  proof (cases "qs = []")
    case True
    then show ?thesis using n by (simp add: TrimPathPrefix_def path_Join_root)
  next
    case q: False
    have e: "abs_path ?es \<noteq> abs_path (?es @ qs)" using abs_path_inj [OF _ c, of ?es] q by auto
    have l: "last (abs_path ?es) \<noteq> CHR ''/''" using last_abs_path [of ?es] False by auto
    have "strings_TrimPrefix (abs_path (?es @ qs)) (abs_path ?es @ ''/'') = strings_Join qs"
      using abs_path_append [OF False q] by (simp add: strings_TrimPrefix_def strings_HasPrefix_def)
    then show ?thesis
      using n e l c assms
      by (simp add: TrimPathPrefix_def path_Join_root Let_def path_elems_Join path_Clean_abs_path)
  qed
qed

text \<open>A path that is not below the prefix is left alone.\<close>

lemma TrimPathPrefix_other:
  assumes "\<forall>e\<in>set qs. canon e" and "\<not> prefix (path_elems p) qs"
  shows "TrimPathPrefix (abs_path qs) p = abs_path qs"
proof -
  let ?es = "path_elems p"
  have ne: "?es \<noteq> []" using assms(2) by auto
  have n: "abs_path ?es \<noteq> ''/''" using abs_path_eq_root [of ?es] ne by auto
  have e: "abs_path ?es \<noteq> abs_path qs" using abs_path_inj [of ?es qs] assms by auto
  have l: "last (abs_path ?es) \<noteq> CHR ''/''" using last_abs_path [of ?es] ne by auto
  have "\<not> strings_HasPrefix (abs_path qs) (abs_path ?es @ ''/'')"
    using HasPrefix_dir [OF ne, of qs] assms by (auto simp: strict_prefix_def)
  then show ?thesis
    using n e l assms by (simp add: TrimPathPrefix_def path_Join_root Let_def strings_TrimPrefix_def path_Clean_abs_path)
qed

section \<open>Claim\<close>

text \<open>\<^verbatim>\<open>TrimPathPrefix\<close> undoes \<^verbatim>\<open>AppendPathPrefix\<close> on canonical paths, for every prefix, and the trimmed path is
  different from the path it started from unless the prefix is the root.\<close>

theorem TrimPathPrefix_AppendPathPrefix:
  assumes "\<forall>e\<in>set qs. canon e"
  shows "TrimPathPrefix (AppendPathPrefix (abs_path qs) p) p = abs_path qs
    \<and> (AppendPathPrefix (abs_path qs) p = abs_path qs \<longleftrightarrow> path_elems p = [])"
proof -
  have "\<forall>e\<in>set (path_elems p @ qs). canon e" using assms by auto
  from abs_path_inj [OF this assms] show ?thesis
    by (simp add: AppendPathPrefix_canon [OF assms] TrimPathPrefix_canon [OF assms])
qed

theorem TrimPathPrefix_AppendPathPrefix_witness:
  "TrimPathPrefix (AppendPathPrefix (abs_path [''nodes'', ''1'']) ''/metad'') ''/metad'' = ''/nodes/1''"
  using TrimPathPrefix_AppendPathPrefix [of "[''nodes'', ''1'']" "''/metad''"]
  by (simp add: canon_def seg_def abs_path_def)

end
