(* ===== verification/Sync_Props.thy ===== *)
theory Sync_Props
  imports Sync Http_Props Util_Props
begin

text \<open>
  The repository over the local backend: after the start it serves what the backend holds, a write through the manage
  port reaches the readers with one event, and the end of the synchronisation leaves closed watchers behind.
\<close>

section \<open>Putting a whole tree\<close>

text \<open>Puts at paths of which none lies above another, into an empty tree: a string at exactly these paths.\<close>

definition fresh :: "amap \<Rightarrow> bool" where
  "fresh D \<longleftrightarrow> (\<forall>x. D x \<noteq> None \<longrightarrow> x = []) \<and> leaf D [] = None \<and> (\<forall>a. D [] = Some a \<longrightarrow> aval a = '''')"

text \<open>No directory has a text of its own, so that the strings of the tree are all its texts.\<close>

definition blank :: "amap \<Rightarrow> bool" where
  "blank D \<longleftrightarrow> (\<forall>q a. D q = Some a \<and> adir a \<longrightarrow> aval a = '''')"

lemma blank_texts:
  assumes "blank D"
  shows "texts_of D q = (case leaf D q of None \<Rightarrow> '''' | Some v \<Rightarrow> v)"
  using assms by (fastforce simp: blank_def texts_of_def leaf_def split: option.splits attr.splits bool.splits)

definition apart :: "string list list \<Rightarrow> bool" where
  "apart ps \<longleftrightarrow> [] \<notin> set ps \<and> distinct ps \<and> (\<forall>p\<in>set ps. \<forall>q\<in>set ps. within p q \<longrightarrow> p = q)"

lemma apart_butlast: "apart (ps @ [p]) \<Longrightarrow> apart ps"
  by (auto simp: apart_def)

lemma put_abs_other: "\<not> within x p \<Longrightarrow> put_abs p v D x = D x"
  by (auto simp: put_abs_def)

lemma leaf_put_tree:
  assumes "fresh D" and "apart (map fst pvs)"
  shows "leaf (fold (\<lambda>(p, v). put_abs p v) pvs D) x = map_of pvs x \<and>
    (fold (\<lambda>(p, v). put_abs p v) pvs D x \<noteq> None \<longrightarrow> x = [] \<or> (\<exists>p\<in>set (map fst pvs). within x p))"
  using assms(2)
proof (induction pvs arbitrary: x rule: rev_induct)
  case Nil
  then show ?case using assms(1) by (cases "x = []") (auto simp: fresh_def leaf_def split: option.splits)
next
  case (snoc pv pvs)
  obtain p v where pv: "pv = (p, v)" by (cases pv)
  let ?D = "fold (\<lambda>(p, v). put_abs p v) pvs D"
  have ap: "apart (map fst pvs)" using snoc.prems apart_butlast [of "map fst pvs" p] pv by simp
  have p: "p \<noteq> []" "p \<notin> set (map fst pvs)" "\<And>q. q \<in> set (map fst pvs) \<Longrightarrow> \<not> within p q \<and> \<not> within q p"
    using snoc.prems pv by (auto simp: apart_def)
  note IH = snoc.IH [OF ap]
  have none: "?D p = None" using IH [of p] p by blast
  have np: "map_of pvs p = None" using p(2) by (metis map_of_eq_None_iff image_set)
  consider "x = p" | "x \<noteq> p" "within x p" | "x \<noteq> p" "\<not> within x p" by blast
  then have "leaf (put_abs p v ?D) x = map_of (pvs @ [(p, v)]) x"
  proof cases
    case 1
    then show ?thesis using none np by (simp add: leaf_put_abs map_add_def)
  next
    case 2
    then have "x \<notin> set (map fst pvs)" using p(3) by blast
    then have "map_of pvs x = None" by (metis map_of_eq_None_iff image_set)
    then show ?thesis using 2 by (simp add: leaf_put_abs map_add_def)
  next
    case 3
    then have "leaf (put_abs p v ?D) x = leaf ?D x" by (simp add: leaf_put_abs)
    also have "\<dots> = map_of pvs x" using IH by blast
    finally show ?thesis using 3(1) by (simp add: map_add_def split: option.splits)
  qed
  moreover have "put_abs p v ?D x \<noteq> None \<longrightarrow> x = [] \<or> (\<exists>q\<in>set (map fst (pvs @ [pv])). within x q)"
    using IH [of x] pv put_abs_other [of x p v ?D] by auto
  ultimately show ?case by (simp add: pv)
qed

lemma blank_put_tree:
  assumes "fresh D" and "apart (map fst pvs)"
  shows "blank (fold (\<lambda>(p, v). put_abs p v) pvs D)"
  using assms(2)
proof (induction pvs rule: rev_induct)
  case Nil
  then show ?case using assms(1) by (force simp: fresh_def blank_def)
next
  case (snoc pv pvs)
  obtain p v where pv: "pv = (p, v)" by (cases pv)
  let ?D = "fold (\<lambda>(p, v). put_abs p v) pvs D"
  have ap: "apart (map fst pvs)" using snoc.prems apart_butlast [of "map fst pvs" p] pv by simp
  have p: "p \<noteq> []" "\<And>q. q \<in> set (map fst pvs) \<Longrightarrow> \<not> within p q \<and> \<not> within q p"
    using snoc.prems pv by (auto simp: apart_def)
  note tree = leaf_put_tree [OF assms(1) ap]
  have none: "?D p = None" using tree [of p] p by blast
  have "aval a = ''''" if x: "put_abs p v ?D x = Some a" "adir a" for x a
  proof (cases "?D x")
    case None
    then show ?thesis using x by (auto simp: put_abs_def [of p v ?D] none split: if_splits)
  next
    case (Some b)
    have "adir b" if "within x p"
    proof (rule ccontr)
      assume "\<not> adir b"
      then have "leaf ?D x \<noteq> None" using Some by (auto simp: leaf_def split: attr.splits bool.splits)
      then have "map_of pvs x \<noteq> None" using tree [of x] by metis
      then have "x \<in> set (map fst pvs)" by (metis map_of_eq_None_iff image_set)
      then show False using p(2) that by blast
    qed
    moreover have "adir b \<longrightarrow> aval b = ''''" using snoc.IH [OF ap] Some unfolding blank_def by blast
    ultimately show ?thesis using x Some by (auto simp: put_abs_def [of p v ?D] none as_dir_def split: if_splits)
  qed
  then have "blank (put_abs p v ?D)" unfolding blank_def by blast
  then show ?case by (simp add: pv)
qed

lemma flat_at_text_tree: "text_tree v \<Longrightarrow> flat_at q v = val_leaf q v"
proof (induction q arbitrary: v)
  case Nil
  then show ?case by (cases v) auto
next
  case (Cons k q)
  show ?case
  proof (cases v)
    case (VMap m)
    have "flat_at q w = val_leaf q w" if "map_of m k = Some w" for w
    proof -
      have "(k, w) \<in> set m" using that by (rule map_of_SomeD)
      then show ?thesis using Cons VMap by force
    qed
    then show ?thesis using VMap by (auto split: option.splits bind_splits)
  qed (use Cons.prems in auto)
qed

lemma val_leaf_keys: "keys_ok v \<Longrightarrow> val_leaf q v \<noteq> None \<Longrightarrow> \<forall>e\<in>set q. canon e"
proof (induction q v rule: val_leaf.induct)
  case (2 k ks m)
  then obtain w where w: "map_of m k = Some w" by (auto split: option.splits)
  then have "(k, w) \<in> set m" by (rule map_of_SomeD)
  then have "canon k" "keys_ok w" using "2.prems"(1) by auto
  then show ?case using "2.IH" [OF w] "2.prems"(2) w by simp
qed auto

text \<open>The texts of a flattened tree, by the elements of their paths.\<close>

lemma Flatten_paths:
  assumes k: "keys_ok (VMap m)" and t: "text_tree (VMap m)"
  defines "fm \<equiv> Flatten_entries m" and "pvs \<equiv> map (\<lambda>(k, v). (path_elems k, v)) (Flatten_entries m)"
  shows "apart (map fst pvs)" and "map_of pvs x = val_leaf x (VMap m)"
    and "put_all ''/'' fm D = fold (\<lambda>(p, v). put_abs p v) pvs D"
    and "\<forall>kv\<in>set fm. strings_TrimSpace (fst kv) \<noteq> ''''"
proof -
  have pk: "path_keys fm" using path_keys_Flatten [OF k] by (simp add: fm_def)
  have key: "\<exists>q. q \<noteq> [] \<and> (\<forall>e\<in>set q. canon e) \<and> y = abs_path q \<and> path_elems y = q" if "y \<in> set (keys fm)" for y
    using pre_keys_abs [OF pk that] by auto
  have fst: "map fst pvs = map path_elems (keys fm)" by (simp add: pvs_def fm_def case_prod_unfold)
  have inj: "inj_on path_elems (insert (abs_path q) (set (keys fm)))" if "\<forall>e\<in>set q. canon e" for q
  proof (rule inj_onI)
    fix y z
    assume "y \<in> insert (abs_path q) (set (keys fm))" "z \<in> insert (abs_path q) (set (keys fm))" "path_elems y = path_elems z"
    then show "y = z" using key that by (metis insertE path_elems_abs_path)
  qed
  have dist: "distinct (keys fm)" using pk by (simp add: path_keys_def)
  have free: "p = q" if pq: "p \<in> set (map fst pvs)" "q \<in> set (map fst pvs)" "within p q" for p q
  proof -
    obtain y z where y: "y \<in> set (keys fm)" "p = path_elems y" and z: "z \<in> set (keys fm)" "q = path_elems z"
      using pq(1,2) unfolding fst by auto
    have p: "p \<noteq> []" "y = abs_path p" "\<forall>e\<in>set p. canon e" and q: "q \<noteq> []" "z = abs_path q" "\<forall>e\<in>set q. canon e"
      using key [OF y(1)] key [OF z(1)] y(2) z(2) by auto
    have "map_of fm (pre p) \<noteq> None" "map_of fm (pre q) \<noteq> None" "\<forall>e\<in>set q. seg e"
      using y(1) z(1) p q pre_abs_path canon_seg by (auto simp: map_of_eq_None_iff)
    then show ?thesis using prefix_free_Flatten [OF k] pq(3) unfolding prefix_free_def fm_def by blast
  qed
  have "inj_on path_elems (set (keys fm))" using inj [of "[]"] by (auto intro: inj_on_subset)
  then have "distinct (map fst pvs)" unfolding fst using dist by (simp only: distinct_map)
  moreover have "[] \<notin> set (map fst pvs)"
  proof
    assume "[] \<in> set (map fst pvs)"
    then obtain y where "y \<in> set (keys fm)" "path_elems y = []" unfolding fst set_map by (metis imageE)
    then show False using key by blast
  qed
  ultimately show "apart (map fst pvs)" unfolding apart_def using free by blast
  show "map_of pvs x = val_leaf x (VMap m)"
  proof (cases "x \<noteq> [] \<and> (\<forall>e\<in>set x. canon e)")
    case True
    then have "map_of pvs (path_elems (abs_path x)) = map_of fm (abs_path x)"
      unfolding pvs_def fm_def [symmetric] using map_of_map_key [OF inj] by blast
    also have "\<dots> = flat_at x (VMap m)" unfolding fm_def using Flatten_at [OF k] True canon_seg by blast
    finally show ?thesis using True flat_at_text_tree [OF t] by simp
  next
    case False
    then have "x \<notin> path_elems ` set (keys fm)" using key by blast
    then have "map_of pvs x = None" unfolding pvs_def fm_def [symmetric] by (rule map_of_map_key_None)
    moreover have "val_leaf x (VMap m) = None"
    proof (rule ccontr)
      assume n: "val_leaf x (VMap m) \<noteq> None"
      then have "x \<noteq> []" by auto
      then show False using val_leaf_keys [OF k n] False by blast
    qed
    ultimately show ?thesis by simp
  qed
  have be: "bulk_elems ''/'' y = path_elems y \<and> path_elems y \<noteq> [] \<and> strings_TrimSpace y \<noteq> ''''" if y: "y \<in> set (keys fm)" for y
  proof -
    obtain q where q: "q \<noteq> []" "\<forall>e\<in>set q. canon e" "y = abs_path q" using key [OF y] by blast
    have tr: "strings_TrimSpace y \<noteq> ''''" by (rule TrimSpace_slash) (simp add: q abs_path_def)
    have "abs_path (bulk_elems ''/'' y) = abs_path (path_elems ''/'' @ q)"
      using AppendPathPrefix_abs [OF tr, of "''/''"] AppendPathPrefix_canon [OF q(2), of "''/''"] q(3) by simp
    then have "bulk_elems ''/'' y = q" using abs_path_inj [OF bulk_elems_canon q(2)] by simp
    then show ?thesis using q tr by simp
  qed
  then show "\<forall>kv\<in>set fm. strings_TrimSpace (fst kv) \<noteq> ''''" by force
  have "fold (\<lambda>(k, v) D. if bulk_elems ''/'' k = [] then D else put_abs (bulk_elems ''/'' k) v D) xs D =
      fold (\<lambda>(p, v). put_abs p v) (map (\<lambda>(k, v). (path_elems k, v)) xs) D" if "set xs \<subseteq> set fm" for xs D
    using that
  proof (induction xs arbitrary: D)
    case (Cons kv xs)
    then have "fst kv \<in> set (keys fm)" by auto
    with Cons be [of "fst kv"] show ?case by (cases kv) auto
  qed simp
  from this [of fm D] show "put_all ''/'' fm D = fold (\<lambda>(p, v). put_abs p v) pvs D" by (simp add: put_all_def pvs_def fm_def)
qed

section \<open>The start of the synchronisation\<close>

lemma live_root: "live s \<Longrightarrow> amap (nodes s) [] \<noteq> None \<and> leaf (amap (nodes s)) [] = None"
  by (simp add: store_ok_def nodes_ok_def root_ok_def flat_def leaf_def attr_of_def)

lemma live_root_value:
  assumes "live s"
  obtains m where "snd (store_Get ''/'' s) = VMap m" and "text_tree (VMap m)"
proof -
  have n: "node_ok (tree (nodes s))" "IsDir (tree (nodes s))"
    using assms by (simp_all add: store_ok_def nodes_ok_def root_ok_def)
  have g: "snd (store_Get ''/'' s) = GetValue (tree (nodes s))" using assms by (simp add: store_Get_value)
  obtain m where "GetValue (tree (nodes s)) = VMap m"
    using n(2) by (cases "tree (nodes s)") (auto simp: IsDir_def split: option.splits)
  with that g text_tree_GetValue [OF n(1)] show thesis by simp
qed

text \<open>Putting a tree of texts at the root of a store without any.\<close>

lemma store_Put_tree:
  assumes "live s" and "fresh (amap (nodes s))" and "keys_ok (VMap m)" and "text_tree (VMap m)"
  obtains s' where "store_Put ''/'' (VMap m) s = (Inr (), s')" and "live s'"
    and "\<And>q. leaf (amap (nodes s')) q = val_leaf q (VMap m)" and "blank (amap (nodes s'))"
proof -
  note F = Flatten_paths [OF assms(3,4)]
  have c: "path_Clean (path_Join [''/'', ''/'']) = ''/''" by code_simp
  obtain st' where st': "internalPutBulk ''/'' (Flatten_entries m) s =
      (Inr (), s\<lparr>version := version s + of_nat (length (Flatten_entries m)), nodes := st'\<rparr>)"
    "amap st' = put_all ''/'' (Flatten_entries m) (amap (nodes s))"
    using internalPutBulk_put_all [OF _ F(4), of s "''/''"] assms(1) by blast
  let ?s = "s\<lparr>version := version s + of_nat (length (Flatten_entries m)), nodes := st'\<rparr>"
  have put: "store_Put ''/'' (VMap m) s = (Inr (), ?s)"
    using st'(1) by (simp add: store_Put_def c Flatten_def)
  moreover have "live ?s" using store_ok_store_Put [of s "''/''" "VMap m"] assms(1) put by simp
  moreover have "leaf (amap (nodes ?s)) q = val_leaf q (VMap m)" for q
    using leaf_put_tree [OF assms(2) F(1), of q] F(2) [of q] F(3) st'(2) by simp
  moreover have "blank (amap (nodes ?s))" using blank_put_tree [OF assms(2) F(1)] F(3) st'(2) by simp
  ultimately show thesis using that by blast
qed

lemma sync_init_starts:
  assumes "live from0" and "live to0" and "fresh (amap (nodes to0))" and "keys_ok (snd (store_Get ''/'' from0))"
  obtains from1 to1 where "sync_init from0 to0 = (Inr (length (wtab (nodes from0))), from1, to1)"
    and "live from1" and "live to1" and "wtab (nodes from1) ! length (wtab (nodes from0)) = newWatcher [] 5000"
    and "length (wtab (nodes from1)) = Suc (length (wtab (nodes from0)))"
    and "leaf (amap (nodes from1)) = leaf (amap (nodes from0))" and "leaf (amap (nodes to1)) = leaf (amap (nodes from0))"
    and "blank (amap (nodes to1))"
proof -
  let ?i = "length (wtab (nodes from0))"
  let ?d = "from0\<lparr>nodes := snd (node_Watch [] 5000 (nodes from0))\<rparr>"
  have d: "store_Watch ''/'' 5000 from0 = (Inr ?i, ?d)" using assms(1) by (simp add: store_Watch_def node_Watch_def Let_def)
  have ld: "live ?d" using store_ok_store_Watch [of from0 "''/''" 5000] assms(1) d by simp
  have w: "wtab (nodes ?d) = wtab (nodes from0) @ [newWatcher [] 5000]" by (simp add: node_Watch_def Let_def)
  have gv: "GetValue (tree (nodes ?d)) = GetValue (tree (nodes from0))"
    by (cases "tree (nodes from0)") (simp add: node_Watch_def Let_def set_Watchers_def)
  then have get: "snd (store_Get ''/'' ?d) = snd (store_Get ''/'' from0)" using ld assms(1) by (simp add: store_Get_value)
  obtain m where m: "snd (store_Get ''/'' from0) = VMap m" "text_tree (VMap m)" using live_root_value [OF assms(1)] .
  have leaf: "leaf (amap (nodes from0)) q = val_leaf q (VMap m)" "leaf (amap (nodes ?d)) q = val_leaf q (VMap m)" for q
    using store_Get_leaves [of from0 q "''/''"] store_Get_leaves [of ?d q "''/''"] ld assms(1) m(1) get by simp_all
  obtain to1 where to1: "store_Put ''/'' (VMap m) to0 = (Inr (), to1)" "live to1"
    "\<And>q. leaf (amap (nodes to1)) q = val_leaf q (VMap m)" "blank (amap (nodes to1))"
    using store_Put_tree [OF assms(2,3) _ m(2)] assms(4) m(1) by auto
  show thesis
  proof (rule that [OF _ ld to1(2)])
    show "sync_init from0 to0 = (Inr ?i, ?d, to1)" using d get m(1) to1(1) by (simp add: sync_init_def)
  qed (use w leaf to1(3,4) in auto)
qed

lemma fresh_new: "fresh (amap (nodes newStore))"
proof -
  have *: "amap (nodes newStore) x \<noteq> None \<longrightarrow> x = []" for x
    by (cases x) (simp_all add: newStore_def flat_def lookup_path_Cons kids_def)
  have "leaf (amap (nodes newStore)) [] = None" "map_option aval (amap (nodes newStore) []) = Some ''''" by code_simp+
  with * show ?thesis unfolding fresh_def by (intro conjI allI) auto
qed

lemma leaves_get:
  assumes "live s" and "live s'" and "leaf (amap (nodes s)) = leaf (amap (nodes s'))"
  shows "val_leaf q (snd (store_Get p s)) = val_leaf q (snd (store_Get p s'))"
  using assms by (simp add: store_Get_leaves)


text \<open>A backend with one datum and one mapping.\<close>

definition sample_backend :: localClient where
  "sample_backend =
     snd (local_PutMapping ''/10.0.0.2/n'' (VStr ''/a'') False (snd (local_Put ''/a/b'' (VStr ''1'') False NewLocalClient)))"

lemma client_ok_sample: "client_ok sample_backend"
  using lm.ok_put [OF ld.ok_put [OF client_ok_new]] by (simp add: sample_backend_def)


section \<open>From a write to the readers\<close>

text \<open>The goroutine waits at an empty channel, at the root of the backend's store.\<close>

definition waiting :: "nat \<Rightarrow> store \<Rightarrow> bool" where
  "waiting w s \<longleftrightarrow> w < length (wtab (nodes s)) \<and> \<not> closed (wtab (nodes s) ! w) \<and> wnode (wtab (nodes s) ! w) = [] \<and>
     eventChan (wtab (nodes s) ! w) = [] \<and> 0 < bufLen (wtab (nodes s) ! w)"

lemma sync_event_put:
  assumes "live s" and "path_elems p = ds @ [n]" and "no_leaf_upto (amap (nodes s)) ds"
    and "put_is_news (amap (nodes s)) (path_elems p) v" and "waiting w s"
  shows "\<exists>s'. sync_event w (snd (store_Put p (VStr v) s)) to0 = Some (s', store_Put p (VStr v) to0)"
proof -
  let ?w = "wtab (nodes s) ! w" and ?e = "newEvent Update (abs_path (path_elems p)) v"
  let ?t = "wtab (nodes (snd (store_Put p (VStr v) s)))"
  have t: "?t = map (\<lambda>w. if put_is_news (amap (nodes s)) (path_elems p) v \<and> \<not> closed w \<and> within (rev (wnode w)) (path_elems p)
             then chan_send (newEvent Update (abs_path (drop (length (wnode w)) (path_elems p))) v) w
             else w) (wtab (nodes s))"
    using wtab_store_Put [OF _ _ assms(2,3), of v] assms(1) by (simp add: store_ok_def)
  have "w < length ?t" "?t ! w = chan_send ?e ?w" using assms(4,5) t by (simp_all add: waiting_def)
  moreover from this(2) have "chan_recv (?t ! w) = Some (?e, ?w)"
    using assms(5) by (simp add: waiting_def chan_send_def chan_recv_def)
  ultimately show ?thesis by (simp add: sync_event_def watcher_recv_def processEvent_Update)
qed

lemma put_then_get:
  assumes "live s" and "path_elems p \<noteq> []" and "childless (amap (nodes s)) (path_elems p)"
  shows "\<exists>s'. store_Put p (VStr v) s = (Inr (), s') \<and> snd (store_Get p s') = VStr v"
proof -
  obtain s' where s': "store_Put p (VStr v) s = (Inr (), s')" "amap (nodes s') = put_abs (path_elems p) v (amap (nodes s))"
    "rootNil s' = rootNil s"
    using store_Put_string [of s p v] assms by fastforce
  have "live s'" using store_ok_store_Put [of s p "VStr v"] assms(1) s'(1,3) by simp
  then have "val_leaf [] (snd (store_Get p s')) = Some v" using s'(2) assms(3) by (simp add: store_Get_leaves leaf_put_abs)
  then have "snd (store_Get p s') = VStr v" by (cases "snd (store_Get p s')") auto
  with s'(1) show ?thesis by blast
qed

lemma manage_serve_by:
  assumes "manage_handler env ops route meth (req\<lparr>rqMethod := method_name meth\<rparr>) (snd (generateRequestID m)) = (Inr res, m1)"
  shows "\<exists>reply. manage_serve env ops route meth req m = (Inr reply, m1) \<and>
    ryResponse reply = respond env (req\<lparr>rqMethod := method_name meth\<rparr>) res"
  using assms by (simp add: manage_serve_def manageWrapper_def case_prod_unfold make_reply_def)

text \<open>C4: A write through the manage port reaches its readers.  A \<^verbatim>\<open>PUT\<close> of a JSON string that is news to the backend, at a
  path that lies below no string there and that has no children in the repository, is accepted; and as soon as the data
  goroutine has processed the one event it caused, a \<^verbatim>\<open>GET\<close> of that path through the manage port answers with the string.\<close>

theorem manage_put_visible:
  assumes "repo_ok (mRepo m)" and "client_ok c" and "mClient m = (c, acc)"
    and "Decode env (rqBody req) = Inr (VStr v)" and "path_elems (node_path req) = ds @ [n]"
    and "no_leaf_upto (amap (nodes (cData c))) ds" and "put_is_news (amap (nodes (cData c))) (path_elems (node_path req)) v"
    and "waiting w (cData c)"
    and "childless (amap (nodes (rData (mRepo m)))) (path_elems (node_path req))"
  shows "\<exists>reply m1 c1 r2 c2. manage_serve env local_storeClient DataRoute PUT req m = (Inr reply, m1) \<and>
    ryResponse reply = respondSuccessDefault env (req\<lparr>rqMethod := ''PUT''\<rparr>) \<and> mClient m1 = (c1, acc) \<and>
    sync_data w (mRepo m1) c1 = Some (Inr (), r2, c2) \<and>
    (\<exists>reply2 m3. manage_serve env local_storeClient DataRoute GET req (m1\<lparr>mRepo := r2, mClient := (c2, acc)\<rparr>) = (Inr reply2, m3) \<and>
       ryResponse reply2 = fst (respondSuccess env (req\<lparr>rqMethod := ''GET''\<rparr>) (RVal (VStr v))))"
proof -
  let ?p = "node_path req" and ?d = "cData c" and ?rd = "rData (mRepo m)"
  have live: "live ?d" "live ?rd" using assms(1,2) by (simp_all add: client_ok_def repo_ok_def)
  have ne: "path_elems ?p \<noteq> []" using assms(5) by simp
  have np: "node_path (req\<lparr>rqMethod := x\<rparr>) = ?p" for x by (simp add: node_path_def)
  obtain d2 where d2: "store_Put ?p (VStr v) ?d = (Inr (), d2)"
    using store_Put_string [of ?d ?p v] live(1) ne by blast
  obtain rd2 where rd2: "store_Put ?p (VStr v) ?rd = (Inr (), rd2)" "snd (store_Get ?p rd2) = VStr v"
    using put_then_get [OF live(2) ne assms(9)] by blast
  let ?c1 = "c\<lparr>cData := d2\<rparr>" and ?m1 = "snd (generateRequestID m)" and ?r2 = "(mRepo m)\<lparr>rData := rd2\<rparr>"
  note m1 = generateRequestID_keeps [of m]
  have "local_Put ?p (VStr v) False c = (Inr (), ?c1)" by (simp add: local_Put_def d2)
  then have u: "manage_handler env local_storeClient DataRoute PUT (req\<lparr>rqMethod := ''PUT''\<rparr>) ?m1 =
      (Inr (RNil, None), ?m1\<lparr>mClient := (?c1, acc)\<rparr>)"
    using assms(3,4) m1(2)
    by (simp add: manage_handler_def dataUpdate_def np is_replace_def ascii_upper_def PutData_def local_storeClient_def finish_call_def)
  obtain reply where reply: "manage_serve env local_storeClient DataRoute PUT req m = (Inr reply, ?m1\<lparr>mClient := (?c1, acc)\<rparr>)"
    "ryResponse reply = respondSuccessDefault env (req\<lparr>rqMethod := ''PUT''\<rparr>)"
    using manage_serve_by [of env local_storeClient DataRoute PUT req m] u by (auto simp: method_name_def respond_def)
  obtain s' where "sync_event w d2 ?rd = Some (s', Inr (), rd2)"
    using sync_event_put [OF live(1) assms(5-8), of ?rd] d2 rd2(1) by auto
  then have sync: "sync_data w (mRepo ?m1) ?c1 = Some (Inr (), ?r2, c\<lparr>cData := s'\<rparr>)"
    using m1(1) by (simp add: sync_data_def)
  let ?m2 = "?m1\<lparr>mRepo := ?r2, mClient := (c\<lparr>cData := s'\<rparr>, acc)\<rparr>"
  have "rData (mRepo (snd (generateRequestID ?m2))) = rd2" by (simp add: generateRequestID_keeps)
  then have "manage_handler env local_storeClient DataRoute GET (req\<lparr>rqMethod := ''GET''\<rparr>) (snd (generateRequestID ?m2)) =
      (Inr (RVal (VStr v), None), snd (generateRequestID ?m2))"
    using rd2(2) by (simp add: manage_handler_def dataGet_def np GetData_def found_or_404_def)
  then obtain reply2 where "manage_serve env local_storeClient DataRoute GET req ?m2 = (Inr reply2, snd (generateRequestID ?m2))"
    "ryResponse reply2 = fst (respondSuccess env (req\<lparr>rqMethod := ''GET''\<rparr>) (RVal (VStr v)))"
    using manage_serve_by [of env local_storeClient DataRoute GET req ?m2] by (auto simp: method_name_def respond_def)
  with reply sync show ?thesis by (intro exI conjI) (assumption | simp)+
qed

text \<open>A server whose repository follows a new local backend.\<close>

definition sample_server :: "(localClient \<times> accessStore) metad" where
  "sample_server = sample_metad\<lparr>mClient := (NewLocalClient\<lparr>cData := sample_src\<rparr>, NewAccessStore)\<rparr>"

definition sample_put :: http_request where
  "sample_put = (sample_request [])\<lparr>rqNodePath := ''x'', rqBody := Inr [CHR 0x22, CHR ''7'', CHR 0x22]\<rparr>"

theorem manage_put_visible_witness:
  "\<exists>reply m1 c1 r2 c2. manage_serve sample_env local_storeClient DataRoute PUT sample_put sample_server = (Inr reply, m1) \<and>
    sync_data 0 (mRepo m1) c1 = Some (Inr (), r2, c2) \<and>
    (\<exists>reply2 m3. manage_serve sample_env local_storeClient DataRoute GET sample_put
        (m1\<lparr>mRepo := r2, mClient := (c2, NewAccessStore)\<rparr>) = (Inr reply2, m3) \<and>
      ryResponse reply2 = fst (respondSuccess sample_env (sample_put\<lparr>rqMethod := ''GET''\<rparr>) (RVal (VStr ''7''))))"
proof -
  have "\<not> rootNil sample_src" by code_simp
  then have "live sample_src" using store_ok_store_Watch [OF store_ok_new, of "''/''" 5000] by (simp add: sample_src_def)
  then have 1: "client_ok (NewLocalClient\<lparr>cData := sample_src\<rparr>)" using client_ok_new by (simp add: client_ok_def)
  have 2: "repo_ok (mRepo sample_server)" using repo_ok_sample by (simp add: sample_server_def sample_metad_def)
  have 3: "mClient sample_server = (NewLocalClient\<lparr>cData := sample_src\<rparr>, NewAccessStore)" by (simp add: sample_server_def)
  have 4: "Decode sample_env (rqBody sample_put) = Inr (VStr ''7'')" "path_elems (node_path sample_put) = [] @ [''x'']" by code_simp+
  have "amap (nodes sample_src) [] = Some (Attr '''' True [0])" "amap (nodes sample_src) (path_elems (node_path sample_put)) = None"
    by code_simp+
  then have 5: "no_leaf_upto (amap (nodes (cData (NewLocalClient\<lparr>cData := sample_src\<rparr>)))) []"
    "put_is_news (amap (nodes (cData (NewLocalClient\<lparr>cData := sample_src\<rparr>)))) (path_elems (node_path sample_put)) ''7''"
    by (simp_all add: no_leaf_upto_def put_is_news_def)
  have 6: "waiting 0 (cData (NewLocalClient\<lparr>cData := sample_src\<rparr>))" by code_simp
  have "lookup_path (path_elems (node_path sample_put)) (tree (nodes (rData (mRepo sample_server)))) = None" by code_simp
  then have 7: "childless (amap (nodes (rData (mRepo sample_server)))) (path_elems (node_path sample_put))"
    by (simp add: childless_def flat_def lookup_path_append)
  show ?thesis using manage_put_visible [OF 2 1 3 4 5 6 7] by blast
qed

section \<open>The end of the synchronisation\<close>

lemma sync_stop_ends:
  assumes "live s" and "w < length (wtab (nodes s))" and "\<not> closed (wtab (nodes s) ! w)"
  obtains s' where "sync_stop w s = (Inr (), s')" and "live s'" and "store_texts s' = store_texts s" and "removed (wtab (nodes s') ! w)"
proof -
  obtain res s' where s': "watcher_Remove w s = (res, s')" by force
  have ok: "store_ok s" "\<not> rootNil s" "nodes_ok (nodes s)" using assms(1) by (auto simp: store_ok_def)
  have "res = Inr ()" "live s'"
    using watcher_Remove_returns [OF ok(1,2) assms(2,3)] store_ok_watcher_Remove [OF ok(1), of w] s' by simp_all
  moreover have "store_texts s' = store_texts s" using texts_watcher_Remove [of s w] ok s' by simp
  moreover have "removed (wtab (nodes s') ! w)"
    using watcher_Remove_open [OF ok(3) assms(2,3)] assms(2) s' by (auto simp: unregister_def)
  ultimately show thesis using that s' by (simp add: sync_stop_def)
qed

text \<open>\<^verbatim>\<open>StopSync\<close> over the local backend never panics while both goroutines hold an open watcher: their watchers are removed from
  the backend, whose texts and rules stay as they are, the access store is no longer written to, and both stores of the
  repository are destroyed.\<close>

theorem StopSync_ends:
  assumes "repo_ok r" and "client_ok c"
    and "w < length (wtab (nodes (cData c)))" and "\<not> closed (wtab (nodes (cData c)) ! w)"
    and "mw < length (wtab (nodes (cMapping c)))" and "\<not> closed (wtab (nodes (cMapping c)) ! mw)"
  shows "\<exists>r' c'. StopSync (w, mw) r c = (Inr (), r', c') \<and> rootNil (rData r') \<and> rootNil (rMapping r') \<and> client_ok c' \<and> \<not> linked c' \<and>
    removed (wtab (nodes (cData c')) ! w) \<and> removed (wtab (nodes (cMapping c')) ! mw) \<and>
    store_texts (cData c') = store_texts (cData c) \<and> store_texts (cMapping c') = store_texts (cMapping c) \<and> cRules c' = cRules c"
proof -
  have live: "live (cData c)" "live (cMapping c)" "live (rData r)" "live (rMapping r)"
    using assms(1,2) by (simp_all add: repo_ok_def client_ok_def)
  obtain d where d: "sync_stop w (cData c) = (Inr (), d)" "live d" "store_texts d = store_texts (cData c)" "removed (wtab (nodes d) ! w)"
    using sync_stop_ends [OF live(1) assms(3,4)] by blast
  obtain mp where mp: "sync_stop mw (cMapping c) = (Inr (), mp)" "live mp" "store_texts mp = store_texts (cMapping c)"
    "removed (wtab (nodes mp) ! mw)"
    using sync_stop_ends [OF live(2) assms(5,6)] by blast
  have "\<not> cleanClosed (rData r)" "\<not> cleanClosed (rMapping r)" using live(3,4) by (auto simp: store_ok_def)
  then show ?thesis
    using d mp by (simp add: StopSync_def local_stopAccessRule_def store_Destroy_def client_ok_def)
qed

theorem StopSync_ends_witness:
  "\<exists>r' c'. StopSync (0, 0) newMetadataRepo (NewLocalClient\<lparr>cData := sample_src, cMapping := sample_src\<rparr>) = (Inr (), r', c')"
proof -
  have "\<not> rootNil sample_src" and w: "wtab (nodes sample_src) = [newWatcher [] 5000]" by code_simp+
  then have "live sample_src" using store_ok_store_Watch [OF store_ok_new, of "''/''" 5000] by (simp add: sample_src_def)
  then have "client_ok (NewLocalClient\<lparr>cData := sample_src, cMapping := sample_src\<rparr>)" by (simp add: client_ok_def)
  from StopSync_ends [OF repo_ok_new this, of 0 0] w show ?thesis by auto
qed

section \<open>Access rules take effect at once\<close>

lemma repo_PutAccessRule:
  assumes "\<forall>kv\<in>set rules. CheckAccessRules (snd kv) = None"
  shows "PutAccessRule local_storeClient rules ca = (Inr None, local_PutAccessRule rules ca)"
proof -
  have "find (\<lambda>kv. CheckAccessRules (snd kv) \<noteq> None) rules = None" using assms by (auto simp: find_None_iff)
  then show ?thesis by (simp add: PutAccessRule_def local_storeClient_def)
qed

lemma manage_rules:
  assumes "Decode_rules env (rqBody req) = Inr rules"
  shows "manage_handler env local_storeClient RuleRoute PUT (req\<lparr>rqMethod := ''PUT''\<rparr>) (snd (generateRequestID m)) =
    finish_call (PutAccessRule local_storeClient rules (mClient m)) (snd (generateRequestID m))"
  using assms by (simp add: manage_handler_def accessRuleUpdate_def generateRequestID_keeps)

lemma rules_accepted:
  assumes "Decode_rules env (rqBody req) = Inr rules" and "\<forall>kv\<in>set rules. CheckAccessRules (snd kv) = None"
  obtains reply m' where "local_manage_serve env RuleRoute PUT req m = (Inr reply, m')"
    and "ryResponse reply = respondSuccessDefault env (req\<lparr>rqMethod := ''PUT''\<rparr>)"
    and "mClient m' = local_PutAccessRule rules (mClient m)" and "mRepo m' = (mRepo m)\<lparr>rAccess := snd (mClient m')\<rparr>"
proof -
  let ?m1 = "snd (generateRequestID m)" and ?ca = "local_PutAccessRule rules (mClient m)"
  have "manage_handler env local_storeClient RuleRoute PUT (req\<lparr>rqMethod := ''PUT''\<rparr>) ?m1 = (Inr (RNil, None), ?m1\<lparr>mClient := ?ca\<rparr>)"
    unfolding manage_rules [OF assms(1)] repo_PutAccessRule [OF assms(2)] by (simp add: finish_call_def)
  then obtain reply where "manage_serve env local_storeClient RuleRoute PUT req m = (Inr reply, ?m1\<lparr>mClient := ?ca\<rparr>)"
    "ryResponse reply = respondSuccessDefault env (req\<lparr>rqMethod := ''PUT''\<rparr>)"
    using manage_serve_by [of env local_storeClient RuleRoute PUT req m] by (auto simp: method_name_def respond_def)
  then show thesis
    using that [of reply "share_access (?m1\<lparr>mClient := ?ca\<rparr>)"]
    by (simp add: local_manage_serve_def share_access_def generateRequestID_keeps)
qed

lemma rules_refused:
  assumes "mClient m = (c, rAccess (mRepo m))" and "Decode_rules env (rqBody req) = Inr rules"
    and "\<not> (\<forall>kv\<in>set rules. CheckAccessRules (snd kv) = None)"
  obtains reply m' where "local_manage_serve env RuleRoute PUT req m = (Inr reply, m')" and "mRepo m' = mRepo m" and "mClient m' = mClient m"
proof -
  let ?m1 = "snd (generateRequestID m)"
  obtain kv where kv: "find (\<lambda>kv. CheckAccessRules (snd kv) \<noteq> None) rules = Some kv"
    using assms(3) by (cases "find (\<lambda>kv. CheckAccessRules (snd kv) \<noteq> None) rules") (auto simp: find_None_iff)
  then have "CheckAccessRules (snd kv) \<noteq> None" by (auto simp: find_Some_iff)
  then obtain e where "PutAccessRule local_storeClient rules (mClient m) = (Inr (Some (access_error_text e)), mClient m)"
    using kv by (auto simp: PutAccessRule_def)
  then obtain err where "manage_handler env local_storeClient RuleRoute PUT (req\<lparr>rqMethod := ''PUT''\<rparr>) ?m1 = (Inr (RNil, Some err), ?m1)"
    unfolding manage_rules [OF assms(2)] by (auto simp: finish_call_def NewServerError_def generateRequestID_def AtomicLong_IncrementAndGet_def)
  then obtain reply where "manage_serve env local_storeClient RuleRoute PUT req m = (Inr reply, ?m1)"
    using manage_serve_by [of env local_storeClient RuleRoute PUT req m] by (auto simp: method_name_def)
  then show thesis
    using that [of reply "share_access ?m1"] assms(1) by (simp add: local_manage_serve_def share_access_def generateRequestID_keeps)
qed

text \<open>C7: Rules that a \<^verbatim>\<open>PUT\<close> on the manage port of a server over the local backend is accepted with are in force for the next
  request: the access tree of every host the request names is the one compiled from its rules, that of every other host
  is as before, and the access store still mirrors the client's rules.  A request with a rule of an unknown mode changes
  nothing.\<close>

theorem rules_in_force:
  assumes "mClient m = (c, rAccess (mRepo m))" and "mirrored (mClient m)"
    and "Decode_rules env (rqBody req) = Inr rules" and "map_ok rules"
  shows "\<exists>reply m'. local_manage_serve env RuleRoute PUT req m = (Inr reply, m') \<and> mirrored (mClient m') \<and>
    rAccess (mRepo m') = snd (mClient m') \<and>
    (if \<forall>kv\<in>set rules. CheckAccessRules (snd kv) = None
     then ryResponse reply = respondSuccessDefault env (req\<lparr>rqMethod := ''PUT''\<rparr>) \<and>
       (\<forall>h. case map_of rules h of
              Some rs \<Rightarrow> getAccessTree (mRepo m') h = Some (NewAccessTree rs)
            | None \<Rightarrow> getAccessTree (mRepo m') h = getAccessTree (mRepo m) h)
     else mRepo m' = mRepo m \<and> mClient m' = mClient m)"
proof (cases "\<forall>kv\<in>set rules. CheckAccessRules (snd kv) = None")
  case True
  obtain reply m' where m': "local_manage_serve env RuleRoute PUT req m = (Inr reply, m')"
    "ryResponse reply = respondSuccessDefault env (req\<lparr>rqMethod := ''PUT''\<rparr>)"
    "mClient m' = local_PutAccessRule rules (mClient m)" "mRepo m' = (mRepo m)\<lparr>rAccess := snd (mClient m')\<rparr>"
    using rules_accepted [OF assms(3) True] .
  have mi: "mirrored (mClient m')" unfolding m'(3) using mirrored_PutAccessRule [OF assms(2)] .
  have "accessStore_Get h (rAccess (mRepo m')) = (case map_of rules h of Some rs \<Rightarrow> Some (NewAccessTree rs)
      | None \<Rightarrow> accessStore_Get h (rAccess (mRepo m)))" for h
    using mi assms(1,2) rules_PutAccessRule [OF assms(4), of "mClient m" h] m'(3,4) by (auto simp: mirrored_def split: option.splits)
  moreover have "GetMapping (mRepo m') q = GetMapping (mRepo m) q" for q by (simp add: m'(4) GetMapping_def)
  ultimately have "case map_of rules h of
        Some rs \<Rightarrow> getAccessTree (mRepo m') h = Some (NewAccessTree rs)
      | None \<Rightarrow> getAccessTree (mRepo m') h = getAccessTree (mRepo m) h" for h
    by (simp add: getAccessTree_def split: option.splits)
  moreover have "rAccess (mRepo m') = snd (mClient m')" by (simp add: m'(4))
  ultimately show ?thesis unfolding if_P [OF True] using m'(1,2) mi by blast
next
  case False
  obtain reply m' where "local_manage_serve env RuleRoute PUT req m = (Inr reply, m')" "mRepo m' = mRepo m" "mClient m' = mClient m"
    using rules_refused [OF assms(1,3) False] .
  then show ?thesis unfolding if_not_P [OF False] using assms(1,2) by (intro exI [of _ reply] exI [of _ m'] conjI) simp_all
qed

definition sample_rule_put :: http_request where
  "sample_rule_put = (sample_request [])\<lparr>rqBody := Inr (''{'' @ quote # ''10.0.0.9'' @ quote # '':[{'' @ quote # ''path'' @ quote # '':'' @
     quote # ''/a'' @ quote # '','' @ quote # ''mode'' @ quote # '':1}]}'')\<rparr>"

theorem rules_in_force_witness:
  "\<exists>reply m'. local_manage_serve sample_env RuleRoute PUT sample_rule_put
      (sample_metad\<lparr>mRepo := newMetadataRepo, mClient := local_SyncAccessRule (NewLocalClient, NewAccessStore)\<rparr>) = (Inr reply, m') \<and>
    getAccessTree (mRepo m') ''10.0.0.9'' = Some (NewAccessTree [\<lparr>rPath = ''/a'', rMode = AccessModeRead\<rparr>]) \<and>
    getAccessTree (mRepo m') ''10.0.0.8'' = getAccessTree newMetadataRepo ''10.0.0.8''"
proof -
  let ?m = "sample_metad\<lparr>mRepo := newMetadataRepo, mClient := local_SyncAccessRule (NewLocalClient, NewAccessStore)\<rparr>"
  let ?rules = "[(''10.0.0.9'', [\<lparr>rPath = ''/a'', rMode = AccessModeRead\<rparr>])]"
  have c: "mClient ?m = (NewLocalClient\<lparr>linked := True\<rparr>, rAccess (mRepo ?m))"
    by (simp add: local_SyncAccessRule_def NewLocalClient_def newMetadataRepo_def)
  have mi: "mirrored (mClient ?m)" using mirrored_Sync [of NewLocalClient NewAccessStore]
    by (simp add: NewLocalClient_def NewAccessStore_def accessStore_Get_def)
  have d: "Decode_rules sample_env (rqBody sample_rule_put) = Inr ?rules" by code_simp
  have "CheckAccessRules [\<lparr>rPath = ''/a'', rMode = AccessModeRead\<rparr>] = None" by code_simp
  then have k: "\<forall>kv\<in>set ?rules. CheckAccessRules (snd kv) = None" by simp
  from rules_in_force [OF c mi d] obtain reply m' where
    serve: "local_manage_serve sample_env RuleRoute PUT sample_rule_put ?m = (Inr reply, m')"
    and all: "\<forall>h. case map_of ?rules h of Some rs \<Rightarrow> getAccessTree (mRepo m') h = Some (NewAccessTree rs)
       | None \<Rightarrow> getAccessTree (mRepo m') h = getAccessTree (mRepo ?m) h"
    unfolding if_P [OF k] by auto
  show ?thesis using serve all [THEN spec, of "''10.0.0.9''"] all [THEN spec, of "''10.0.0.8''"] by auto
qed

end
