(* ===== verification/Converge.thy ===== *)
theory Converge
  imports Delete_Events Sync_Props "HOL-Library.Code_Target_Nat"
begin

text \<open>
  The repository follows the local backend: whatever is written to the backend's store, and however the writes interleave with the
  synchronisation goroutine, with waiting clients and with cleaning, the events still in the goroutine's channel are what
  separates the two stores.
\<close>

section \<open>Events as updates of texts\<close>

definition apply_event :: "event \<Rightarrow> texts \<Rightarrow> texts" where
  "apply_event e T =
     (if Action e = Delete then clear_texts (path_elems (Path e)) T
      else if Action e = Update then (if path_elems (Path e) = [] then T else T(path_elems (Path e) := EvValue e))
      else T)"

lemma processEvent_texts:
  assumes "live to0"
  obtains to1 where "processEvent e to0 = (Inr (), to1)" and "live to1" and "store_texts to1 = apply_event e (store_texts to0)"
proof -
  let ?to = "snd (processEvent e to0)"
  have "fst (processEvent e to0) = Inr ()"
    using store_Put_total [OF assms, of "Path e" "VStr (EvValue e)"] by (simp add: processEvent_def)
  moreover have "live ?to"
    using assms store_ok_store_Put [of to0] store_ok_store_Delete [of to0] by (simp add: processEvent_def)
  moreover have "store_texts ?to = apply_event e (store_texts to0)"
    using assms by (simp add: processEvent_def apply_event_def texts_store_Put put_texts_def texts_store_Delete)
  ultimately show thesis using that [of ?to] by (simp add: prod_eq_iff)
qed

text \<open>The reports of a removal, applied to the texts before it.\<close>

definition change_event :: "change \<Rightarrow> event" where
  "change_event = (\<lambda>(action, r, v). newEvent action (abs_path (rev r)) v)"

lemma apply_removal:
  assumes "\<forall>ch\<in>set chs. case ch of (action, q, v) \<Rightarrow>
      path_elems (abs_path (rev q)) = rev q \<and>
      (action = Delete \<and> within p (rev q) \<or> action = Update \<and> \<not> within p (rev q) \<and> T (rev q) = v)"
    and "\<forall>q. within p q \<and> T q \<noteq> '''' \<longrightarrow> (\<exists>v. (Delete, rev q, v) \<in> set chs)"
  shows "fold apply_event (map change_event chs) T = clear_texts p T"
proof -
  have "\<forall>q. (fold apply_event (map change_event cs) S) q =
      (if within p q then (if \<exists>(action, r, v)\<in>set cs. action = Delete \<and> within (rev r) q then '''' else S q) else T q)"
    if "set cs \<subseteq> set chs" "\<forall>q. \<not> within p q \<longrightarrow> S q = T q" for cs S
    using that
  proof (induction cs arbitrary: S)
    case (Cons ch cs)
    obtain action r v where ch: "ch = (action, r, v)" by (cases ch)
    let ?S = "apply_event (change_event ch) S"
    have c: "path_elems (abs_path (rev r)) = rev r"
      "action = Delete \<and> within p (rev r) \<or> action = Update \<and> \<not> within p (rev r) \<and> T (rev r) = v"
      using Cons.prems(1) assms(1) ch by auto
    have S: "?S q = (if action = Delete \<and> within (rev r) q then '''' else S q)" for q
      using c Cons.prems(2) by (auto simp: apply_event_def change_event_def newEvent_def ch clear_texts_def)
    have "\<forall>q. \<not> within p q \<longrightarrow> ?S q = T q" using S c(2) Cons.prems(2) prefix_order.trans by auto
    then show ?case using Cons.IH [of ?S] Cons.prems(1) S by (auto simp: ch)
  qed auto
  from this [of chs T] have "fold apply_event (map change_event chs) T q =
      (if within p q then (if \<exists>(action, r, v)\<in>set chs. action = Delete \<and> within (rev r) q then '''' else T q) else T q)" for q
    by simp
  then have R: "fold apply_event (map change_event chs) T q =
      (if within p q then (if \<exists>r v. (Delete, r, v) \<in> set chs \<and> within (rev r) q then '''' else T q) else T q)" for q
    by (simp add: case_prod_unfold) force
  show ?thesis
  proof
    fix q
    have "\<exists>r v. (Delete, r, v) \<in> set chs \<and> within (rev r) q" if "within p q" "T q \<noteq> ''''"
      using assms(2) that by (metis prefix_order.refl rev_rev_ident)
    then show "fold apply_event (map change_event chs) T q = clear_texts p T q" unfolding R clear_texts_def by auto
  qed
qed

section \<open>The channel of the goroutine\<close>

definition root_watcher :: "nat \<Rightarrow> store \<Rightarrow> bool" where
  "root_watcher w s \<longleftrightarrow> w < length (wtab (nodes s)) \<and> \<not> closed (wtab (nodes s) ! w) \<and> wnode (wtab (nodes s) ! w) = []"

definition pending :: "nat \<Rightarrow> store \<Rightarrow> event list" where
  "pending w s = eventChan (wtab (nodes s) ! w)"

text \<open>A channel that is not full has dropped nothing.\<close>

definition has_room :: "nat \<Rightarrow> store \<Rightarrow> bool" where
  "has_room w s \<longleftrightarrow> length (pending w s) < bufLen (wtab (nodes s) ! w)"

lemma chan_sends:
  assumes "length (eventChan (fold chan_send es w)) < bufLen w"
  shows "eventChan (fold chan_send es w) = eventChan w @ es"
  using assms
proof (induction es rule: rev_induct)
  case (snoc e es)
  have b: "bufLen (fold chan_send es w) = bufLen w" by (induction es arbitrary: w) simp_all
  let ?w = "fold chan_send es w"
  have l: "eventChan (chan_send e ?w) = (if length (eventChan ?w) < bufLen w then eventChan ?w @ [e] else eventChan ?w)"
    unfolding chan_send_def [of e] b by simp
  have "length (eventChan ?w) < bufLen w" using snoc.prems l by (simp split: if_splits)
  then show ?case using snoc.IH l by simp
qed simp

lemma emit_root:
  assumes "w < length tab" and "\<not> closed (tab ! w)" and "wnode (tab ! w) = []"
    and "\<forall>(action, r, v)\<in>set chs. \<forall>x\<in>set r. canon x"
  shows "emit chs tab ! w = fold chan_send (map change_event chs) (tab ! w) \<and> length (emit chs tab) = length tab"
  using assms
proof (induction chs arbitrary: tab)
  case (Cons ch chs)
  obtain action r v where ch: "ch = (action, r, v)" by (cases ch)
  have "RelativePath r [] = abs_path (rev r)" using Cons.prems(4) ch RelativePath_below [of r "[]"] by simp
  then have d: "map (deliver action r v r) tab ! w = chan_send (change_event ch) (tab ! w)"
    using Cons.prems(1-3) by (simp add: deliver_def change_event_def ch)
  show ?case using Cons.IH [of "map (deliver action r v r) tab"] Cons.prems d by (simp add: ch)
qed simp

section \<open>Mirroring as a transition system\<close>

text \<open>
  A directory holds no text of its own (a text there is in no answer, and \<^verbatim>\<open>Remove\<close> reports no deletion for it), and every
  name is canonical.
\<close>

definition tidy :: "store \<Rightarrow> bool" where
  "tidy s \<longleftrightarrow> (\<forall>q a. amap (nodes s) q = Some a \<longrightarrow> (adir a \<longrightarrow> aval a = '''') \<and> (\<forall>x\<in>set q. canon x))"

text \<open>A put at \<open>p\<close> that keeps it so: no leaf strictly above \<open>p\<close>, and \<open>p\<close> is no directory with children.\<close>

definition tidy_put :: "amap \<Rightarrow> string list \<Rightarrow> bool" where
  "tidy_put D p \<longleftrightarrow> p \<noteq> [] \<and> no_leaf_upto D (butlast p) \<and> (\<forall>a. D p = Some a \<and> adir a \<longrightarrow> childless D p)"

text \<open>
  The backend's store and the repository's store, with the goroutine of \<^verbatim>\<open>internalSync\<close> on watcher \<open>w\<close>: writes to the backend
  while the channel has room, the goroutine's receive, and what the repository's clients do to its store meanwhile.
\<close>

inductive mirror_step :: "nat \<Rightarrow> store \<times> store \<Rightarrow> store \<times> store \<Rightarrow> bool" for w :: nat where
  Put: "tidy_put (amap (nodes s)) (path_elems p) \<Longrightarrow> s' = snd (store_Put p (VStr v) s) \<Longrightarrow> has_room w s' \<Longrightarrow>
    mirror_step w (s, t) (s', t)"
| Delete: "s' = store_Delete p s \<Longrightarrow> has_room w s' \<Longrightarrow> mirror_step w (s, t) (s', t)"
| Sync: "sync_event w s t = Some (s', res, t') \<Longrightarrow> mirror_step w (s, t) (s', t')"
| Watch: "mirror_step w (s, t) (s, snd (store_Watch p buf t))"
| Remove: "mirror_step w (s, t) (s, snd (watcher_Remove i t))"
| Recv: "watcher_recv i t = Some (e, t') \<Longrightarrow> mirror_step w (s, t) (s, t')"
| Clean: "clean_step t = Some t' \<Longrightarrow> mirror_step w (s, t) (s, t')"

text \<open>The invariant: the pending events, applied in order to the repository's texts, give the backend's texts.\<close>

fun in_sync :: "nat \<Rightarrow> store \<times> store \<Rightarrow> bool" where
  "in_sync w (s, t) \<longleftrightarrow> live s \<and> live t \<and> tidy s \<and> root_watcher w s \<and>
     fold apply_event (pending w s) (store_texts t) = store_texts s"

subsection \<open>Puts\<close>

lemma tidy_store_Put:
  assumes "live s" and "tidy s" and "tidy_put (amap (nodes s)) (path_elems p)"
  shows "tidy (snd (store_Put p (VStr v) s))"
proof -
  let ?p = "path_elems p" and ?D = "amap (nodes s)"
  have ne: "?p \<noteq> []" using assms(3) by (simp add: tidy_put_def)
  obtain st' where st': "snd (store_Put p (VStr v) s) = s\<lparr>version := version s + 1, nodes := st'\<rparr>" "amap st' = put_abs ?p v ?D"
    using store_Put_string [of s p v] ne assms(1) by auto
  have "(adir a \<longrightarrow> aval a = '''') \<and> (\<forall>x\<in>set q. canon x)" if q: "put_abs ?p v ?D q = Some a" for q a
  proof -
    consider "q = ?p" | "q \<noteq> ?p" "within q ?p" | "\<not> within q ?p" by blast
    then show ?thesis
    proof cases
      case 1
      then show ?thesis using q assms(3) path_elems_canon by (auto simp: put_abs_def tidy_put_def split: option.splits)
    next
      case 2
      then have "within q (butlast ?p)" using ne by (metis append_butlast_last_id prefix_snoc)
      then have "adir b" if "?D q = Some b" for b using that assms(3) by (auto simp: tidy_put_def no_leaf_upto_def)
      then show ?thesis using q 2 assms(2) path_elems_canon set_mono_prefix [OF 2(2)]
        by (fastforce simp: put_abs_def tidy_def as_dir_def split: option.splits)
    next
      case 3
      then have "?D q = Some a" using q by (auto simp: put_abs_def split: if_splits)
      then show ?thesis using assms(2) by (auto simp: tidy_def)
    qed
  qed
  then show ?thesis using st' by (simp add: tidy_def)
qed

lemma in_sync_Put:
  assumes "in_sync w (s, t)" and "tidy_put (amap (nodes s)) (path_elems p)" and "has_room w (snd (store_Put p (VStr v) s))"
  shows "in_sync w (snd (store_Put p (VStr v) s), t)"
proof -
  let ?s = "snd (store_Put p (VStr v) s)" and ?p = "path_elems p" and ?D = "amap (nodes s)"
  let ?e = "newEvent Update (abs_path ?p) v"
  have i: "live s" "live t" "tidy s" "root_watcher w s" "fold apply_event (pending w s) (store_texts t) = store_texts s"
    using assms(1) by simp_all
  have ne: "?p = butlast ?p @ [last ?p]" "no_leaf_upto ?D (butlast ?p)" using assms(2) by (simp_all add: tidy_put_def)
  have "nodes_ok (nodes s)" using i(1) by (simp add: store_ok_def)
  note tab = wtab_store_Put [OF this _ ne, of v]
  have w: "wtab (nodes ?s) ! w = (if put_is_news ?D ?p v then chan_send ?e (wtab (nodes s) ! w) else wtab (nodes s) ! w)"
    "length (wtab (nodes ?s)) = length (wtab (nodes s))"
    using tab i(1,4) by (simp_all add: root_watcher_def)
  have "fold apply_event (pending w ?s) (store_texts t) = store_texts ?s"
  proof (cases "put_is_news ?D ?p v")
    case True
    then have "pending w ?s = pending w s @ [?e]"
      using assms(3) w(1) by (auto simp: pending_def has_room_def chan_send_def split: if_splits)
    then show ?thesis
      using i(1,5) assms(2) by (simp add: apply_event_def newEvent_def texts_store_Put put_texts_def tidy_put_def)
  next
    case False
    then have "store_texts s ?p = v"
      using assms(2) by (auto simp: put_is_news_def tidy_put_def texts_of_def split: option.splits if_splits)
    then show ?thesis
      using False w(1) i(1,5) by (simp add: pending_def texts_store_Put put_texts_def fun_upd_idem)
  qed
  moreover have "root_watcher w ?s" using i(4) w by (simp add: root_watcher_def)
  moreover have "live ?s" using i(1) store_ok_store_Put by simp
  ultimately show ?thesis using i(2) tidy_store_Put [OF i(1,3) assms(2)] by simp
qed

subsection \<open>Deletes\<close>

lemma tidy_store_Delete:
  assumes "live s" and "tidy s"
  shows "tidy (store_Delete p s)"
proof (cases "amap (nodes s) (path_elems p)")
  case None
  then show ?thesis using assms store_Delete_missing by simp
next
  case (Some b)
  have "node_ok (tree (nodes s))" "root_ok (nodes s)" using assms(1) by (simp_all add: store_ok_def nodes_ok_def)
  then obtain st' where st': "store_Delete p s = s\<lparr>version := version s + 1, nodes := st'\<rparr>" "purged (rev (path_elems p)) (nodes s) st'"
    using store_Delete_effect [of s p] assms(1) Some by auto
  have "(adir a \<longrightarrow> aval a = '''') \<and> (\<forall>x\<in>set q. canon x)" if "amap st' q = Some a" for q a
  proof
    show "\<forall>x\<in>set q. canon x" using purged_back [OF st'(2), of q] that assms(2) by (auto simp: tidy_def)
    show "adir a \<longrightarrow> aval a = ''''"
      using st'(2) that assms(2)
      by (cases "within (path_elems p) q") (fastforce simp: purged_def purge_rel_def clean_rel_def tidy_def)+
  qed
  then show ?thesis using st'(1) by (simp add: tidy_def)
qed

lemma in_sync_Delete:
  assumes "in_sync w (s, t)" and "has_room w (store_Delete p s)"
  shows "in_sync w (store_Delete p s, t)"
proof (cases "amap (nodes s) (path_elems p)")
  case None
  then show ?thesis using assms store_Delete_missing by simp
next
  case (Some b)
  let ?s = "store_Delete p s" and ?p = "path_elems p" and ?W = "wtab (nodes s) ! w"
  have i: "live s" "live t" "tidy s" "root_watcher w s" "fold apply_event (pending w s) (store_texts t) = store_texts s"
    using assms(1) by simp_all
  obtain chs where e: "wtab (nodes ?s) = emit chs (wtab (nodes s))" and c: "remove_changes (rev ?p) (nodes s) chs"
    using store_Delete_emits [of s p] i(1) Some by auto
  have names: "\<forall>x\<in>set r. canon x" "path_elems (abs_path (rev r)) = rev r" if "(action, r, v) \<in> set chs" for action r v
  proof -
    have "amap (nodes s) (rev r) \<noteq> None" using that c by (auto simp: remove_changes_def text_at_def)
    then show n: "\<forall>x\<in>set r. canon x" using i(3) by (auto simp: tidy_def)
    then show "path_elems (abs_path (rev r)) = rev r" by simp
  qed
  have w: "wtab (nodes ?s) ! w = fold chan_send (map change_event chs) ?W" "length (wtab (nodes ?s)) = length (wtab (nodes s))"
    using emit_root [of w "wtab (nodes s)" chs] i(4) names(1) by (auto simp: root_watcher_def e)
  have f: "bufLen (fold chan_send es u) = bufLen u \<and> closed (fold chan_send es u) = closed u \<and> wnode (fold chan_send es u) = wnode u" for es u
    by (induction es arbitrary: u) simp_all
  have "pending w ?s = pending w s @ map change_event chs"
    using assms(2) chan_sends [of "map change_event chs" ?W] by (simp add: pending_def has_room_def w(1) f)
  moreover have "fold apply_event (map change_event chs) (store_texts s) = clear_texts ?p (store_texts s)"
  proof (rule apply_removal; clarify)
    fix action q v assume "(action, q, v) \<in> set chs"
    with c names(2) [OF this] show "path_elems (abs_path (rev q)) = rev q \<and>
        (action = Delete \<and> within ?p (rev q) \<or> action = Update \<and> \<not> within ?p (rev q) \<and> store_texts s (rev q) = v)"
      by (force simp: remove_changes_def text_at_def texts_of_def dest: prefix_order.antisym)
  next
    fix q assume q: "within ?p q" "store_texts s q \<noteq> ''''"
    then obtain a where "amap (nodes s) q = Some a" "\<not> adir a"
      using i(3) by (fastforce simp: texts_of_def tidy_def split: option.splits)
    then show "\<exists>v. (Delete, rev q, v) \<in> set chs" using c q(1) by (auto simp: remove_changes_def)
  qed
  ultimately have "fold apply_event (pending w ?s) (store_texts t) = store_texts ?s"
    using i(1,5) by (simp add: texts_store_Delete)
  moreover have "root_watcher w ?s" using i(4) w f by (simp add: root_watcher_def)
  moreover have "live ?s" using i(1) store_ok_store_Delete by simp
  ultimately show ?thesis using i(1-3) tidy_store_Delete by simp
qed

subsection \<open>Receives, and the clients of the repository\<close>

lemma sync_event_step:
  assumes "in_sync w (s, t)"
  shows "pending w s = [] \<longleftrightarrow> sync_event w s t = None"
    and "pending w s = e # es \<Longrightarrow> \<exists>s' t'. sync_event w s t = Some (s', Inr (), t') \<and>
      pending w s' = es \<and> store_texts s' = store_texts s \<and> in_sync w (s', t')"
proof -
  let ?W = "wtab (nodes s) ! w"
  have i: "live s" "live t" "tidy s" "root_watcher w s" "fold apply_event (pending w s) (store_texts t) = store_texts s"
    using assms by simp_all
  have w: "w < length (wtab (nodes s))" using i(4) by (simp add: root_watcher_def)
  then show "pending w s = [] \<longleftrightarrow> sync_event w s t = None"
    by (simp add: sync_event_def watcher_recv_def pending_def chan_recv_def split: list.splits)
  assume es: "pending w s = e # es"
  let ?s = "s\<lparr>nodes := (nodes s)\<lparr>wtab := (wtab (nodes s))[w := ?W\<lparr>eventChan := es\<rparr>]\<rparr>\<rparr>"
  have r: "watcher_recv w s = Some (e, ?s)" using es w by (simp add: watcher_recv_def chan_recv_def pending_def)
  obtain t' where t': "processEvent e t = (Inr (), t')" "live t'" "store_texts t' = apply_event e (store_texts t)"
    using processEvent_texts [OF i(2)] .
  have "live ?s" using store_step_ok [OF store_step.Recv [OF r]] i(1) by simp
  moreover have "root_watcher w ?s" "pending w ?s = es" "tidy ?s"
    using i(3,4) w by (simp_all add: root_watcher_def pending_def tidy_def)
  ultimately show "\<exists>s' t'. sync_event w s t = Some (s', Inr (), t') \<and> pending w s' = es \<and>
      store_texts s' = store_texts s \<and> in_sync w (s', t')"
    using r t' i(5) es by (intro exI [of _ ?s] exI [of _ t']) (simp add: sync_event_def)
qed

lemma rootNil_store_Watch: "rootNil (snd (store_Watch p buf s)) = rootNil s"
  by (simp add: store_Watch_def Let_def split: prod.splits sum.splits option.splits)

lemma in_sync_step:
  assumes "mirror_step w st st'" and "in_sync w st"
  shows "in_sync w st'"
  using assms
proof cases
  case (Sync s t s' res t')
  then show ?thesis using sync_event_step [of w s t] assms(2) by (cases "pending w s") auto
next
  case (Remove s t i)
  have "rootNil (snd (watcher_Remove i t)) = rootNil t"
    using watcher_Remove_open [of t i] watcher_Remove_closed [of t i] assms(2) Remove
    by (cases "length (wtab (nodes t)) \<le> i \<or> closed (wtab (nodes t) ! i)") (auto simp: store_ok_def)
  with Remove show ?thesis using assms(2) store_ok_watcher_Remove texts_watcher_Remove by simp
next
  case (Recv i t e t' s)
  then show ?thesis using store_step_ok [OF store_step.Recv [OF Recv(3)]] assms(2)
    by (auto simp: watcher_recv_def split: if_splits option.splits)
next
  case (Clean t t' s)
  then show ?thesis using store_step_ok [OF store_step.CleanStep [OF Clean(3)]] texts_clean_step assms(2) clean_step_effect [OF Clean(3)]
    by auto
next
  case (Put s p s' v t)
  then show ?thesis using assms(2) in_sync_Put by blast
next
  case (Delete s' p s t)
  then show ?thesis using assms(2) in_sync_Delete by blast
next
  case (Watch s t p buf)
  then show ?thesis using assms(2) by (simp add: store_ok_store_Watch texts_store_Watch rootNil_store_Watch)
qed

lemma in_sync_run: "(mirror_step w)\<^sup>*\<^sup>* st st' \<Longrightarrow> in_sync w st \<Longrightarrow> in_sync w st'"
  by (induction rule: rtranclp_induct) (auto intro: in_sync_step)

section \<open>The loop of the goroutine\<close>

text \<open>At most \<open>n\<close> rounds of the loop of \<^verbatim>\<open>internalSync\<close>; it waits as soon as its channel is empty.\<close>

primrec sync_loop :: "nat \<Rightarrow> nat \<Rightarrow> store \<Rightarrow> store \<Rightarrow> (panic + unit) \<times> store \<times> store" where
  "sync_loop w 0 from0 to0 = (Inr (), from0, to0)"
| "sync_loop w (Suc n) from0 to0 =
     (case sync_event w from0 to0 of
        None \<Rightarrow> (Inr (), from0, to0)
      | Some (from1, Inl e, to1) \<Rightarrow> (Inl e, from1, to1)
      | Some (from1, Inr _, to1) \<Rightarrow> sync_loop w n from1 to1)"

lemma sync_loop_drains:
  "in_sync w (s, t) \<Longrightarrow> length (pending w s) \<le> n \<Longrightarrow>
    \<exists>s' t'. sync_loop w n s t = (Inr (), s', t') \<and> pending w s' = [] \<and> store_texts s' = store_texts s \<and> in_sync w (s', t')"
proof (induction n arbitrary: s t)
  case (Suc n)
  show ?case
  proof (cases "pending w s")
    case Nil
    then show ?thesis using sync_event_step(1) [OF Suc.prems(1)] Suc.prems(1) by simp
  next
    case (Cons e es)
    obtain s1 t1 where 1: "sync_event w s t = Some (s1, Inr (), t1)" "pending w s1 = es" "store_texts s1 = store_texts s"
      "in_sync w (s1, t1)"
      using sync_event_step(2) [OF Suc.prems(1) Cons] by blast
    then show ?thesis using Suc.IH [OF 1(4)] Suc.prems(2) Cons by simp
  qed
qed simp

text \<open>The start: registration at the root and the initial copy.\<close>

lemma in_sync_init:
  assumes "live s0" and "tidy s0" and "keys_ok (snd (store_Get ''/'' s0))" and "sync_init s0 newStore = (Inr w, s1, t1)"
  shows "in_sync w (s1, t1)" and "store_texts s1 = store_texts s0" and "pending w s1 = []"
proof -
  have new: "live newStore" using store_ok_new by (simp add: newStore_def)
  obtain s2 t2 where i: "sync_init s0 newStore = (Inr (length (wtab (nodes s0))), s2, t2)"
    and l: "live s2" "live t2" and w: "wtab (nodes s2) ! length (wtab (nodes s0)) = newWatcher [] 5000"
      "length (wtab (nodes s2)) = Suc (length (wtab (nodes s0)))"
    and lf: "leaf (amap (nodes t2)) = leaf (amap (nodes s0))" and b: "blank (amap (nodes t2))"
    using sync_init_starts [OF assms(1) new fresh_new assms(3)] by metis
  have e: "w = length (wtab (nodes s0))" "s2 = s1" "t2 = t1" using i assms(4) by auto
  have s1: "s1 = s0\<lparr>nodes := snd (node_Watch [] 5000 (nodes s0))\<rparr>"
    using assms(1,4) by (auto simp: sync_init_def store_Watch_def node_Watch_def Let_def split: prod.splits sum.splits if_splits)
  have d: "deref [] (nodes s0) = Some (tree (nodes s0))" by simp
  show x: "store_texts s1 = store_texts s0" using texts_node_Watch [OF d, of 5000] by (simp add: s1)
  show p: "pending w s1 = []" using w(1) by (simp add: pending_def e)
  have "IsDir (tree (nodes s0)) \<longrightarrow> nValue (tree (nodes s0)) = ''''"
    using assms(2) unfolding tidy_def by (drule_tac x = "[]" in spec) (simp add: flat_def attr_of_def)
  then have "tidy s1"
    using assms(2) node_Watch_effect(1) [OF d, of 5000] by (auto simp: s1 tidy_def attr_of_def split: if_splits)
  moreover have "root_watcher w s1" using w by (simp add: root_watcher_def e)
  moreover have "store_texts t1 = store_texts s0"
  proof
    fix q
    have "blank (amap (nodes s0))" using assms(2) by (auto simp: tidy_def blank_def)
    then show "store_texts t1 q = store_texts s0 q" using b lf e by (simp add: blank_texts)
  qed
  ultimately show "in_sync w (s1, t1)" using l e x p by simp
qed

section \<open>Property\<close>


text \<open>A run: a put, a client of the repository watches the path, and the backend deletes it before the goroutine moves.\<close>

definition sample_sync :: "store \<times> store" where
  "sample_sync = snd (sync_init newStore newStore)"

definition sample_s :: store where
  "sample_s = store_Delete ''/a'' (snd (store_Put ''/a/b'' (VStr ''1'') (fst sample_sync)))"

definition sample_t :: store where
  "sample_t = snd (store_Watch ''/a/b'' 10 (snd sample_sync))"


end
