(* ===== verification/Router_Props.thy ===== *)
theory Router_Props
  imports Router Http_Props
begin

text \<open>
  Both routers as functions of method and path: which handler answers with which node path, what is redirected or not found,
  and that reading requests change nothing.
\<close>

section \<open>Clean paths\<close>

lemma cleanPath_form:
  "cleanPath p = abs_path (path_elems p) \<or> path_elems p \<noteq> [] \<and> cleanPath p = abs_path (path_elems p) @ ''/''"
proof (cases p)
  case Nil
  then show ?thesis by (simp add: cleanPath_def)
next
  case (Cons c r)
  let ?p = "if hd p \<noteq> CHR ''/'' then CHR ''/'' # p else p"
  obtain q where q: "?p = CHR ''/'' # q" using Cons by (cases "c = CHR ''/''") simp_all
  then have e: "path_Clean ?p = abs_path (path_elems p)" "abs_path (path_elems p) \<noteq> ''/'' \<Longrightarrow> path_elems p \<noteq> []"
    by (metis path_Clean_rooted path_elems_slash) auto
  show ?thesis unfolding cleanPath_def Let_def e(1) using Cons e(2) by auto
qed

lemma cleanPath_rooted: "cleanPath p = p \<Longrightarrow> \<exists>q. p = CHR ''/'' # q"
  using cleanPath_form [of p] by (auto simp: abs_path_def)

lemma abs_path_ends_slash: "\<forall>e\<in>set es. canon e \<Longrightarrow> last (abs_path es) = CHR ''/'' \<longleftrightarrow> es = []"
proof (cases es rule: rev_cases)
  case (snoc ds e)
  assume "\<forall>e\<in>set es. canon e"
  then have "seg e" using snoc by simp
  then have l: "e \<noteq> ''''" "last e \<noteq> CHR ''/''" by (auto simp: seg_def dest: last_in_set)
  have "strings_Join es = (if ds = [] then e else strings_Join ds @ CHR ''/'' # e)"
    using strings_Join_append [of ds "[e]"] snoc by simp
  then show ?thesis using l snoc by (auto simp: abs_path_def)
qed simp

text \<open>Redirection leads to a path that is served: cleaning twice is cleaning once.\<close>

lemma cleanPath_idem: "cleanPath (cleanPath p) = cleanPath p"
proof -
  let ?es = "path_elems p"
  have c: "path_Clean (abs_path ?es) = abs_path ?es" by (simp add: path_Clean_abs_path)
  have "abs_path ?es @ ''/'' = CHR ''/'' # (strings_Join ?es @ CHR ''/'' # strings_Join [])" by (simp add: abs_path_def)
  then have d: "path_Clean (abs_path ?es @ ''/'') = abs_path ?es"
    by (simp add: path_Clean_rooted path_elems_append_canon path_elems_Join del: strings_Join.simps)
  have h: "hd (abs_path ?es) = CHR ''/''" "hd (abs_path ?es @ ''/'') = CHR ''/''" by (simp_all add: abs_path_def)
  from cleanPath_form [of p] show ?thesis
  proof
    assume e: "cleanPath p = abs_path ?es"
    show ?thesis unfolding e cleanPath_def [of "abs_path ?es"] Let_def using h(1) c abs_path_ends_slash [of ?es] by (cases "?es = []") simp_all
  next
    assume e: "?es \<noteq> [] \<and> cleanPath p = abs_path ?es @ ''/''"
    then show ?thesis unfolding conjunct2 [OF e] cleanPath_def [of "abs_path ?es @ ''/''"] Let_def
      using h(2) d abs_path_eq_root [of ?es] by simp
  qed
qed

section \<open>The metadata port\<close>

text \<open>Which handler of the metadata port a request reaches, and with which node path.\<close>

definition metadata_target :: "'c serve \<Rightarrow> 'c serve \<Rightarrow> string \<Rightarrow> string \<Rightarrow> ('c serve \<times> string) option" where
  "metadata_target onSelf onRoot meth p =
     (if p = ''/favicon.ico'' \<or> meth \<notin> {''GET'', ''HEAD''} \<or> CHR 0x0A \<in> set p then None
      else if p = ''/self'' then Some (onSelf, '''')
      else if take 6 p = ''/self/'' then Some (onSelf, drop 6 p)
      else Some (onRoot, tl p))"

lemma metadata_target_handlers: "metadata_target f g meth p = Some (h, np) \<Longrightarrow> h = f \<or> h = g"
  unfolding metadata_target_def by (simp split: if_splits)

lemma metadata_dispatch:
  assumes "cleanPath p = p"
  shows "ServeHTTP (initRouter onSelf onRoot) p req m =
    (case metadata_target onSelf onRoot (rqMethod req) p of
       None \<Rightarrow> http_NotFound req m
     | Some (h, np) \<Rightarrow> h (req\<lparr>rqNodePath := np\<rparr>) m)"
proof -
  obtain q where q: "p = CHR ''/'' # q" using cleanPath_rooted [OF assms] ..
  let ?N = "CHR 0x0A"
  have n1: "?N \<in> set (tl p) \<longleftrightarrow> ?N \<in> set p" using q by simp
  have n6: "?N \<in> set (drop 6 p) \<longleftrightarrow> ?N \<in> set p" if "take 6 p = ''/self/''"
  proof -
    have "p = ''/self/'' @ drop 6 p" using that append_take_drop_id [of 6 p] by metis
    then have "set p = set ''/self/'' \<union> set (drop 6 p)" by (metis set_append)
    then show ?thesis by simp
  qed
  have s: "?N \<notin> set p" if "p = ''/self''" using that by simp
  have t: "tpl_Match '''' (Tpl ''/favicon.ico'' None) p = (if p = ''/favicon.ico'' then Some [] else None)"
    "tpl_Match '''' (Tpl ''/self'' None) p = (if p = ''/self'' then Some [] else None)"
    "tpl_Match '''' (Tpl ''/self/'' (Some ''nodePath'')) p =
      (if take 6 p = ''/self/'' \<and> ?N \<notin> set p then Some [(''nodePath'', drop 6 p)] else None)"
    "tpl_Match '''' (Tpl ''/'' (Some ''nodePath'')) p = (if ?N \<notin> set p then Some [(''nodePath'', tl p)] else None)"
    using n1 n6 q by (auto simp add: numeral_eq_Suc)
  show ?thesis
    unfolding ServeHTTP_def initRouter_def metadata_target_def router_Match.simps route_Match.simps t
    using assms s by (cases "p = ''/self''") (simp_all add: http_NotFound_def)
qed

section \<open>The manage port\<close>

text \<open>What the paths below \<^verbatim>\<open>/v1\<close> name: a route and a node path.\<close>

definition manage_target :: "string \<Rightarrow> (manage_route \<times> string) option" where
  "manage_target p =
     (if p = ''/v1/mapping'' then Some (MappingRoute, '''')
      else if take 12 p = ''/v1/mapping/'' \<and> CHR 0x0A \<notin> set p then Some (MappingRoute, drop 12 p)
      else if p = ''/v1/data'' then Some (DataRoute, '''')
      else if take 9 p = ''/v1/data/'' \<and> CHR 0x0A \<notin> set p then Some (DataRoute, drop 9 p)
      else if p = ''/v1/rule'' \<or> p = ''/v1/rule/'' then Some (RuleRoute, '''')
      else None)"

definition method_of :: "string \<Rightarrow> manage_method option" where
  "method_of meth = find (\<lambda>md. meth = method_name md) [GET, POST, PUT, DELETE]"

text \<open>The three routes of one template.\<close>

lemma group_Match:
  "router_Match parent meth p
     (HandleFunc t (Some [''GET'']) g # HandleFunc t (Some [''POST'', ''PUT'']) u # HandleFunc t (Some [''DELETE'']) d # rest) =
   (case (tpl_Match parent t p, method_of meth) of
      (Some vars, Some md) \<Rightarrow> Some (case md of GET \<Rightarrow> g | DELETE \<Rightarrow> d | _ \<Rightarrow> u, vars)
    | _ \<Rightarrow> router_Match parent meth p rest)"
proof -
  consider "meth = ''GET''" | "meth = ''POST''" | "meth = ''PUT''" | "meth = ''DELETE''"
    | "meth \<notin> {''GET'', ''POST'', ''PUT'', ''DELETE''}" by blast
  then show ?thesis
    by cases (simp_all add: method_of_def method_name_def del: tpl_Match.simps split: option.splits)
qed

lemma by_manager_method:
  "method_of (rqMethod req) = Some md \<Longrightarrow>
    by_manager env (manage_handler env ops route md) (req\<lparr>rqNodePath := np\<rparr>) m =
    Some (apfst (map_sum id Reply) (manage_serve env ops route md (req\<lparr>rqNodePath := np\<rparr>) m))"
proof -
  assume "method_of (rqMethod req) = Some md"
  then have "rqMethod req = method_name md" by (auto simp: method_of_def split: if_splits)
  then have "req\<lparr>rqNodePath := np, rqMethod := method_name md\<rparr> = req\<lparr>rqNodePath := np\<rparr>" by (cases req) simp
  then show ?thesis by (simp add: by_manager_def manage_serve_def)
qed

definition v1_vars :: "string \<Rightarrow> (manage_route \<times> (string, string) gomap) option" where
  "v1_vars p =
     (if p = ''/v1/mapping'' then Some (MappingRoute, [])
      else if take 12 p = ''/v1/mapping/'' \<and> CHR 0x0A \<notin> set p then Some (MappingRoute, [(''nodePath'', drop 12 p)])
      else if p = ''/v1/data'' then Some (DataRoute, [])
      else if take 9 p = ''/v1/data/'' \<and> CHR 0x0A \<notin> set p then Some (DataRoute, [(''nodePath'', drop 9 p)])
      else if p = ''/v1/rule'' \<or> p = ''/v1/rule/'' then Some (RuleRoute, [])
      else None)"

lemma v1_vars_target:
  "manage_target p = map_option (apsnd (\<lambda>vars. case map_of vars ''nodePath'' of None \<Rightarrow> '''' | Some v \<Rightarrow> v)) (v1_vars p)"
  unfolding manage_target_def v1_vars_def by simp

lemma v1_vars_prefix: "take 3 p \<noteq> ''/v1'' \<Longrightarrow> v1_vars p = None"
proof -
  assume n: "take 3 p \<noteq> ''/v1''"
  have "take 3 (take 12 p) \<noteq> ''/v1''" "take 3 (take 9 p) \<noteq> ''/v1''" using n by simp_all
  then have "take 12 p \<noteq> ''/v1/mapping/''" "take 9 p \<noteq> ''/v1/data/''" by (auto simp del: take_take)
  moreover have "p \<noteq> ''/v1/mapping''" "p \<noteq> ''/v1/data''" "p \<noteq> ''/v1/rule''" "p \<noteq> ''/v1/rule/''" using n by auto
  ultimately show ?thesis by (simp add: v1_vars_def)
qed

lemma v1_Match:
  "router_Match ''/v1'' meth p (v1_routes env ops) =
    (case method_of meth of
       None \<Rightarrow> None
     | Some md \<Rightarrow>
         map_option (\<lambda>(route, vars). (by_manager env (manage_handler env ops route md), vars))
           (v1_vars p))"
proof -
  let ?N = "CHR 0x0A"
  have set: "take (length l) p = l \<and> ?N \<notin> set l \<longrightarrow> (?N \<in> set (drop (length l) p) \<longleftrightarrow> ?N \<in> set p)" for l
    using append_take_drop_id [of "length l" p] by (metis UnE UnCI set_append)
  have pre: "take (length l) p = l" if "take (length (l @ r)) p = l @ r" for l r
    using that by (metis append_eq_conv_conj append_take_drop_id append_assoc)
  have t: "tpl_Match ''/v1'' (Tpl ''/mapping'' None) p = (if p = ''/v1/mapping'' then Some [] else None)"
    "tpl_Match ''/v1'' (Tpl ''/data'' None) p = (if p = ''/v1/data'' then Some [] else None)"
    "tpl_Match ''/v1'' (Tpl ''/rule'' None) p = (if p = ''/v1/rule'' then Some [] else None)"
    "tpl_Match ''/v1/rule'' (Tpl ''/'' None) p = (if p = ''/v1/rule/'' then Some [] else None)"
    "tpl_Match ''/v1/mapping'' (Tpl ''/'' (Some ''nodePath'')) p =
      (if take 12 p = ''/v1/mapping/'' \<and> ?N \<notin> set p then Some [(''nodePath'', drop 12 p)] else None)"
    "tpl_Match ''/v1/data'' (Tpl ''/'' (Some ''nodePath'')) p =
      (if take 9 p = ''/v1/data/'' \<and> ?N \<notin> set p then Some [(''nodePath'', drop 9 p)] else None)"
    using set [of "''/v1/mapping/''"] set [of "''/v1/data/''"] by (auto simp: numeral_eq_Suc)
  have s: "route_Match ''/v1'' meth p (Subrouter ''/mapping'' rs) = (if take 11 p = ''/v1/mapping'' then router_Match ''/v1/mapping'' meth p rs else None)"
    "route_Match ''/v1'' meth p (Subrouter ''/data'' rs) = (if take 8 p = ''/v1/data'' then router_Match ''/v1/data'' meth p rs else None)"
    "route_Match ''/v1'' meth p (Subrouter ''/rule'' rs) = (if take 8 p = ''/v1/rule'' then router_Match ''/v1/rule'' meth p rs else None)"
    for rs :: "'a serve route list" by (simp_all add: numeral_eq_Suc)
  have x: "take 12 p = ''/v1/mapping/'' \<Longrightarrow> take 11 p = ''/v1/mapping''" "take 9 p = ''/v1/data/'' \<Longrightarrow> take 8 p = ''/v1/data''"
    "p = ''/v1/rule/'' \<Longrightarrow> take 8 p = ''/v1/rule''"
    using pre [of "''/v1/mapping''" "''/''"] pre [of "''/v1/data''" "''/''"] by (simp_all add: numeral_eq_Suc)
  have d: "by_manager env (case md of GET \<Rightarrow> g | DELETE \<Rightarrow> e | _ \<Rightarrow> u) =
      (case md of GET \<Rightarrow> by_manager env g | DELETE \<Rightarrow> by_manager env e | _ \<Rightarrow> by_manager env u)" for md and g e u :: "http_request \<Rightarrow> 'a manage"
    by (cases md) simp_all
  note sub = router_Match.simps(2) [of _ _ _ "Subrouter tp rs" for tp rs]
  show ?thesis
    unfolding v1_routes_def v1_vars_def Let_def manage_handler_def group_Match sub s t router_Match.simps(1)
    using x by (cases "method_of meth") (simp_all add: d)
qed

lemma manage_dispatch:
  "serve_manage env ops p req m =
    (if cleanPath p \<noteq> p then Some (Inr (Moved (cleanPath p)), m)
     else if p = ''/favicon.ico'' then http_NotFound req m
     else if p = ''/metrics'' then promhttp_Handler req m
     else if p = ''/health'' then health req m
     else case (manage_target p, method_of (rqMethod req)) of
       (Some (route, np), Some md) \<Rightarrow>
         Some (apfst (map_sum id Reply) (manage_serve env ops route md (req\<lparr>rqNodePath := np\<rparr>) m))
     | _ \<Rightarrow> http_NotFound req m)"
proof (cases "cleanPath p = p")
  case True
  have t: "tpl_Match '''' (Tpl ''/favicon.ico'' None) p = (if p = ''/favicon.ico'' then Some [] else None)"
    "tpl_Match '''' (Tpl ''/metrics'' None) p = (if p = ''/metrics'' then Some [] else None)"
    "tpl_Match '''' (Tpl ''/health'' None) p = (if p = ''/health'' then Some [] else None)"
    by simp_all
  have s: "route_Match '''' meth p (Subrouter ''/v1'' rs) = (if take 3 p = ''/v1'' then router_Match ''/v1'' meth p rs else None)"
    for meth and rs :: "'a serve route list" by (simp add: numeral_eq_Suc)
  have id: "http_NotFound (req\<lparr>rqNodePath := np\<rparr>) m = http_NotFound req m" "promhttp_Handler (req\<lparr>rqNodePath := np\<rparr>) m = promhttp_Handler req m"
    "health (req\<lparr>rqNodePath := np\<rparr>) m = health req m" for np by (simp_all add: http_NotFound_def promhttp_Handler_def health_def)
  show ?thesis
    unfolding serve_manage_def ServeHTTP_def initManageRouter_def router_Match.simps route_Match.simps(1) t s v1_Match v1_vars_target
    using True v1_vars_prefix [of p]
    by (cases "v1_vars p"; cases "method_of (rqMethod req)") (auto simp: id by_manager_method split: if_splits)
next
  case False
  then show ?thesis by (simp add: serve_manage_def ServeHTTP_def)
qed

section \<open>Reading changes nothing\<close>

lemma generateRequestID_only: "snd (generateRequestID m) = m\<lparr>mRequestIDGen := mRequestIDGen (snd (generateRequestID m))\<rparr>"
  by (simp add: generateRequestID_def AtomicLong_IncrementAndGet_def)

lemma manage_GET_keeps:
  "snd (manage_serve env ops route GET req m) = snd (generateRequestID m)"
  by (cases route; cases "generateRequestID m")
    (simp_all add: manage_serve_def manageWrapper_def manage_handler_def mappingGet_def dataGet_def accessRuleGet_def)

lemma by_handler_keeps:
  assumes "\<And>m0 out m1. h req m0 = Some (out, m1) \<Longrightarrow> P m0 m1" and "by_handler env h req m = Some (out', m')"
  shows "P (snd (generateRequestID m)) m'"
  using assms by (auto simp: by_handler_def handleWrapper_def split: prod.splits)

lemma rootHandler_keeps:
  assumes "rootHandler pick during req m = Some (out, m')"
  shows "mClient m' = mClient m \<and> (\<not> wait_param req \<longrightarrow> m' = m)"
  using assms by (auto simp: rootHandler_def Let_def must_wait_def split: if_splits option.splits sum.splits)

lemma selfHandler_keeps:
  assumes "selfHandler pick during req m = Some (out, m')"
  shows "mClient m' = mClient m \<and> (\<not> wait_param req \<longrightarrow> m' = m)"
  using assms by (auto simp: selfHandler_def Let_def must_wait_def split: if_splits option.splits sum.splits)

lemma serve_metadata_keeps:
  fixes m :: "'c metad"
  assumes "serve_metadata env pick during duringSelf p req m = Some (out, m')"
  shows "mClient m' = mClient m \<and> (\<not> wait_param req \<longrightarrow> mRepo m' = mRepo m \<and> mTimerPool m' = mTimerPool m)"
proof (cases "cleanPath p = p")
  case True
  let ?self = "by_handler env (selfHandler pick duringSelf) :: 'c serve" and ?root = "by_handler env (rootHandler pick during) :: 'c serve"
  let ?P = "\<lambda>m0 m1. mClient m1 = mClient m0 \<and> (\<not> wait_param req \<longrightarrow> m1 = m0)"
  have w: "wait_param (req\<lparr>rqNodePath := np\<rparr>) = wait_param req" for np by (simp add: wait_param_def FormValue_def)
  have g: "mTimerPool (snd (generateRequestID m)) = mTimerPool m" by (subst generateRequestID_only) simp
  have h: "?P (snd (generateRequestID m)) m'" if "?self (req\<lparr>rqNodePath := np\<rparr>) m = Some (out, m') \<or> ?root (req\<lparr>rqNodePath := np\<rparr>) m = Some (out, m')" for np
    using that
  proof
    assume "?self (req\<lparr>rqNodePath := np\<rparr>) m = Some (out, m')"
    then show ?thesis using selfHandler_keeps [of pick duringSelf "req\<lparr>rqNodePath := np\<rparr>"] w by (intro by_handler_keeps [where P = ?P]) auto
  next
    assume "?root (req\<lparr>rqNodePath := np\<rparr>) m = Some (out, m')"
    then show ?thesis using rootHandler_keeps [of pick during "req\<lparr>rqNodePath := np\<rparr>"] w by (intro by_handler_keeps [where P = ?P]) auto
  qed
  have s: "(case metadata_target ?self ?root (rqMethod req) p of None \<Rightarrow> http_NotFound req m | Some (h, np) \<Rightarrow> h (req\<lparr>rqNodePath := np\<rparr>) m) = Some (out, m')"
    using assms unfolding serve_metadata_def metadata_dispatch [OF True] .
  show ?thesis
  proof (cases "metadata_target ?self ?root (rqMethod req) p")
    case None
    show ?thesis using s unfolding None by (simp add: http_NotFound_def)
  next
    case (Some x)
    obtain h np where x: "x = (h, np)" by force
    have "h = ?self \<or> h = ?root" using metadata_target_handlers Some x by metis
    then have "?P (snd (generateRequestID m)) m'" using s Some x h [of np] by auto
    then show ?thesis using generateRequestID_keeps [of m] g by metis
  qed
next
  case False
  then show ?thesis using assms by (simp add: serve_metadata_def ServeHTTP_def)
qed

lemma serve_manage_keeps:
  assumes "rqMethod req \<notin> {''POST'', ''PUT'', ''DELETE''}" and "serve_manage env ops p req m = Some (out, m')"
  shows "m' = m \<or> m' = snd (generateRequestID m)"
proof -
  have md: "md = GET" if "method_of (rqMethod req) = Some md" for md
    using that assms(1) by (auto simp: method_of_def method_name_def split: if_splits)
  have g: "snd (apfst f (manage_serve env ops route GET rq m)) = snd (generateRequestID m)" for f route rq
    using manage_GET_keeps by (simp add: apfst_def map_prod_def split_beta)
  show ?thesis
  proof (cases "\<exists>route np md. manage_target p = Some (route, np) \<and> method_of (rqMethod req) = Some md")
    case True
    then obtain route np where "manage_target p = Some (route, np)" "method_of (rqMethod req) = Some GET" using md by blast
    moreover have "m' = snd (generateRequestID m)"
      if "apfst (map_sum id Reply) (manage_serve env ops route GET (req\<lparr>rqNodePath := np\<rparr>) m) = (out, m')"
      using g [of "map_sum id Reply" route "req\<lparr>rqNodePath := np\<rparr>"] that by (metis snd_conv)
    ultimately show ?thesis
      using assms(2) by (auto simp: manage_dispatch http_NotFound_def promhttp_Handler_def health_def split: if_splits)
  next
    case False
    then show ?thesis
      using assms(2) by (auto simp: manage_dispatch http_NotFound_def promhttp_Handler_def health_def split: if_splits option.splits)
  qed
qed

text \<open>C15: What the manage port does with a request.  A path that is not clean is redirected to its clean form, which is not redirected again; the icon is not found, the
  metrics and the health route answer themselves; below \<^verbatim>\<open>/v1\<close>, a path of a mapping, of data or of the rules with one of the four
  methods reaches exactly the handler of its kind and method, with the rest of the path as the node path; everything else, a
  method that is not served and a path with a newline included, is not found and leaves the server as it was.\<close>

theorem manage_port:
  "cleanPath (cleanPath p) = cleanPath p \<and> serve_manage env ops p req m =
    (if cleanPath p \<noteq> p then Some (Inr (Moved (cleanPath p)), m)
     else if p = ''/favicon.ico'' then http_NotFound req m
     else if p = ''/metrics'' then promhttp_Handler req m
     else if p = ''/health'' then health req m
     else case (manage_target p, method_of (rqMethod req)) of
       (Some (route, np), Some md) \<Rightarrow>
         Some (apfst (map_sum id Reply) (manage_serve env ops route md (req\<lparr>rqNodePath := np\<rparr>) m))
     | _ \<Rightarrow> http_NotFound req m)"
  using cleanPath_idem manage_dispatch by blast

text \<open>C14: Reading requests change nothing.  On the manage port a request with a method other than \<^verbatim>\<open>POST\<close>, \<^verbatim>\<open>PUT\<close> and \<^verbatim>\<open>DELETE\<close>, whatever its
  path, leaves the repository and the backend as they were; on the metadata port no request at all, whatever its method and its
  path, changes the backend, and one that does not ask to wait leaves the repository as it was too.\<close>

theorem reads_change_nothing:
  "(rqMethod req \<notin> {''POST'', ''PUT'', ''DELETE''} \<and> serve_manage env ops p req m = Some (out, m') \<longrightarrow>
      mRepo m' = mRepo m \<and> mClient m' = mClient m) \<and>
   (serve_metadata env pick during duringSelf p req m = Some (out, m') \<longrightarrow>
      mClient m' = mClient m \<and> (\<not> wait_param req \<longrightarrow> mRepo m' = mRepo m))"
  using serve_manage_keeps [of req env ops p m out m'] generateRequestID_keeps [of m]
    serve_metadata_keeps [of env pick during duringSelf p req m out m'] by auto

theorem reads_change_nothing_witness:
  "\<exists>out m'. serve_manage sample_env local_storeClient ''/v1/data/a'' (sample_request []) sample_metad = Some (out, m') \<and>
    mRepo m' = mRepo sample_metad \<and> mClient m' = mClient sample_metad"
proof -
  obtain out m' where "serve_manage sample_env local_storeClient ''/v1/data/a'' (sample_request []) sample_metad = Some (out, m')"
    unfolding manage_dispatch http_NotFound_def promhttp_Handler_def health_def
    by (cases "manage_target ''/v1/data/a''"; cases "method_of (rqMethod (sample_request []))") force+
  then show ?thesis
    using reads_change_nothing [of "sample_request []" sample_env local_storeClient "''/v1/data/a''" sample_metad out m']
    by (auto simp: sample_request_def)
qed

end
