(* ===== verification/Server.thy ===== *)
theory Server
  imports Logging Config Sync_Props
begin

text \<open>
  The life of the process once \<^verbatim>\<open>main\<close> has built a server (\<^verbatim>\<open>Serve\<close>, \<^verbatim>\<open>watchManage\<close> and \<^verbatim>\<open>watchSignals\<close> of \<^verbatim>\<open>metad.go\<close>), and the address list of
  the command line (\<^verbatim>\<open>Nodes\<close> of \<^verbatim>\<open>config.go\<close>).
\<close>

section \<open>Serving\<close>

text \<open>The manage port is opened by a goroutine that drops the error of \<^verbatim>\<open>ListenAndServe\<close>.\<close>

definition watchManage :: "log_env \<Rightarrow> Config \<Rightarrow> logger \<Rightarrow> logger" where
  "watchManage env config = log_Info env (''Listening for Manage on '' @ ListenManage config)"

text \<open>\<^verbatim>\<open>Serve\<close> returns only with the error of the metadata port, if it comes: the status the process exits with.\<close>

definition metad_Serve :: "log_env \<Rightarrow> Config \<Rightarrow> error option \<Rightarrow> logger \<Rightarrow> nat option \<times> logger" where
  "metad_Serve env config listenErr lg =
     (let lg1 = log_Info env (''Listening on '' @ Listen config) (watchManage env config lg)
      in case listenErr of None \<Rightarrow> (None, lg1) | Some err \<Rightarrow> apfst Some (log_Fatal env err lg1))"

section \<open>Stopping\<close>

datatype os_signal = SIGINT | SIGTERM

datatype process_end = Exited nat | Killed os_signal

text \<open>
  The goroutine of \<^verbatim>\<open>watchSignals\<close> after the first signal: it stops listening for signals, stops the synchronisation, and exits
  as the process 1 or sends the signal to itself, which then has its default effect.
\<close>

definition watchSignals :: "log_env \<Rightarrow> os_signal \<Rightarrow> nat \<times> nat \<Rightarrow> (localClient \<times> accessStore) metad \<Rightarrow> logger \<Rightarrow>
    (panic + process_end) \<times> (localClient \<times> accessStore) metad \<times> logger" where
  "watchSignals env sig chans m lg =
     (let lg1 = log_Info env ''Received stop signal'' lg; (res, m1) = metad_Stop chans m
      in (map_sum id (\<lambda>_. if os_Getpid env = 1 then Exited 0 else Killed sig) res, m1, lg1))"

section \<open>Addresses\<close>

definition Nodes_Set :: "string \<Rightarrow> string list \<Rightarrow> string list" where
  "Nodes_Set node n = n @ [node]"

definition Nodes_String :: "string list \<Rightarrow> string" where
  "Nodes_String n = ''['' @ concat (case n of [] \<Rightarrow> [] | x # xs \<Rightarrow> x # map (\<lambda>y. CHR '' '' # y) xs) @ '']''"

section \<open>What they do\<close>

text \<open>The addresses of repeated options are kept in order.\<close>

lemma Nodes_Set_all: "fold Nodes_Set ns n = n @ ns"
  by (induction ns arbitrary: n) (simp_all add: Nodes_Set_def)

text \<open>An error of the metadata port always ends the process, at every log level.\<close>

lemma metad_Serve_ends: "fst (metad_Serve env config listenErr lg) = map_option (\<lambda>_. 1) listenErr"
  by (simp add: metad_Serve_def Let_def log_Fatal_def split: option.splits)

text \<open>
  A signal while the synchronisation runs ends the process without a panic; the repository is gone by then, the backend's watchers are
  removed, and the backend has every text and rule it had.
\<close>

lemma watchSignals_ends:
  assumes "repo_ok (mRepo m)" and "mClient m = (c, acc)" and "client_ok c"
    and "w < length (wtab (nodes (cData c)))" and "\<not> closed (wtab (nodes (cData c)) ! w)"
    and "mw < length (wtab (nodes (cMapping c)))" and "\<not> closed (wtab (nodes (cMapping c)) ! mw)"
  obtains m' c' where "watchSignals env sig (w, mw) m lg =
      (Inr (if os_Getpid env = 1 then Exited 0 else Killed sig), m', log_Info env ''Received stop signal'' lg)"
    and "rootNil (rData (mRepo m'))" and "rootNil (rMapping (mRepo m'))" and "mClient m' = (c', acc)"
    and "removed (wtab (nodes (cData c')) ! w)" and "removed (wtab (nodes (cMapping c')) ! mw)"
    and "store_texts (cData c') = store_texts (cData c)" and "store_texts (cMapping c') = store_texts (cMapping c)"
    and "cRules c' = cRules c"
proof -
  obtain r' c' where s: "StopSync (w, mw) (mRepo m) c = (Inr (), r', c')" "rootNil (rData r')" "rootNil (rMapping r')"
    "removed (wtab (nodes (cData c')) ! w)" "removed (wtab (nodes (cMapping c')) ! mw)"
    "store_texts (cData c') = store_texts (cData c)" "store_texts (cMapping c') = store_texts (cMapping c)" "cRules c' = cRules c"
    using StopSync_ends [OF assms(1,3-7)] by blast
  then show thesis
    using that [of "m\<lparr>mRepo := r', mClient := (c', acc)\<rparr>" c'] assms(2)
    by (simp add: watchSignals_def metad_Stop_def)
qed

end
