(* ===== verification/MetaRepo_Delete.thy ===== *)
theory MetaRepo_Delete
  imports MetaRepo_Props
begin

text \<open>
  Deleting through the repository: which subtrees \<^verbatim>\<open>DeleteData\<close> and \<^verbatim>\<open>DeleteMapping\<close> clear in the backend.  What they rely on is
  one method of the backend, whose contract is stated as a locale and holds for both stores of the local client.
\<close>

section \<open>A method that deletes\<close>

text \<open>The effect of deleting each of the listed paths that the repository's own store \<open>s\<close> knows.\<close>

definition cleared :: "store \<Rightarrow> string list \<Rightarrow> texts \<Rightarrow> texts" where
  "cleared s ps T q = (if \<exists>p\<in>set ps. snd (store_Get p s) \<noteq> VNil \<and> within (path_elems p) q then '''' else T q)"

lemma cleared_Nil [simp]: "cleared s [] T = T"
  by (simp add: cleared_def fun_eq_iff)

lemma cleared_Cons:
  "cleared s (p # ps) T = cleared s ps (if snd (store_Get p s) \<noteq> VNil then clear_texts (path_elems p) T else T)"
  by (auto simp: cleared_def clear_texts_def fun_eq_iff)

locale deleting_client =
  fixes ok :: "'c \<Rightarrow> bool"
    and rd :: "'c \<Rightarrow> texts"
    and rest :: "'c \<Rightarrow> 'r"
    and del :: "string \<Rightarrow> bool \<Rightarrow> 'c call"
  assumes del_returns: "ok c \<Longrightarrow> fst (del p dir c) = Inr None"
    and del_ok: "ok c \<Longrightarrow> ok (snd (del p dir c))"
    and del_rd: "ok c \<Longrightarrow> rd (snd (del p dir c)) = clear_texts (path_elems p) (rd c)"
    and del_rest: "ok c \<Longrightarrow> rest (snd (del p dir c)) = rest c"
begin

lemma del_effect:
  assumes "ok c"
  obtains c' where "del p dir c = (Inr None, c')" and "ok c'" and "rd c' = clear_texts (path_elems p) (rd c)" and "rest c' = rest c"
  using that [of "snd (del p dir c)"] del_returns [OF assms] del_ok [OF assms] del_rd [OF assms] del_rest [OF assms]
  by (metis prod.collapse)

lemma delete_one_spec:
  assumes "ok c"
  shows "\<exists>c'. delete_one del s p c = (Inr None, c') \<and> ok c' \<and> rd c' = cleared s [p] (rd c) \<and> rest c' = rest c"
proof (cases "snd (store_Get p s) = VNil")
  case True
  with assms show ?thesis by (simp add: delete_one_def cleared_Cons)
next
  case False
  obtain c' where "del p (is_map (snd (store_Get p s))) c = (Inr None, c')" "ok c'"
    "rd c' = clear_texts (path_elems p) (rd c)" "rest c' = rest c"
    using del_effect [OF assms] by blast
  with False show ?thesis by (simp add: delete_one_def Let_def cleared_Cons)
qed

lemma delete_subs_spec:
  "ok c \<Longrightarrow> \<exists>c'. delete_subs del s p subs c = (Inr None, c') \<and> ok c' \<and>
    rd c' = cleared s (map (\<lambda>sub. path_Join [p, sub]) subs) (rd c) \<and> rest c' = rest c"
proof (induction subs arbitrary: c)
  case (Cons sub subs)
  let ?p = "path_Join [p, sub]"
  let ?v = "snd (store_Get ?p s)"
  show ?case
  proof (cases "?v = VNil")
    case True
    with Cons show ?thesis by (simp add: Let_def cleared_Cons)
  next
    case False
    obtain c1 where c1: "del ?p (is_map ?v) c = (Inr None, c1)" "ok c1" "rd c1 = clear_texts (path_elems ?p) (rd c)" "rest c1 = rest c"
      using del_effect [OF Cons.prems] by blast
    with Cons.IH [of c1] c1 False show ?thesis by (simp add: Let_def cleared_Cons)
  qed
qed simp

end

interpretation data_del: deleting_client "\<lambda>ca. client_ok (fst ca)" "\<lambda>ca. store_texts (cData (fst ca))"
  "\<lambda>ca. (cMapping (fst ca), snd ca)" "cl_Delete local_storeClient"
  by unfold_locales (auto simp: local_storeClient_def local_client_simps)

interpretation mapping_del: deleting_client "\<lambda>ca. client_ok (fst ca)" "\<lambda>ca. store_texts (cMapping (fst ca))"
  "\<lambda>ca. (cData (fst ca), snd ca)" "cl_DeleteMapping local_storeClient"
  by unfold_locales (auto simp: local_storeClient_def local_client_simps)

section \<open>The two operations\<close>

text \<open>The paths a deletion names: the path itself, or the sub nodes below it.\<close>

definition named_paths :: "string \<Rightarrow> string list \<Rightarrow> string list" where
  "named_paths p subs = (if subs = [] then [p] else map (\<lambda>sub. path_Join [p, sub]) subs)"

text \<open>C40: A deletion through the repository over the local backend clears, of the paths it names and that the repository knows, exactly the
  texts at and below them; it does so for the data, and for the mapping with blanks around the sub nodes taken off and empty
  ones left out.  A sub node with a slash is an error and nothing is deleted.  The data deletion leaves the mapping alone and
  conversely.\<close>

theorem Delete_exact:
  assumes "client_ok c"
  shows "(if checkSubs subs \<noteq> None
     then DeleteData local_storeClient r p subs (c, acc) = (Inr (checkSubs subs), (c, acc)) \<and>
       DeleteMapping local_storeClient r p subs (c, acc) = (Inr (checkSubs subs), (c, acc))
     else (\<exists>c'. DeleteData local_storeClient r p subs (c, acc) = (Inr None, (c', acc)) \<and> client_ok c' \<and> cMapping c' = cMapping c \<and>
          store_texts (cData c') = cleared (rData r) (named_paths p subs) (store_texts (cData c))) \<and>
       (\<exists>c'. DeleteMapping local_storeClient r p subs (c, acc) = (Inr None, (c', acc)) \<and> client_ok c' \<and> cData c' = cData c \<and>
          store_texts (cMapping c') = cleared (rMapping r)
            (if subs = [] then [p] else map (\<lambda>sub. path_Join [p, sub]) (filter (\<lambda>sub. sub \<noteq> '''') (map strings_TrimSpace subs)))
            (store_texts (cMapping c))))"
proof (cases "checkSubs subs")
  case (Some err)
  then show ?thesis by (simp add: DeleteData_def DeleteMapping_def)
next
  case None
  have c: "client_ok (fst (c, acc))" using assms by simp
  let ?trim = "filter (\<lambda>sub. sub \<noteq> '''') (map strings_TrimSpace subs)"
  have "\<exists>c'. DeleteData local_storeClient r p subs (c, acc) = (Inr None, (c', acc)) \<and> client_ok c' \<and> cMapping c' = cMapping c \<and>
      store_texts (cData c') = cleared (rData r) (named_paths p subs) (store_texts (cData c))"
    using data_del.delete_one_spec [OF c, of "rData r" p] data_del.delete_subs_spec [OF c, of "rData r" p subs] None
    by (cases "subs = []") (auto simp: DeleteData_def named_paths_def)
  moreover have "\<exists>c'. DeleteMapping local_storeClient r p subs (c, acc) = (Inr None, (c', acc)) \<and> client_ok c' \<and> cData c' = cData c \<and>
      store_texts (cMapping c') = cleared (rMapping r) (if subs = [] then [p] else map (\<lambda>sub. path_Join [p, sub]) ?trim)
        (store_texts (cMapping c))"
    using mapping_del.delete_one_spec [OF c, of "rMapping r" p] mapping_del.delete_subs_spec [OF c, of "rMapping r" p ?trim] None
    by (cases "subs = []") (auto simp: DeleteMapping_def)
  ultimately show ?thesis using None by simp
qed

theorem Delete_exact_witness:
  "\<exists>c'. DeleteData local_storeClient sample_repo ''/a'' [''b''] (NewLocalClient\<lparr>cData := sample_data\<rparr>, []) = (Inr None, (c', [])) \<and>
    store_texts (cData c') [''a'', ''b''] = '''' \<and> store_texts (cData c') [''a'', ''c''] = store_texts sample_data [''a'', ''c'']"
proof -
  have ok: "client_ok (NewLocalClient\<lparr>cData := sample_data\<rparr>)" using live_sample_data client_ok_new by (simp add: client_ok_def)
  have n: "named_paths ''/a'' [''b''] = [''/a/b'']" "path_elems ''/a/b'' = [''a'', ''b'']" "snd (store_Get ''/a/b'' (rData sample_repo)) \<noteq> VNil"
    "checkSubs [''b''] = None" by code_simp+
  have "cleared (rData sample_repo) (named_paths ''/a'' [''b'']) T [''a'', ''b''] = ''''"
    "cleared (rData sample_repo) (named_paths ''/a'' [''b'']) T [''a'', ''c''] = T [''a'', ''c'']" for T
    using n(3) unfolding n(1) cleared_def by (simp_all add: n(2) del: path_elems_slash)
  with Delete_exact [OF ok, of "[''b'']" sample_repo "''/a''" "[]"] n(4) show ?thesis by auto
qed


end
