(* ===== verification/Etcd_Props.thy ===== *)
theory Etcd_Props
  imports Etcd Util_Props Json_Props
begin

text \<open>
  What the etcd backend does to the keys of the service, and how its synchronisation keeps a store
  equal to them.  The service itself is assumed to behave as documented (\<open>etcd_service\<close>): a successful
  call has the described effect on a flat map of keys.
\<close>

section \<open>The documented behaviour of the service\<close>

type_synonym flat = "string \<Rightarrow> string option"

definition selects :: "string \<Rightarrow> bool \<Rightarrow> string \<Rightarrow> bool" where
  "selects k withPrefix k' \<longleftrightarrow> (if withPrefix then strings_HasPrefix k' k else k' = k)"

fun apply_op :: "etcd_op \<Rightarrow> flat \<Rightarrow> flat" where
  "apply_op (ETPut k v) M = M(k \<mapsto> v)"
| "apply_op (ETDelete k withPrefix) M = (\<lambda>k'. if selects k withPrefix k' then None else M k')"

definition etcd_service :: "'e etcd_api \<Rightarrow> ('e \<Rightarrow> flat) \<Rightarrow> bool" where
  "etcd_service api kvs \<longleftrightarrow>
     (\<forall>k withPrefix e l. api_Get api k withPrefix e = Inr l \<longrightarrow>
        distinct (map fst l) \<and> (\<forall>k' v. (k', v) \<in> set l \<longleftrightarrow> selects k withPrefix k' \<and> kvs e k' = Some v)) \<and>
     (\<forall>k v e e'. api_Put api k v e = (None, e') \<longrightarrow> kvs e' = apply_op (ETPut k v) (kvs e)) \<and>
     (\<forall>k withPrefix e e'. api_Delete api k withPrefix e = (None, e') \<longrightarrow> kvs e' = apply_op (ETDelete k withPrefix) (kvs e)) \<and>
     (\<forall>ops e e'. api_Txn api ops e = (None, e') \<longrightarrow> kvs e' = fold apply_op ops (kvs e))"

text \<open>A service that is up refuses only transactions of more than 128 operations or with a key put twice.\<close>

fun put_key :: "etcd_op \<Rightarrow> string option" where
  "put_key (ETPut k v) = Some k"
| "put_key (ETDelete k withPrefix) = None"

definition etcd_up :: "'e etcd_api \<Rightarrow> bool" where
  "etcd_up api \<longleftrightarrow>
     (\<forall>k withPrefix e. \<exists>l. api_Get api k withPrefix e = Inr l) \<and>
     (\<forall>k v e. fst (api_Put api k v e) = None) \<and>
     (\<forall>k withPrefix e. fst (api_Delete api k withPrefix e) = None) \<and>
     (\<forall>ops e. length ops \<le> 128 \<longrightarrow> distinct (List.map_filter put_key ops) \<longrightarrow> fst (api_Txn api ops e) = None)"

text \<open>An in-memory service with these properties.\<close>

definition mem_apply :: "etcd_op \<Rightarrow> (string, string) gomap \<Rightarrow> (string, string) gomap" where
  "mem_apply op m =
     (case op of
        ETPut k v \<Rightarrow> AList.update k v m
      | ETDelete k withPrefix \<Rightarrow> filter (\<lambda>kv. \<not> selects k withPrefix (fst kv)) m)"

definition mem_etcd :: "(string, string) gomap etcd_api" where
  "mem_etcd =
     \<lparr>api_Get = (\<lambda>k withPrefix m. Inr (filter (\<lambda>kv. selects k withPrefix (fst kv)) (AList.clearjunk m))),
      api_Put = (\<lambda>k v m. (None, mem_apply (ETPut k v) m)),
      api_Delete = (\<lambda>k withPrefix m. (None, mem_apply (ETDelete k withPrefix) m)),
      api_Txn = (\<lambda>ops m. if length ops \<le> 128 \<and> distinct (List.map_filter put_key ops)
                         then (None, fold mem_apply ops m) else (Some ''too many operations in txn request'', m))\<rparr>"

lemma map_of_filter_key: "map_of (filter (\<lambda>kv. P (fst kv)) m) k = (if P k then map_of m k else None)"
  by (induction m) auto

lemma mem_apply_op: "map_of (mem_apply op m) = apply_op op (map_of m)"
proof (cases op)
  case (ETDelete k withPrefix)
  show ?thesis
    using map_of_filter_key [of "\<lambda>k'. \<not> selects k withPrefix k'" m] by (simp add: ETDelete mem_apply_def fun_eq_iff)
qed (simp add: mem_apply_def)

lemma mem_apply_ops: "map_of (fold mem_apply ops m) = fold apply_op ops (map_of m)"
  by (induction ops arbitrary: m) (simp_all add: mem_apply_op)

lemma mem_Get_ok:
  "distinct (map fst (filter (\<lambda>kv. P (fst kv)) (AList.clearjunk m)))"
  "(k', v) \<in> set (filter (\<lambda>kv. P (fst kv)) (AList.clearjunk m)) \<longleftrightarrow> P k' \<and> map_of m k' = Some v"
proof -
  have d: "distinct (map fst (AList.clearjunk m))" by (rule distinct_clearjunk)
  then show "distinct (map fst (filter (\<lambda>kv. P (fst kv)) (AList.clearjunk m)))" by (rule distinct_map_filter)
  show "(k', v) \<in> set (filter (\<lambda>kv. P (fst kv)) (AList.clearjunk m)) \<longleftrightarrow> P k' \<and> map_of m k' = Some v"
    using map_of_eq_Some_iff [OF d, of k' v] by (auto simp: map_of_clearjunk)
qed

lemma mem_etcd_service: "etcd_service mem_etcd map_of"
  unfolding etcd_service_def mem_etcd_def
  by (auto simp: mem_Get_ok mem_apply_op mem_apply_ops split: if_splits simp del: apply_op.simps set_filter)

lemma mem_etcd_up: "etcd_up mem_etcd"
  by (simp add: etcd_up_def mem_etcd_def)

section \<open>Putting\<close>

lemma commit_loop_effect:
  assumes "etcd_service api kvs"
  shows "commit_loop api ops e = (None, e') \<Longrightarrow> kvs e' = fold apply_op ops (kvs e)"
  using assms
proof (induction api ops e rule: commit_loop.induct)
  case (1 api ops e)
  have txn: "kvs e2 = fold apply_op os (kvs e1)" if "api_Txn api os e1 = (None, e2)" for os e1 e2
    using "1.prems"(2) that unfolding etcd_service_def by blast
  show ?case
  proof (cases "length ops > MaxOpsPerTxn")
    case True
    with "1.prems"(1) obtain e1 where e1: "api_Txn api (take MaxOpsPerTxn ops) e = (None, e1)"
      "commit_loop api (drop MaxOpsPerTxn ops) e1 = (None, e')"
      by (subst (asm) commit_loop.simps) (auto split: prod.splits option.splits)
    have "kvs e' = fold apply_op (drop MaxOpsPerTxn ops) (kvs e1)"
      using "1.IH" [OF True e1(1) [symmetric] refl e1(2) "1.prems"(2)] .
    also have "\<dots> = fold apply_op (take MaxOpsPerTxn ops @ drop MaxOpsPerTxn ops) (kvs e)"
      by (simp only: fold_append comp_apply txn [OF e1(1)])
    finally show ?thesis by simp
  next
    case False
    with "1.prems"(1) have "api_Txn api ops e = (None, e')" by (subst (asm) commit_loop.simps) simp
    then show ?thesis by (rule txn)
  qed
qed

lemma map_filter_append: "List.map_filter f (xs @ ys) = List.map_filter f xs @ List.map_filter f ys"
  by (simp add: List.map_filter_def)

lemma commit_loop_up:
  assumes "etcd_up api"
  shows "distinct (List.map_filter put_key ops) \<Longrightarrow> fst (commit_loop api ops e) = None"
  using assms
proof (induction api ops e rule: commit_loop.induct)
  case (1 api ops e)
  have d: "distinct (List.map_filter put_key (take MaxOpsPerTxn ops))" "distinct (List.map_filter put_key (drop MaxOpsPerTxn ops))"
    using "1.prems"(1) map_filter_append [of put_key "take MaxOpsPerTxn ops" "drop MaxOpsPerTxn ops"] by simp_all
  have txn: "fst (api_Txn api os e1) = None" if "length os \<le> MaxOpsPerTxn" "distinct (List.map_filter put_key os)" for os e1
    using "1.prems"(2) that unfolding etcd_up_def MaxOpsPerTxn_def by blast
  show ?case
  proof (cases "length ops > MaxOpsPerTxn")
    case True
    obtain e1 where e1: "api_Txn api (take MaxOpsPerTxn ops) e = (None, e1)"
      using txn [of "take MaxOpsPerTxn ops" e] d(1) by (metis length_take min.cobounded2 prod.collapse)
    then show ?thesis
      using "1.IH" [OF True e1 [symmetric] refl d(2) "1.prems"(2)] True by (subst commit_loop.simps) simp
  next
    case False
    then show ?thesis using txn [of ops e] "1.prems"(1) by (subst commit_loop.simps) simp
  qed
qed

text \<open>The keys written by a bulk put, and their values.\<close>

lemma fold_puts:
  "map_ok m \<Longrightarrow> fold apply_op (map (\<lambda>(k, v). ETPut k v) m) M = M ++ map_of m"
proof (induction m arbitrary: M)
  case (Cons kv m)
  obtain k v where kv: "kv = (k, v)" by force
  have "map_of m k = None" using Cons.prems kv by (simp add: map_of_eq_None_iff)
  then have "(M(k \<mapsto> v)) ++ map_of m = (M ++ map_of m)(k \<mapsto> v)" by (auto simp: fun_eq_iff map_add_def split: option.splits)
  with Cons kv show ?case by (auto simp: fun_eq_iff map_add_def split: option.splits)
qed simp

lemma fold_put_ops:
  assumes "distinct (map (\<lambda>kv. AppendPathPrefix (fst kv) np) m)"
  shows "fold apply_op (put_ops np m) M = M ++ map_of (map (\<lambda>(k, v). (AppendPathPrefix k np, v)) m)"
proof -
  have "map_ok (map (\<lambda>(k, v). (AppendPathPrefix k np, v)) m)" using assms by (simp add: comp_def split_beta)
  from fold_puts [OF this, of M] show ?thesis by (simp add: put_ops_def comp_def case_prod_unfold)
qed

lemma put_keys_put_ops: "List.map_filter put_key (put_ops np m) = map (\<lambda>kv. AppendPathPrefix (fst kv) np) m"
  by (induction m) (auto simp: put_ops_def)

section \<open>Deleting\<close>

lemma AppendPathPrefix_nonempty: "\<forall>e\<in>set ps. canon e \<Longrightarrow> AppendPathPrefix (abs_path ps) pfx \<noteq> ''''"
  by (simp add: AppendPathPrefix_canon)

text \<open>The deletion of a directory removes exactly the keys below it, that is those that start with its path and a slash.\<close>

lemma internalDelete_dir:
  assumes "etcd_service api kvs" and "\<forall>e\<in>set ps. canon e" and "path_elems pfx @ ps \<noteq> []"
    and "etcd_internalDelete api pfx (abs_path ps) True e = (Inr None, e')"
  shows "kvs e' k = (if strings_HasPrefix k (abs_path (path_elems pfx @ ps) @ ''/'') then None else kvs e k)"
proof -
  let ?T = "path_elems pfx @ ps"
  have c: "\<forall>e\<in>set ?T. canon e" using assms(2) by auto
  then have l: "last (abs_path ?T) \<noteq> CHR ''/''" using last_abs_path [of ?T] assms(3) by blast
  have "api_Delete api (abs_path ?T @ ''/'') True e = (None, e')"
    using assms(4) l by (auto simp: etcd_internalDelete_def AppendPathPrefix_canon [OF assms(2)] Let_def split: prod.splits)
  then have "kvs e' = apply_op (ETDelete (abs_path ?T @ ''/'') True) (kvs e)"
    using assms(1) unfolding etcd_service_def by blast
  then show ?thesis by (simp add: selects_def)
qed

lemma internalDelete_up:
  assumes "etcd_up api" and "\<forall>e\<in>set ps. canon e" and "path_elems pfx @ ps \<noteq> []"
  shows "fst (etcd_internalDelete api pfx (abs_path ps) True e) = Inr None"
proof -
  let ?T = "path_elems pfx @ ps"
  have c: "\<forall>e\<in>set ?T. canon e" using assms(2) by auto
  then have l: "last (abs_path ?T) \<noteq> CHR ''/''" using last_abs_path [of ?T] assms(3) by blast
  have "fst (api_Delete api (abs_path ?T @ ''/'') True e) = None" using assms(1) by (simp add: etcd_up_def)
  then show ?thesis
    using l by (auto simp: etcd_internalDelete_def AppendPathPrefix_canon [OF assms(2)] Let_def split: prod.splits)
qed

section \<open>Putting containers\<close>

lemma internalPutValues_effect:
  assumes "etcd_service api kvs" and "etcd_up api" and "\<forall>e\<in>set ps. canon e" and "rep \<longrightarrow> path_elems pfx @ ps \<noteq> []"
    and "distinct (map (\<lambda>kv. AppendPathPrefix (fst kv) (abs_path (path_elems pfx @ ps))) m)"
  shows "\<exists>e'. etcd_internalPutValues api pfx (abs_path ps) m rep e = (Inr None, e') \<and>
    kvs e' = (\<lambda>k. if rep \<and> strings_HasPrefix k (abs_path (path_elems pfx @ ps) @ ''/'') then None else kvs e k)
      ++ map_of (map (\<lambda>(k, v). (AppendPathPrefix k (abs_path (path_elems pfx @ ps)), v)) m)"
proof -
  let ?T = "path_elems pfx @ ps"
  obtain e1 where e1: "(if rep then etcd_internalDelete api pfx (abs_path ps) True e else (Inr None, e)) = (Inr None, e1)"
    using internalDelete_up [OF assms(2,3), of pfx e] assms(4) by (cases rep) (simp, metis prod.collapse, simp)
  have k1: "kvs e1 = (\<lambda>k. if rep \<and> strings_HasPrefix k (abs_path ?T @ ''/'') then None else kvs e k)"
    using e1 assms(4) internalDelete_dir [OF assms(1,3), of pfx e e1] by (cases rep) (auto simp: fun_eq_iff)
  obtain e2 where e2: "commit_loop api (put_ops (abs_path ?T) m) e1 = (None, e2)"
    using commit_loop_up [OF assms(2), of "put_ops (abs_path ?T) m" e1] assms(5)
    by (metis prod.collapse put_keys_put_ops)
  have "kvs e2 = kvs e1 ++ map_of (map (\<lambda>(k, v). (AppendPathPrefix k (abs_path ?T), v)) m)"
    using commit_loop_effect [OF assms(1) e2] fold_put_ops [OF assms(5)] by simp
  moreover have "etcd_internalPutValues api pfx (abs_path ps) m rep e = (Inr None, e2)"
    using e1 e2 by (simp add: etcd_internalPutValues_def AppendPathPrefix_canon [OF assms(3)])
  ultimately show ?thesis using k1 by auto
qed

text \<open>Where the entries of a flattened map end up below the path \<open>T\<close>.\<close>

lemma map_of_appended:
  assumes "path_keys fm" and "\<forall>e\<in>set T. canon e" and "\<forall>e\<in>set q. canon e"
  shows "map_of (map (\<lambda>(k, v). (AppendPathPrefix k (abs_path T), v)) fm) (abs_path q) =
    (if strict_prefix T q then map_of fm (abs_path (drop (length T) q)) else None)"
    "distinct (map (\<lambda>kv. AppendPathPrefix (fst kv) (abs_path T)) fm)"
proof -
  let ?f = "\<lambda>k. AppendPathPrefix k (abs_path T)"
  have f: "?f (abs_path r) = abs_path (T @ r)" if "\<forall>e\<in>set r. canon e" for r
    using AppendPathPrefix_canon [OF that, of "abs_path T"] assms(2) by simp
  have k: "\<exists>r. r \<noteq> [] \<and> (\<forall>e\<in>set r. canon e) \<and> x = abs_path r" if "x \<in> set (keys fm)" for x
    using pre_keys_abs [OF assms(1) that] .
  have inj: "?f (abs_path r) = ?f (abs_path r') \<longleftrightarrow> r = r'" if "\<forall>e\<in>set r. canon e" "\<forall>e\<in>set r'. canon e" for r r'
    unfolding f [OF that(1)] f [OF that(2)] using that assms(2) abs_path_inj [of "T @ r" "T @ r'"] by auto
  have inj': "inj_on ?f (insert (abs_path r) (set (keys fm)))" if "\<forall>e\<in>set r. canon e" for r
  proof (rule inj_onI)
    fix x y
    assume xy: "x \<in> insert (abs_path r) (set (keys fm))" "y \<in> insert (abs_path r) (set (keys fm))" "?f x = ?f y"
    have "\<exists>a. z = abs_path a \<and> (\<forall>e\<in>set a. canon e)" if "z \<in> insert (abs_path r) (set (keys fm))" for z
      using k [of z] that \<open>\<forall>e\<in>set r. canon e\<close> by blast
    then obtain a b where "x = abs_path a" "\<forall>e\<in>set a. canon e" "y = abs_path b" "\<forall>e\<in>set b. canon e"
      using xy(1,2) by meson
    then show "x = y" using inj xy(3) by simp
  qed
  show "map_of (map (\<lambda>(k, v). (?f k, v)) fm) (abs_path q) =
    (if strict_prefix T q then map_of fm (abs_path (drop (length T) q)) else None)"
  proof (cases "strict_prefix T q")
    case True
    then obtain r where r: "q = T @ r" "r \<noteq> []" by (auto simp: strict_prefix_def prefix_def)
    then have rc: "\<forall>e\<in>set r. canon e" using assms(3) by simp
    show ?thesis using map_of_map_key [OF inj' [OF rc]] True r f [OF rc] by simp
  next
    case False
    have "abs_path q \<notin> ?f ` set (keys fm)"
    proof
      assume "abs_path q \<in> ?f ` set (keys fm)"
      then obtain r where r: "r \<noteq> []" "\<forall>e\<in>set r. canon e" "abs_path q = ?f (abs_path r)" using k by blast
      then have "q = T @ r" using f abs_path_inj [OF assms(3), of "T @ r"] assms(2) by auto
      with r(1) False show False by (simp add: strict_prefix_def)
    qed
    then show ?thesis using map_of_map_key_None False by simp
  qed
  have "distinct (map fst fm)" using assms(1) by (simp add: path_keys_def)
  moreover have "inj_on ?f (set (keys fm))" using inj' [of "[]"] inj_on_subset [OF inj'] by (metis empty_iff list.set(1) subset_insertI)
  ultimately have "distinct (map ?f (map fst fm))" by (simp only: distinct_map)
  then show "distinct (map (\<lambda>kv. ?f (fst kv)) fm)" by (simp add: comp_def)
qed

section \<open>Claims on the written keys\<close>

text \<open>C28: A put of a JSON object on the etcd backend, with the service up, always succeeds, however many transactions it
  takes, and changes exactly the keys below the target path: each scalar of the object is stored
  under its own path, printed; with replacement every other key below the path is gone, without it
  the other keys stay; keys elsewhere, siblings with a longer name included, are untouched.\<close>

theorem etcd_Put_object:
  assumes "etcd_service api kvs" and "etcd_up api" and "keys_ok (VMap m)" and "\<forall>e\<in>set ps. canon e"
    and "path_elems (ePrefix c) @ ps \<noteq> []"
  shows "\<exists>e'. etcd_Put api c (abs_path ps) (VMap m) rep e = (Inr None, e') \<and>
    (\<forall>q. (\<forall>x\<in>set q. canon x) \<longrightarrow> kvs e' (abs_path q) =
       (if strict_prefix (path_elems (ePrefix c) @ ps) q
        then (case flat_at (drop (length (path_elems (ePrefix c) @ ps)) q) (VMap m) of
                Some x \<Rightarrow> Some x | None \<Rightarrow> if rep then None else kvs e (abs_path q))
        else kvs e (abs_path q)))"
proof -
  let ?T = "path_elems (ePrefix c) @ ps"
  let ?fm = "Flatten_entries m"
  have T: "\<forall>e\<in>set ?T. canon e" using assms(4) by auto
  note pk = path_keys_Flatten [OF assms(3)]
  have "distinct (map (\<lambda>kv. AppendPathPrefix (fst kv) (abs_path ?T)) ?fm)"
    using map_of_appended(2) [OF pk T, of "[]"] by simp
  from internalPutValues_effect [OF assms(1,2,4) _ this, of rep e] assms(5) obtain e' where
    e': "etcd_internalPutValues api (ePrefix c) (abs_path ps) ?fm rep e = (Inr None, e')"
    "kvs e' = (\<lambda>k. if rep \<and> strings_HasPrefix k (abs_path ?T @ ''/'') then None else kvs e k)
      ++ map_of (map (\<lambda>(k, v). (AppendPathPrefix k (abs_path ?T), v)) ?fm)"
    by auto
  have "etcd_Put api c (abs_path ps) (VMap m) rep e = (Inr None, e')"
    using e'(1) by (simp add: etcd_Put_def etcd_internalPut_def Flatten_def)
  moreover have "kvs e' (abs_path q) =
      (if strict_prefix ?T q
       then (case flat_at (drop (length ?T) q) (VMap m) of Some x \<Rightarrow> Some x | None \<Rightarrow> if rep then None else kvs e (abs_path q))
       else kvs e (abs_path q))" if q: "\<forall>x\<in>set q. canon x" for q
  proof -
    have "\<forall>x\<in>set (drop (length ?T) q). seg x" using q by (meson canon_seg in_set_dropD)
    moreover have "drop (length ?T) q \<noteq> []" if "strict_prefix ?T q"
      using that by (auto simp: strict_prefix_def prefix_def)
    ultimately have F: "map_of ?fm (abs_path (drop (length ?T) q)) = flat_at (drop (length ?T) q) (VMap m)"
      if "strict_prefix ?T q" using Flatten_at [OF assms(3)] that by blast
    have "strings_HasPrefix (abs_path q) (abs_path ?T @ ''/'') \<longleftrightarrow> strict_prefix ?T q"
      using HasPrefix_dir [OF assms(5), of q] T q by auto
    then show ?thesis
      unfolding e'(2) using map_of_appended(1) [OF pk T q] F by (auto simp: map_add_def split: option.splits)
  qed
  ultimately show ?thesis by blast
qed

definition sample_etcd :: etcdClient where
  "sample_etcd = \<lparr>ePrefix = ''/app'', mappingPrefix = ''/_metad/mapping/default'', rulePrefix = ''/_metad/rule/default''\<rparr>"

theorem etcd_Put_object_witness:
  "\<exists>e'. etcd_Put mem_etcd sample_etcd (abs_path [''node'']) sample_value True
      [(''/app/node/old'', ''1''), (''/app/nodes/n'', ''2'')] = (Inr None, e') \<and>
    map_of e' ''/app/node/nodes/0'' = Some ''a'' \<and> map_of e' ''/app/node/old'' = None \<and> map_of e' ''/app/nodes/n'' = Some ''2''"
proof -
  have p: "path_elems (ePrefix sample_etcd) = [''app'']" by code_simp
  obtain m where m: "sample_value = VMap m" by (simp add: sample_value_def)
  have k: "keys_ok (VMap m)" unfolding m [symmetric] by (simp add: sample_value_def canon_def seg_def)
  have n: "\<forall>x\<in>set [''node'']. canon x" by (simp add: canon_def seg_def)
  have f: "flat_at [''nodes'', ''0''] sample_value = Some ''a''" "flat_at [''old''] sample_value = None" by code_simp+
  let ?e = "[(''/app/node/old'', ''1''), (''/app/nodes/n'', ''2'')]"
  obtain e' where e': "etcd_Put mem_etcd sample_etcd (abs_path [''node'']) sample_value True ?e = (Inr None, e')"
    "\<And>q. \<forall>x\<in>set q. canon x \<Longrightarrow> map_of e' (abs_path q) =
       (if strict_prefix [''app'', ''node''] q
        then (case flat_at (drop 2 q) sample_value of Some x \<Rightarrow> Some x | None \<Rightarrow> None)
        else map_of ?e (abs_path q))"
    using etcd_Put_object [OF mem_etcd_service mem_etcd_up k n, of sample_etcd True ?e]
    unfolding p m [symmetric] by (auto simp: numeral_2_eq_2)
  show ?thesis
    using e'(1) e'(2) [of "[''app'', ''node'', ''nodes'', ''0'']"] e'(2) [of "[''app'', ''node'', ''old'']"]
      e'(2) [of "[''app'', ''nodes'', ''n'']"] f
    by (auto simp: abs_path_def canon_def seg_def strict_prefix_def)
qed


text \<open>C29: A successful deletion on the etcd backend removes exactly the key of the path, or with \<^verbatim>\<open>dir\<close> exactly the keys below
  the path: deleting \<^verbatim>\<open>/node\<close> never touches \<^verbatim>\<open>/nodes\<close>.\<close>

theorem etcd_Delete_exact:
  assumes "etcd_service api kvs" and "\<forall>e\<in>set ps. canon e" and "path_elems (ePrefix c) @ ps \<noteq> []"
    and "etcd_Delete api c (abs_path ps) dir e = (Inr None, e')" and "\<forall>x\<in>set q. canon x"
  shows "kvs e' (abs_path q) =
    (if (if dir then strict_prefix (path_elems (ePrefix c) @ ps) q else q = path_elems (ePrefix c) @ ps)
     then None else kvs e (abs_path q))"
proof (cases dir)
  case True
  let ?T = "path_elems (ePrefix c) @ ps"
  have "\<forall>x\<in>set ?T. seg x" "\<forall>x\<in>set q. seg x" using assms(2,5) by auto
  then show ?thesis
    using internalDelete_dir [OF assms(1-3), of e e' "abs_path q"] assms(4) True HasPrefix_dir [OF assms(3), of q]
    by (simp add: etcd_Delete_def)
next
  case False
  let ?T = "path_elems (ePrefix c) @ ps"
  have T: "\<forall>x\<in>set ?T. canon x" using assms(2) by auto
  have "api_Delete api (abs_path ?T) False e = (None, e')"
    using assms(4) False by (auto simp: etcd_Delete_def etcd_internalDelete_def AppendPathPrefix_canon [OF assms(2)] split: prod.splits)
  then have "kvs e' = apply_op (ETDelete (abs_path ?T) False) (kvs e)"
    using assms(1) unfolding etcd_service_def by blast
  then show ?thesis using abs_path_inj [OF assms(5) T] False by (simp add: selects_def)
qed

theorem etcd_Delete_exact_witness:
  "\<exists>e'. etcd_Delete mem_etcd sample_etcd (abs_path [''node'']) True
      [(''/app/node/n'', ''1''), (''/app/nodes/n'', ''2'')] = (Inr None, e') \<and>
    map_of e' ''/app/node/n'' = None \<and> map_of e' ''/app/nodes/n'' = Some ''2''"
proof -
  let ?e = "[(''/app/node/n'', ''1''), (''/app/nodes/n'', ''2'')]"
  have p: "path_elems (ePrefix sample_etcd) = [''app'']" by code_simp
  have n: "\<forall>x\<in>set [''node'']. canon x" by (simp add: canon_def seg_def)
  obtain e' where e': "etcd_Delete mem_etcd sample_etcd (abs_path [''node'']) True ?e = (Inr None, e')"
    using internalDelete_up [OF mem_etcd_up n, of "ePrefix sample_etcd" ?e] p
    by (metis append_is_Nil_conv etcd_Delete_def list.distinct(1) prod.collapse)
  note d = etcd_Delete_exact [OF mem_etcd_service n _ e', unfolded p]
  show ?thesis
    using e' d [of "[''app'', ''node'', ''n'']"] d [of "[''app'', ''nodes'', ''n'']"]
    by (auto simp: abs_path_def canon_def seg_def strict_prefix_def)
qed

section \<open>Reading keys\<close>

text \<open>Every key that starts with the path \<open>P\<close> as a string is a canonical path strictly below it.\<close>

definition keys_under :: "string list \<Rightarrow> flat \<Rightarrow> bool" where
  "keys_under P M \<longleftrightarrow> (\<forall>k. M k \<noteq> None \<longrightarrow> strings_HasPrefix k (abs_path P) \<longrightarrow>
     (\<exists>r. r \<noteq> [] \<and> (\<forall>e\<in>set r. canon e) \<and> k = abs_path (P @ r)))"

lemma option_eqI: "(\<And>v. x = Some v \<longleftrightarrow> y = Some v) \<Longrightarrow> x = y"
  by (cases x; cases y) auto

lemma fold_update_distinct:
  assumes "distinct (map (f \<circ> fst) l)"
  shows "map_of (fold (\<lambda>(k, v). AList.update (f k) v) l m) x =
    (case map_of (map (\<lambda>(k, v). (f k, v)) l) x of Some v \<Rightarrow> Some v | None \<Rightarrow> map_of m x)"
  using assms
proof (induction l arbitrary: m)
  case (Cons kv l)
  obtain k v where kv: "kv = (k, v)" by force
  have "f k \<notin> set (keys (map (\<lambda>(k, v). (f k, v)) l))" using Cons.prems kv by (auto simp: image_iff)
  then have "map_of (map (\<lambda>(k, v). (f k, v)) l) (f k) = None" by (simp only: map_of_eq_None_iff set_map) simp
  with Cons kv show ?case by (auto split: option.splits)
qed simp

lemma path_keys_fold_update:
  assumes "\<forall>kv\<in>set l. \<exists>q. q \<noteq> [] \<and> (\<forall>e\<in>set q. canon e) \<and> f (fst kv) = pre q" and "path_keys m"
  shows "path_keys (fold (\<lambda>(k, v). AList.update (f k) v) l m)"
proof (rule fold_invariant [where P = path_keys])
  fix kv m'
  assume "kv \<in> set l" "path_keys m'"
  with assms(1) obtain q where "q \<noteq> []" "\<forall>e\<in>set q. canon e" "f (fst kv) = pre q" by blast
  with path_keys_update [OF \<open>path_keys m'\<close>] show "path_keys ((case kv of (k, v) \<Rightarrow> AList.update (f k) v) m')"
    by (cases kv) simp
qed (rule assms(2))

lemma handleGetResp_eq:
  assumes "path_elems pfx \<noteq> []"
  shows "handleGetResp pfx l vars = fold (\<lambda>(k, v). AList.update (TrimPathPrefix k pfx) v) l vars"
proof -
  have "pfx \<noteq> ''''" "pfx \<noteq> ''/''" using assms by auto
  then show ?thesis by (simp add: handleGetResp_def)
qed

text \<open>What the client reads below a path: the keys there, with the prefix taken off.\<close>

lemma internalGets_keys:
  assumes "etcd_service api kvs" and "path_elems pfx \<noteq> []" and "keys_under (path_elems pfx) (kvs e)"
    and "\<forall>x\<in>set ps. canon x" and "etcd_internalGets api pfx (abs_path ps) e = Inr m"
  shows "path_keys m"
    and "\<forall>x\<in>set r. canon x \<Longrightarrow> r \<noteq> [] \<Longrightarrow> map_of m (abs_path r) =
      (if strings_HasPrefix (abs_path (path_elems pfx @ r)) (abs_path (path_elems pfx @ ps))
       then kvs e (abs_path (path_elems pfx @ r)) else None)"
proof -
  let ?P = "path_elems pfx"
  let ?f = "\<lambda>k. TrimPathPrefix k pfx"
  obtain l where l: "api_Get api (abs_path (?P @ ps)) True e = Inr l" "m = handleGetResp pfx l []"
    using assms(5) by (auto simp: etcd_internalGets_def AppendPathPrefix_canon [OF assms(4)] split: sum.splits)
  have s: "distinct (map fst l)" "\<And>k v. (k, v) \<in> set l \<longleftrightarrow> strings_HasPrefix k (abs_path (?P @ ps)) \<and> kvs e k = Some v"
    using assms(1) l(1) unfolding etcd_service_def selects_def by auto
  have pp: "prefix (abs_path ?P) (abs_path (?P @ ps))"
    using abs_path_append [OF assms(2), of ps] by (cases "ps = []") auto
  have k: "\<exists>r. r \<noteq> [] \<and> (\<forall>x\<in>set r. canon x) \<and> fst kv = abs_path (?P @ r) \<and> ?f (fst kv) = abs_path r" if "kv \<in> set l" for kv
  proof -
    have "strings_HasPrefix (fst kv) (abs_path ?P)" "kvs e (fst kv) \<noteq> None"
      using that s(2) [of "fst kv" "snd kv"] pp by (auto simp: HasPrefix_prefix dest: prefix_order.trans)
    then show ?thesis using assms(3) TrimPathPrefix_canon unfolding keys_under_def by metis
  qed
  have inj: "inj_on ?f (set (map fst l))"
  proof (rule inj_onI)
    fix x y
    assume "x \<in> set (map fst l)" "y \<in> set (map fst l)" "?f x = ?f y"
    then obtain r r' where "\<forall>z\<in>set r. canon z" "x = abs_path (?P @ r)" "?f x = abs_path r"
      "\<forall>z\<in>set r'. canon z" "y = abs_path (?P @ r')" "?f y = abs_path r'"
      using k by auto metis
    with \<open>?f x = ?f y\<close> show "x = y" using abs_path_inj [of r r'] by simp
  qed
  have d: "distinct (map (?f \<circ> fst) l)" using inj s(1) distinct_map [of ?f "map fst l"] by simp
  have m: "m = fold (\<lambda>(k, v). AList.update (?f k) v) l []" using l(2) handleGetResp_eq [OF assms(2)] by simp
  show "path_keys m"
    unfolding m using k pre_abs_path by (intro path_keys_fold_update) (metis, simp add: path_keys_def)
  assume r: "\<forall>x\<in>set r. canon x" "r \<noteq> []"
  have t: "?f (abs_path (?P @ r)) = abs_path r" using TrimPathPrefix_canon [OF r(1)] .
  have "map_of m (abs_path r) = map_of (map (\<lambda>(k, v). (?f k, v)) l) (abs_path r)"
    unfolding m using fold_update_distinct [OF d, of "[]" "abs_path r"] by (simp split: option.splits)
  also have "\<dots> = map_of l (abs_path (?P @ r))"
  proof (cases "abs_path (?P @ r) \<in> set (map fst l)")
    case True
    then have "insert (abs_path (?P @ r)) (set (map fst l)) = set (map fst l)" by blast
    then show ?thesis using map_of_map_key [of ?f "abs_path (?P @ r)" l] inj t by simp
  next
    case False
    have "abs_path r \<notin> ?f ` set (map fst l)"
    proof
      assume "abs_path r \<in> ?f ` set (map fst l)"
      then obtain kv where "kv \<in> set l" "abs_path r = ?f (fst kv)" by auto
      moreover from k [OF this(1)] obtain r' where "\<forall>x\<in>set r'. canon x" "fst kv = abs_path (?P @ r')" "?f (fst kv) = abs_path r'" by blast
      ultimately have "fst kv = abs_path (?P @ r)" using abs_path_inj [OF r(1), of r'] by simp
      with \<open>kv \<in> set l\<close> False show False by force
    qed
    then have "map_of (map (\<lambda>(k, v). (?f k, v)) l) (abs_path r) = None" by (rule map_of_map_key_None)
    moreover have "map_of l (abs_path (?P @ r)) = None" using False by (simp add: map_of_eq_None_iff)
    ultimately show ?thesis by simp
  qed
  also have "\<dots> = (if strings_HasPrefix (abs_path (?P @ r)) (abs_path (?P @ ps)) then kvs e (abs_path (?P @ r)) else None)"
  proof (rule option_eqI)
    fix v
    show "map_of l (abs_path (?P @ r)) = Some v \<longleftrightarrow>
      (if strings_HasPrefix (abs_path (?P @ r)) (abs_path (?P @ ps)) then kvs e (abs_path (?P @ r)) else None) = Some v"
      using map_of_eq_Some_iff [OF s(1), of "abs_path (?P @ r)" v] s(2) [of "abs_path (?P @ r)" v] by simp
  qed
  finally show "map_of m (abs_path r) = (if strings_HasPrefix (abs_path (?P @ r)) (abs_path (?P @ ps))
       then kvs e (abs_path (?P @ r)) else None)" .
qed


text \<open>No key is below another one.\<close>

definition flat_free :: "flat \<Rightarrow> bool" where
  "flat_free M \<longleftrightarrow> (\<forall>q q'. (\<forall>x\<in>set q'. canon x) \<longrightarrow>
     M (abs_path q) \<noteq> None \<longrightarrow> M (abs_path q') \<noteq> None \<longrightarrow> prefix q q' \<longrightarrow> q = q')"

lemma internalGets_prefix_free:
  assumes "etcd_service api kvs" and "path_elems pfx \<noteq> []" and "keys_under (path_elems pfx) (kvs e)"
    and "\<forall>x\<in>set ps. canon x" and "etcd_internalGets api pfx (abs_path ps) e = Inr m" and "flat_free (kvs e)"
  shows "prefix_free m"
  unfolding prefix_free_def
proof (intro allI impI)
  fix q q'
  assume s: "map_of m (pre q) \<noteq> None" "map_of m (pre q') \<noteq> None" and p: "prefix q q'" and g: "\<forall>e\<in>set q'. seg e"
  have gq: "\<forall>e\<in>set q. seg e" using g p by (meson set_mono_prefix subsetD)
  have c: "z \<noteq> [] \<and> (\<forall>e\<in>set z. canon e)" if z: "map_of m (pre z) \<noteq> None" "\<forall>e\<in>set z. seg e" for z
  proof -
    have "pre z \<in> set (keys m)" using z(1) by (metis map_of_eq_None_iff list.set_map)
    then obtain y where y: "y \<noteq> []" "\<forall>e\<in>set y. canon e" "pre z = pre y"
      using internalGets_keys(1) [OF assms(1-5)] unfolding path_keys_def by blast
    then have "z = y" using pre_inj [OF z(2), of y] by auto
    with y show ?thesis by simp
  qed
  have "kvs e (abs_path (path_elems pfx @ z)) \<noteq> None" if "map_of m (pre z) \<noteq> None" "\<forall>e\<in>set z. seg e" for z
    using internalGets_keys(2) [OF assms(1-5), of z] c [OF that] that pre_abs_path [of z] by (auto split: if_splits)
  then have k: "kvs e (abs_path (path_elems pfx @ q)) \<noteq> None" "kvs e (abs_path (path_elems pfx @ q')) \<noteq> None"
    using s g gq by blast+
  have "\<forall>x\<in>set (path_elems pfx @ q'). canon x" using c [OF s(2) g] by auto
  then have "path_elems pfx @ q = path_elems pfx @ q'"
    using assms(6) k p unfolding flat_free_def by (metis same_prefix_prefix)
  then show "q = q'" by simp
qed

text \<open>C30: With the service up, reading a directory from the etcd backend returns the nested map whose strings are exactly the
  values of the keys below the path, provided the keys that start with the client's prefix are
  canonical paths below it and no key is below another one.\<close>

theorem etcd_Get_dir:
  assumes "etcd_service api kvs" and "etcd_up api" and "path_elems (ePrefix c) \<noteq> []"
    and "keys_under (path_elems (ePrefix c)) (kvs e)" and "flat_free (kvs e)" and "\<forall>x\<in>set ps. canon x"
  shows "\<exists>r. etcd_Get api c (abs_path ps) True e = Inr (Inr (VMap r)) \<and>
    (\<forall>ks. ks \<noteq> [] \<longrightarrow> (\<forall>x\<in>set ks. canon x) \<longrightarrow>
      val_leaf ks (VMap r) = kvs e (abs_path (path_elems (ePrefix c) @ ps @ ks)))"
proof -
  let ?P = "path_elems (ePrefix c)"
  obtain l where "api_Get api (abs_path (?P @ ps)) True e = Inr l" using assms(2) unfolding etcd_up_def by blast
  then obtain m where m: "etcd_internalGets api (ePrefix c) (abs_path ps) e = Inr m"
    by (simp add: etcd_internalGets_def AppendPathPrefix_canon [OF assms(6)])
  note pk = internalGets_keys [OF assms(1,3,4,6) m]
  note pf = internalGets_prefix_free [OF assms(1,3,4,6) m assms(5)]
  obtain r where r: "Expand m (abs_path ps) = Inr r"
    "\<And>ks. ks \<noteq> [] \<Longrightarrow> \<forall>x\<in>set ks. seg x \<Longrightarrow> val_leaf ks (VMap r) = map_of m (pre (ps @ ks))"
    using Expand_at [OF pk(1) pf, of "abs_path ps"] assms(6) by auto
  have "val_leaf ks (VMap r) = kvs e (abs_path (?P @ ps @ ks))" if "ks \<noteq> []" "\<forall>x\<in>set ks. canon x" for ks
  proof -
    have "strings_HasPrefix (abs_path ((?P @ ps) @ ks)) (abs_path (?P @ ps))"
      using abs_path_append [of "?P @ ps" ks] assms(3) that(1) by (simp add: HasPrefix_prefix)
    then show ?thesis
      using pk(2) [of "ps @ ks"] r(2) [of ks] that assms(6) pre_abs_path [of "ps @ ks"] by auto
  qed
  moreover have "etcd_Get api c (abs_path ps) True e = Inr (Inr (VMap r))"
    using m r(1) by (simp add: etcd_Get_def get_value_def)
  ultimately show ?thesis by blast
qed

lemma sample_keys_under: "keys_under [''app''] (map_of [(''/app/node/n'', ''1'')])"
  unfolding keys_under_def by (auto simp: abs_path_def canon_def seg_def intro!: exI [of _ "[''node'', ''n'']"])

lemma flat_free_single:
  assumes "\<forall>x\<in>set k. canon x"
  shows "flat_free (map_of [(abs_path k, v)])"
  unfolding flat_free_def
proof (intro allI impI)
  fix q q'
  assume h: "\<forall>x\<in>set q'. canon x" "map_of [(abs_path k, v)] (abs_path q) \<noteq> None"
    "map_of [(abs_path k, v)] (abs_path q') \<noteq> None" "prefix q q'"
  have "\<forall>x\<in>set q. canon x" using h(1,4) by (meson set_mono_prefix subsetD)
  then show "q = q'" using h assms abs_path_inj [of q k] abs_path_inj [of q' k] by (auto split: if_splits)
qed

theorem etcd_Get_dir_witness:
  "\<exists>r. etcd_Get mem_etcd sample_etcd (abs_path [''node'']) True [(''/app/node/n'', ''1'')] = Inr (Inr (VMap r)) \<and>
    val_leaf [''n''] (VMap r) = Some ''1''"
proof -
  let ?e = "[(''/app/node/n'', ''1'')]"
  have p: "path_elems (ePrefix sample_etcd) = [''app'']" by code_simp
  have n: "\<forall>x\<in>set [''node'']. canon x" by (simp add: canon_def seg_def)
  have "flat_free (map_of ?e)"
    using flat_free_single [of "[''app'', ''node'', ''n'']" "''1''"] by (simp add: abs_path_def canon_def seg_def)
  moreover have "path_elems (ePrefix sample_etcd) \<noteq> []" "keys_under (path_elems (ePrefix sample_etcd)) (map_of ?e)"
    using p sample_keys_under by simp_all
  ultimately obtain r where r: "etcd_Get mem_etcd sample_etcd (abs_path [''node'']) True ?e = Inr (Inr (VMap r))"
    "\<And>ks. ks \<noteq> [] \<Longrightarrow> \<forall>x\<in>set ks. canon x \<Longrightarrow>
      val_leaf ks (VMap r) = map_of ?e (abs_path (path_elems (ePrefix sample_etcd) @ [''node''] @ ks))"
    using etcd_Get_dir [OF mem_etcd_service mem_etcd_up, of sample_etcd ?e "[''node'']"] n by blast
  have "val_leaf [''n''] (VMap r) = Some ''1''" using r(2) [of "[''n'']"] p by (simp add: abs_path_def canon_def seg_def)
  with r(1) show ?thesis by blast
qed

end
