(* ===== verification/Etcd_Sync.thy ===== *)
theory Etcd_Sync
  imports Etcd_Props
begin

text \<open>
  The synchronisation of the etcd backend: the store it fills holds the texts of the keys under the
  prefix, and the caller of \<^verbatim>\<open>Sync\<close> is released exactly once.
\<close>

section \<open>The store as a mirror\<close>

definition mirrors :: "string list \<Rightarrow> flat \<Rightarrow> store \<Rightarrow> bool" where
  "mirrors P M s \<longleftrightarrow> live s \<and>
     (\<forall>r. r \<noteq> [] \<longrightarrow> (\<forall>x\<in>set r. canon x) \<longrightarrow>
       store_texts s r = (case M (abs_path (P @ r)) of None \<Rightarrow> '''' | Some v \<Rightarrow> v))"

text \<open>The effect of a watch event on the keys; an unknown kind is treated as a put.\<close>

definition ev_apply :: "etcd_event \<Rightarrow> flat \<Rightarrow> flat" where
  "ev_apply ev M = (if evType ev = ET_DELETE then M(evKey ev := None) else M(evKey ev \<mapsto> evVal ev))"

text \<open>
  The events of a history of the keys under \<open>P\<close>: each is on a canonical path strictly below \<open>P\<close>, and
  a key is deleted only when no key is below it.
\<close>

fun history :: "string list \<Rightarrow> etcd_event list \<Rightarrow> flat \<Rightarrow> bool" where
  "history P [] M \<longleftrightarrow> True"
| "history P (ev # evs) M \<longleftrightarrow>
     (\<exists>r. r \<noteq> [] \<and> (\<forall>x\<in>set r. canon x) \<and> evKey ev = abs_path (P @ r) \<and>
       (evType ev = ET_DELETE \<longrightarrow> (\<forall>r'. strict_prefix r r' \<longrightarrow> (\<forall>x\<in>set r'. canon x) \<longrightarrow> M (abs_path (P @ r')) = None))) \<and>
     history P evs (ev_apply ev M)"

abbreviation sync_change :: "etcd_event_type \<Rightarrow> string \<Rightarrow> string \<Rightarrow> store \<Rightarrow> store" where
  "sync_change ty p v s \<equiv> snd (newProcessSyncChangeFunc ty p v s)"

lemma mirrors_put:
  assumes "mirrors P M s" and "\<forall>x\<in>set P. canon x" and "r \<noteq> []" and "\<forall>x\<in>set r. canon x"
  shows "mirrors P (M(abs_path (P @ r) \<mapsto> v)) (snd (store_Put (abs_path r) (VStr v) s))"
proof -
  have l: "live s" using assms(1) by (simp add: mirrors_def)
  have t: "store_texts (snd (store_Put (abs_path r) (VStr v) s)) = (store_texts s)(r := v)"
    using st.rd_put [OF l, of "abs_path r" v] assms(3,4) by simp
  moreover have "abs_path (P @ r') = abs_path (P @ r) \<longleftrightarrow> r' = r" if "\<forall>x\<in>set r'. canon x" for r'
    using abs_path_inj [of "P @ r'" "P @ r"] that assms(2,4) by auto
  ultimately show ?thesis
    using assms(1) st.ok_put [OF l, of "abs_path r" v] unfolding mirrors_def by (auto simp: fun_upd_apply)
qed

lemma mirrors_delete:
  assumes "mirrors P M s" and "\<forall>x\<in>set P. canon x" and "r \<noteq> []" and "\<forall>x\<in>set r. canon x"
    and "\<forall>r'. strict_prefix r r' \<longrightarrow> (\<forall>x\<in>set r'. canon x) \<longrightarrow> M (abs_path (P @ r')) = None"
  shows "mirrors P (M(abs_path (P @ r) := None)) (store_Delete (abs_path r) s)"
proof -
  have l: "live s" using assms(1) by (simp add: mirrors_def)
  have t: "store_texts (store_Delete (abs_path r) s) = clear_texts r (store_texts s)"
    using st.rd_del [OF l, of "abs_path r"] assms(4) by simp
  have "abs_path (P @ r') = abs_path (P @ r) \<longleftrightarrow> r' = r" if "\<forall>x\<in>set r'. canon x" for r'
    using abs_path_inj [of "P @ r'" "P @ r"] that assms(2,4) by auto
  moreover have "M (abs_path (P @ r')) = None" if "\<forall>x\<in>set r'. canon x" "prefix r r'" "r' \<noteq> r" for r'
    using assms(5) that by (auto simp: strict_prefix_def)
  ultimately show ?thesis
    using assms(1) st.ok_del [OF l, of "abs_path r"] t unfolding mirrors_def clear_texts_def by auto
qed

lemma mirrors_events:
  assumes "path_elems pfx \<noteq> []"
  shows "mirrors (path_elems pfx) M s \<Longrightarrow> history (path_elems pfx) evs M \<Longrightarrow>
    mirrors (path_elems pfx) (fold ev_apply evs M) (process_events pfx sync_change evs s)"
proof (induction evs arbitrary: M s)
  case (Cons ev evs)
  let ?P = "path_elems pfx"
  have P: "\<forall>x\<in>set ?P. canon x" by simp
  have np: "\<not> skip_config pfx k" for k using assms by (auto simp: skip_config_def)
  obtain r where r: "r \<noteq> []" "\<forall>x\<in>set r. canon x" "evKey ev = abs_path (?P @ r)"
    "evType ev = ET_DELETE \<Longrightarrow> \<forall>r'. strict_prefix r r' \<longrightarrow> (\<forall>x\<in>set r'. canon x) \<longrightarrow> M (abs_path (?P @ r')) = None"
    using Cons.prems(2) by auto
  have t: "TrimPathPrefix (evKey ev) pfx = abs_path r" using TrimPathPrefix_canon [OF r(2)] r(3) by simp
  have "mirrors ?P (ev_apply ev M) (sync_change (evType ev) (abs_path r) (evVal ev) s)"
    using mirrors_put [OF Cons.prems(1) P r(1,2)] mirrors_delete [OF Cons.prems(1) P r(1,2)] r(3,4)
    by (cases "evType ev") (simp_all add: ev_apply_def newProcessSyncChangeFunc_def)
  from Cons.IH [OF this] Cons.prems(2) show ?case
    using np t by (simp add: process_events_def)
qed (simp add: process_events_def)

section \<open>The initial copy\<close>

lemma assign_all_keys:
  assumes "path_keys m" and "\<forall>x\<in>set r. canon x" and "r \<noteq> []"
  shows "assign_all ''/'' m T r = (case map_of m (abs_path r) of Some v \<Rightarrow> v | None \<Rightarrow> T r)"
  using assms(1)
proof (induction m arbitrary: T)
  case (Cons kv m)
  obtain k v where kv: "kv = (k, v)" by force
  have pk: "path_keys m" "k \<notin> set (keys m)" using Cons.prems kv by (auto simp: path_keys_def)
  obtain q where q: "q \<noteq> []" "\<forall>x\<in>set q. canon x" "k = abs_path q"
    using pre_keys_abs [OF Cons.prems, of k] kv by auto
  have root: "path_elems ''/'' = []" by code_simp
  have "AppendPathPrefix k ''/'' = abs_path q" using AppendPathPrefix_canon [OF q(2), of "''/''"] q(3) root by simp
  then have a: "assign (AppendPathPrefix k ''/'') v T = T(q := v)" using put_target_canon q by (simp add: assign_def)
  have i: "abs_path r = abs_path q \<longleftrightarrow> r = q" using abs_path_inj [OF assms(2) q(2)] .
  have n: "r = q \<Longrightarrow> map_of m (abs_path r) = None" using pk(2) q(3) by (simp add: map_of_eq_None_iff)
  have "assign_all ''/'' (kv # m) T r = assign_all ''/'' m (T(q := v)) r" using kv a by (simp add: assign_all_def)
  also have "\<dots> = (case map_of m (abs_path r) of Some v \<Rightarrow> v | None \<Rightarrow> (T(q := v)) r)" using Cons.IH [OF pk(1)] .
  finally show ?case using kv q(3) i n by (auto split: option.splits)
qed (simp add: assign_all_def)

lemma init_mirrors:
  assumes "etcd_service api kvs" and "etcd_up api" and "path_elems pfx \<noteq> []" and "keys_under (path_elems pfx) (kvs e)"
  shows "\<exists>s. newInitStoreFunc api pfx e newStore = (None, Inr (), s) \<and> mirrors (path_elems pfx) (kvs e) s"
proof -
  let ?P = "path_elems pfx"
  have live: "live newStore" using store_ok_new by (simp add: newStore_def)
  have e0: "\<forall>x\<in>set []. canon x" by simp
  obtain l where "api_Get api (abs_path (?P @ [])) True e = Inr l" using assms(2) unfolding etcd_up_def by blast
  then obtain m where m: "etcd_internalGets api pfx (abs_path []) e = Inr m"
    using AppendPathPrefix_canon [OF e0, of pfx] by (simp add: etcd_internalGets_def)
  note k = internalGets_keys [OF assms(1,3,4) e0 m]
  define s where "s = snd (store_PutBulk ''/'' m newStore)"
  have b: "store_PutBulk ''/'' m newStore = (Inr (), s)"
    using internalPutBulk_effect [of newStore "''/''" m] live by (auto simp: s_def store_PutBulk_def)
  have "live s" using store_ok_store_PutBulk live by (simp add: s_def store_PutBulk_def)
  moreover have "store_texts s r = (case kvs e (abs_path (?P @ r)) of None \<Rightarrow> '''' | Some v \<Rightarrow> v)"
    if r: "r \<noteq> []" "\<forall>x\<in>set r. canon x" for r
  proof -
    have "store_texts newStore r = ''''"
      using r(1) by (cases r) (simp_all add: newStore_def texts_of_def flat_def lookup_path_Cons kids_def)
    moreover have "store_texts s = assign_all ''/'' m (store_texts newStore)"
      using texts_internalPutBulk [of newStore "''/''" m] live by (simp add: s_def store_PutBulk_def)
    moreover have "strings_HasPrefix (abs_path (?P @ r)) (abs_path (?P @ []))"
      using abs_path_append [OF assms(3) r(1)] by (simp add: HasPrefix_prefix)
    ultimately show ?thesis
      using assign_all_keys [OF k(1) r(2,1)] k(2) [OF r(2,1)] by (auto split: option.splits)
  qed
  ultimately show ?thesis using b m by (simp add: newInitStoreFunc_def mirrors_def)
qed


section \<open>Claims\<close>



text \<open>Bookkeeping of the wait group.\<close>

definition sync_inv :: "'t syncState \<Rightarrow> bool" where
  "sync_inv s \<longleftrightarrow> sDone s = (if sInited s \<or> sPhase s = SExit then 1 else 0) \<and>
     (sPhase s = SRecv \<longrightarrow> sInited s) \<and> (sPhase s = SInit \<longrightarrow> \<not> sInited s)"

lemma sync_inv_step: "etcd_sync pfx initFn pc s s' \<Longrightarrow> sync_inv s \<Longrightarrow> sync_inv s'"
  by (induction rule: etcd_sync.induct) (auto simp: sync_inv_def)

lemma sync_inv_steps: "(etcd_sync pfx initFn pc)\<^sup>*\<^sup>* s s' \<Longrightarrow> sync_inv s \<Longrightarrow> sync_inv s'"
  by (induction rule: rtranclp_induct) (auto intro: sync_inv_step)

text \<open>C31: However failures, responses, reconnections and the stop signal interleave, \<^verbatim>\<open>internalSync\<close> of the etcd backend calls
  \<^verbatim>\<open>initWG.Done\<close> at most once (a second call would panic) and has called it when it returns, so the
  caller waiting in \<^verbatim>\<open>Sync\<close> is released; and once the stop signal has arrived it can return from
  every state in at most two further steps.\<close>

theorem etcd_sync_released:
  assumes "(etcd_sync pfx initFn pc)\<^sup>*\<^sup>* (sync_start t) s"
  shows "sDone s \<le> 1 \<and> (sPhase s = SExit \<or> sInited s \<longrightarrow> sDone s = 1) \<and>
    (sStop s \<longrightarrow> (\<exists>s' s''. (etcd_sync pfx initFn pc)\<^sup>=\<^sup>= s s' \<and> (etcd_sync pfx initFn pc)\<^sup>=\<^sup>= s' s'' \<and>
      sPhase s'' = SExit \<and> sDone s'' = 1))"
proof -
  have inv: "sync_inv s" using sync_inv_steps [OF assms] by (simp add: sync_inv_def sync_start_def)
  have "\<exists>s' s''. (etcd_sync pfx initFn pc)\<^sup>=\<^sup>= s s' \<and> (etcd_sync pfx initFn pc)\<^sup>=\<^sup>= s' s'' \<and> sPhase s'' = SExit \<and> sDone s'' = 1"
    if stop: "sStop s"
  proof -
    have out: "\<exists>s''. (etcd_sync pfx initFn pc)\<^sup>=\<^sup>= u s'' \<and> sPhase s'' = SExit \<and> sDone s'' = 1"
      if "sPhase u \<noteq> SRecv" "sStop u" "sync_inv u" for u
    proof -
      have "sPhase u = SLoop \<or> sPhase u = SInit \<or> sPhase u = SExit" using that(1) by (cases "sPhase u") auto
      then have "\<exists>s''. (etcd_sync pfx initFn pc)\<^sup>=\<^sup>= u s'' \<and> sPhase s'' = SExit"
        using etcd_sync.loop_stop [of u pfx initFn pc] etcd_sync.init_stop [of u pfx initFn pc] that(2) by fastforce
      then obtain s'' where s'': "(etcd_sync pfx initFn pc)\<^sup>=\<^sup>= u s''" "sPhase s'' = SExit" by blast
      then have "sync_inv s''" using sync_inv_step that(3) by auto
      with s'' show ?thesis by (auto simp: sync_inv_def)
    qed
    show ?thesis
    proof (cases "sPhase s = SRecv")
      case True
      let ?u = "s\<lparr>sPhase := SLoop\<rparr>"
      have "etcd_sync pfx initFn pc s ?u" using True by (rule etcd_sync.chan_closed)
      moreover have "sync_inv ?u" using calculation inv by (rule sync_inv_step)
      ultimately show ?thesis using out [of ?u] stop by auto
    next
      case False
      then show ?thesis using out [of s] stop inv by auto
    qed
  qed
  with inv show ?thesis by (auto simp: sync_inv_def)
qed

theorem etcd_sync_released_witness:
  "\<exists>s. (etcd_sync ''/app'' (\<lambda>s t. t = s) (\<lambda>_ _ _ s. s))\<^sup>*\<^sup>* (sync_start newStore) s \<and> sPhase s = SExit \<and> sDone s = 1"
proof -
  let ?R = "etcd_sync ''/app'' (\<lambda>s t. t = s) (\<lambda>_ _ _ s. s)"
  let ?s1 = "(sync_start newStore)\<lparr>sStop := True\<rparr>"
  let ?s2 = "?s1\<lparr>sPhase := SExit, sDone := (if \<not> sInited ?s1 then sDone ?s1 + 1 else sDone ?s1)\<rparr>"
  have "?R (sync_start newStore) ?s1" by (rule etcd_sync.stop)
  moreover have "?R ?s1 ?s2" by (rule etcd_sync.loop_stop) (simp_all add: sync_start_def)
  ultimately have r: "?R\<^sup>*\<^sup>* (sync_start newStore) ?s2"
    by (rule rtranclp.rtrancl_into_rtrancl [OF r_into_rtranclp])
  have x: "sPhase ?s2 = SExit" by simp
  show ?thesis using etcd_sync_released [OF r] r x by blast
qed


section \<open>Deviations\<close>

lemma AppendPathPrefix_root: "AppendPathPrefix ''/'' p = abs_path (path_elems p)"
  using AppendPathPrefix_canon [of "[]" p] by simp

text \<open>
  Deleting everything spares \<^verbatim>\<open>/_metad\<close> by name, but a directory whose name is a proper prefix of
  \<^verbatim>\<open>_metad\<close> is deleted with the option \<^verbatim>\<open>WithPrefix\<close> and no trailing slash, which takes the mappings with it.
\<close>

theorem delete_root_loses_mapping:
  "etcd_internalDelete mem_etcd ''/'' ''/'' True
     [(''/_meta/x'', ''1''), (''/_metad/mapping/default/10.0.0.1/node'', ''/nodes/1'')] = (Inr None, [])"
proof -
  let ?e = "[(''/_meta/x'', ''1''), (''/_metad/mapping/default/10.0.0.1/node'', ''/nodes/1'')]"
  have "api_Get mem_etcd ''/'' True ?e = Inr ?e" "handleGetResp '''' ?e [] = [(''/_meta/x'', ''1'')]"
    by code_simp+
  moreover have "Expand [(''/_meta/x'', ''1'')] ''/'' = Inr [(''_meta'', VMap [(''x'', VStr ''1'')])]"
    by code_simp
  moreover have "root_ops [(''_meta'', VMap [(''x'', VStr ''1'')])] = [ETDelete ''/_meta'' True]"
    "api_Txn mem_etcd [ETDelete ''/_meta'' True] ?e = (None, [])"
    by code_simp+
  ultimately show ?thesis
    by (simp add: etcd_internalDelete_def delete_root_def etcd_internalGets_def AppendPathPrefix_root)
qed

text \<open>A key of a sibling whose name extends the prefix is copied into the store under its full path.\<close>

theorem init_copies_sibling:
  "newInitStoreFunc mem_etcd ''/app'' [(''/app2/secret'', ''1'')] s =
    (None, store_PutBulk ''/'' [(''/app2/secret'', ''1'')] s)"
proof -
  have "path_elems ''/app'' = [''app'']" "abs_path [''app''] = ''/app''"
    "api_Get mem_etcd ''/app'' True [(''/app2/secret'', ''1'')] = Inr [(''/app2/secret'', ''1'')]"
    "handleGetResp ''/app'' [(''/app2/secret'', ''1'')] [] = [(''/app2/secret'', ''1'')]"
    by code_simp+
  then show ?thesis by (simp add: newInitStoreFunc_def etcd_internalGets_def AppendPathPrefix_root del: path_elems_slash)
qed

text \<open>With the prefix \<^verbatim>\<open>/\<close> the initial copy keeps the access rules in the data, although events on them are skipped.\<close>

theorem init_copies_rules:
  "handleGetResp ''/'' [(''/_metad/rule/default/10.0.0.1'', ''[]'')] [] = [(''/_metad/rule/default/10.0.0.1'', ''[]'')] \<and>
   skip_config ''/'' ''/_metad/rule/default/10.0.0.1''"
  by code_simp

text \<open>
  A replacing put of a string leaves the keys below the path, while the local backend deletes the
  subtree first.
\<close>

theorem replace_string_keeps_children:
  "etcd_Put mem_etcd sample_etcd ''/a'' (VStr ''1'') True [(''/app/a/b'', ''2'')] =
    (Inr None, [(''/app/a/b'', ''2''), (''/app/a'', ''1'')])"
  by code_simp

end
