(* ===== verification/Spec2Isabelle.thy ===== *)
theory Spec2Isabelle
  imports Config_Props Converge Router_Props Server MetaRepo_Delete Etcd_Sync
begin

text \<open>
  Verification of metad, a metadata server for virtual machines.

  \<^bold>\<open>The program.\<close>  A client asks the metadata port for a path of the data tree, or for the part of it that a mapping makes its
  own (\<^verbatim>\<open>/self\<close>); which paths it may see is decided by access rules for its address.  An operator writes data, mappings and
  rules through the manage port.  Writes go to a backend (in process, or etcd); goroutines copy the backend into the two
  stores of the metadata repository, from which all reads are served.  A client may wait for a change: it then holds a
  watcher of a store until events arrive.

  \<^bold>\<open>Theories and sources\<close> (all sources under \<^verbatim>\<open>src/\<close>).

  \<^item> \<^verbatim>\<open>Prelude\<close>, \<^verbatim>\<open>GoPath\<close>, \<^verbatim>\<open>Values\<close>, \<^verbatim>\<open>NetIP\<close>: Go maps as association lists, the functions of \<^verbatim>\<open>strings\<close>, \<^verbatim>\<open>path\<close>, \<^verbatim>\<open>strconv\<close> and
    \<^verbatim>\<open>net\<close> the program calls, and the dynamic values \<open>goval\<close> (\<^verbatim>\<open>interface{}\<close>).  A cleaned path is \<open>abs_path\<close> of its elements.
  \<^item> \<^verbatim>\<open>Atomic\<close> (\<^verbatim>\<open>atomic/atomic.go\<close>): the counters on 32 and 64 bit words, also as interleaved loads and adds.
  \<^item> \<^verbatim>\<open>Flatmap\<close>, \<^verbatim>\<open>Flatmap_Props\<close> (\<^verbatim>\<open>util/flatmap\<close>) and \<^verbatim>\<open>Util\<close>, \<^verbatim>\<open>Util_Props\<close> (\<^verbatim>\<open>util/helper.go\<close>): flattening and expanding nested values,
    path prefixes.
  \<^item> \<^verbatim>\<open>TimerPool\<close> (\<^verbatim>\<open>util/timerpool.go\<close>): the pool as a step system of holders.
  \<^item> \<^verbatim>\<open>Watcher\<close>, \<^verbatim>\<open>Aggregate\<close>, \<^verbatim>\<open>Aggregate_Props\<close> (\<^verbatim>\<open>store/watcher.go\<close>): events, bounded channels, and the goroutines that merge several
    watchers into one.
  \<^item> \<^verbatim>\<open>Node\<close> (\<^verbatim>\<open>store/node.go\<close>): the tree.  Node pointers are paths into one tree (\<open>noderef\<close>, innermost element first), watchers are
    positions in one table.  \<^verbatim>\<open>Node_Map\<close> and \<^verbatim>\<open>Node_Ops\<close> describe each method as an update of the flat map from paths to attributes.
  \<^item> \<^verbatim>\<open>Store\<close> (\<^verbatim>\<open>store/store.go\<close>): every exported operation runs under \<^verbatim>\<open>worldLock\<close> and is one step; the cleaning goroutine is the step
    \<open>clean_step\<close>.  \<^verbatim>\<open>Store_Map\<close> (the abstract effect of each operation), \<^verbatim>\<open>Store_Inv\<close> (the operations as labelled steps, reachable states, the
    invariant), \<^verbatim>\<open>Store_Props\<close>, \<^verbatim>\<open>Notification\<close> (which watcher gets which event on a put), \<^verbatim>\<open>Delete_Events\<close> (the events of
    a delete and of cleaning) and \<^verbatim>\<open>Store_Correct\<close> (the theorems).
  \<^item> \<^verbatim>\<open>Text_Store\<close>: the contract of a hierarchical store of texts as a locale, and its extension by replacement; interpreted on the
    store and on both stores of the local backend.
  \<^item> \<^verbatim>\<open>Access\<close>, \<^verbatim>\<open>Access_Props\<close> (\<^verbatim>\<open>store/access.go\<close>): rules, the tree compiled from them, the map of hosts (locale \<open>host_map\<close>).
    \<^verbatim>\<open>Json\<close>, \<^verbatim>\<open>Json_Props\<close>: the encoder and decoder of \<^verbatim>\<open>encoding/json\<close> for rules and values.
  \<^item> \<^verbatim>\<open>Traveller\<close>, \<^verbatim>\<open>Traveller_Props\<close> (\<^verbatim>\<open>store/traveller.go\<close>): the cursor that reads the tree under an access tree.
  \<^item> \<^verbatim>\<open>LocalBackend\<close>, \<^verbatim>\<open>LocalBackend_Props\<close> (\<^verbatim>\<open>backends/local/client.go\<close>); \<^verbatim>\<open>Etcd\<close>, \<^verbatim>\<open>Etcd_Props\<close>, \<^verbatim>\<open>Etcd_Sync\<close> (\<^verbatim>\<open>backends/etcdv3/client.go\<close>).
  \<^item> \<^verbatim>\<open>MetaRepo\<close>, \<^verbatim>\<open>MetaRepo_Props\<close>, \<^verbatim>\<open>MetaRepo_Delete\<close>, \<^verbatim>\<open>Watching\<close>, \<^verbatim>\<open>Watching_Props\<close> (\<^verbatim>\<open>metadata/metarepo.go\<close>): reading, writing, deleting (with
    the method it needs of a backend as the locale \<open>deleting_client\<close>) and waiting; \<^verbatim>\<open>Sync\<close>, \<^verbatim>\<open>Sync_Props\<close>: \<^verbatim>\<open>StartSync\<close>, \<^verbatim>\<open>StopSync\<close> and the
    composition of server, repository and local backend; \<^verbatim>\<open>Converge\<close>: backend, synchronisation goroutine and repository as one
    transition system (\<open>mirror_step\<close>), with the events in the goroutine's channel as the difference of the two stores.
  \<^item> \<^verbatim>\<open>Http\<close>, \<^verbatim>\<open>Http_Props\<close> (\<^verbatim>\<open>metad.go\<close>): handlers, wrappers and response writers; \<^verbatim>\<open>Router\<close>, \<^verbatim>\<open>Router_Props\<close>: the routes of both ports and
    the part of \<^verbatim>\<open>vendor/github.com/gorilla/mux\<close> that picks one; \<^verbatim>\<open>Logging\<close> (\<^verbatim>\<open>log/log.go\<close>, \<^verbatim>\<open>requestLog\<close> and \<^verbatim>\<open>errorLog\<close> of \<^verbatim>\<open>metad.go\<close>): the
    lines that are written; \<^verbatim>\<open>Server\<close>: \<^verbatim>\<open>Serve\<close> and what a signal does; \<^verbatim>\<open>Config\<close>, \<^verbatim>\<open>Config_Props\<close> (\<^verbatim>\<open>config.go\<close>,
    \<^verbatim>\<open>backends/client.go\<close>, \<^verbatim>\<open>main.go\<close>, \<^verbatim>\<open>SetLevel\<close> of \<^verbatim>\<open>log/log.go\<close>): from the parsed flags to a running server.

  \<^bold>\<open>Conventions.\<close>  A panic is \<open>Inl\<close> of a sum, an error value is an option or a sum inside.  A Go map is an association list whose order
  is the order of iteration, so that a theorem for every list holds for every order.  \<^verbatim>\<open>int64\<close> is a 64 bit word.  A blocked call
  is \<open>None\<close>.  What other goroutines do while a request waits is an argument (\<open>during\<close>) of the waiting operation.

  \<^bold>\<open>What is shown.\<close>

  \<^item> The store.  In every reachable state no event was sent on a closed channel, all channels respect their bounds and the
    tree is well formed; every operation refines its effect on a map from paths to texts; what \<^verbatim>\<open>Get\<close> returns after \<^verbatim>\<open>Put\<close> and
    \<^verbatim>\<open>Delete\<close>, exactly which watchers are told, that bulk puts do not depend on the iteration order, that a watched node
    stays in the tree, and that the version counts changes modulo \<open>2 ^ 64\<close>.
  \<^item> Access.  The mode of a path is that of the last rule for it; a traveller reads exactly the strings its rules admit; \<^verbatim>\<open>Root\<close> and
    \<^verbatim>\<open>Self\<close> return permitted strings only; a mapping permits exactly the mapped paths; rules accepted by the manage port are in
    force for the next request.
  \<^item> Backends.  The start of the synchronisation makes the repository agree with the local backend, a string put through the
    manage port is what a read returns after one event, deletions clear exactly the named subtrees; puts, deletes and reads of
    the etcd backend change and return exactly the right keys, and its synchronisation mirrors every history of events.
    The repository converges to the local backend: after any interleaving of writes, receives of the goroutine and client activity in
    which the channel of 5000 events does not fill up, receiving the pending events makes all texts equal, without a panic.
  \<^item> Waiting.  An aggregate watcher forwards every event exactly once, and its \<^verbatim>\<open>Remove\<close> returns exactly if the pending events
    fit its channel; a waiting request returns the last change of every path; a client that names the version it has seen misses
    no change; a timer from the pool has no left-over tick.
  \<^item> The server.  Only trees of strings reach the response writers, a JSON response decodes to the same strings, the status
    codes of the manage port, the layers of the configuration; which handler every path and method of the manage port
    reaches, and that requests that read change neither backend nor repository.

  \<^bold>\<open>Termination and fuel.\<close>  All loops of the code are structural recursions or functions with a termination proof (\<open>expandMap\<close>,
  \<open>getMappingDatas\<close>, \<open>commit_loop\<close>, \<open>agg_settle\<close>, the JSON scanner).  Only \<^verbatim>\<open>GetValue\<close> of a traveller has fuel: one more than the
  height of the tree, which is shown to suffice.

  \<^bold>\<open>Parameters.\<close>  The etcd service (\<open>etcd_api\<close>, with its documented behaviour \<open>etcd_service\<close> as a hypothesis; \<open>mem_etcd\<close> satisfies it),
  loading of certificates, the choice of \<^verbatim>\<open>sync.Pool\<close>, content negotiation, YAML, the printing and parsing of floating point numbers, files, the
  time, host name and process id in the log, the output of the metrics library.

  \<^bold>\<open>Not modelled.\<close>  Sockets and TLS; the features of \<^verbatim>\<open>gorilla/mux\<close> the program does not use; the debug output of \<^verbatim>\<open>Json\<close> methods; parsing of
  the command line and of YAML; the benchmark tool, a load generator.  The grain of concurrency is the lock: operations of one store
  are atomic, and interleavings are sequences of them.
\<close>

end
